(* ===== verification/Prelude.thy ===== *)
theory Prelude
  imports Main "HOL-Library.Word"
begin

text \<open>
  Shared vocabulary of the development: the Go integer and byte types, Go error values,
  the conversions between Go strings and byte slices, the big- and little-endian byte
  orders of the package \<open>encoding/binary\<close>, decimal printing and parsing
  (\<open>fmt.Sprintf("%d")\<close>, \<open>strconv.Atoi\<close>) and \<open>strings.Split\<close>, with the lemmas the
  component theories share.

  Conventions used by every theory. A Go function that may return an error has a result
  of type \<open>go_error + 'a\<close>. A Go function that may panic at run time (nil dereference,
  index or slice bounds) has a result of type \<open>'a option\<close>, with \<open>None\<close> for the panic.
\<close>

unbundle bit_operations_syntax

named_theorems wire_simps \<open>how the encoders extend a buffer and what the readers return\<close>
named_theorems model_defs \<open>the plain (non-recursive) definitions of the model\<close>

section \<open>Types\<close>

type_synonym byte = "8 word"
type_synonym u16 = "16 word"
type_synonym u32 = "32 word"
type_synonym u64 = "64 word"
type_synonym bytes = "byte list"

text \<open>
  Go error values. \<open>GoError\<close> is an error made by \<open>errors.New\<close> or \<open>fmt.Errorf\<close> and
  carries its message; \<open>RpcErr\<close> is a \<open>*rpc.Error\<close>, which has a code and a message
  (\<open>rpc/rpc.go\<close>).
\<close>

datatype rpc_error = Error (ecode: int) (estr: string)

datatype go_error = GoError string | RpcErr rpc_error

section \<open>Sums\<close>

text \<open>Inversion of the nested guards a Go function goes through before it returns a value.\<close>

lemma case_sum_Inr_iff:
  "(case r of Inl e \<Rightarrow> Inl e | Inr x \<Rightarrow> f x) = Inr y \<longleftrightarrow> (\<exists>x. r = Inr x \<and> f x = Inr y)"
  by (cases r) auto

lemma case_option_Inr_iff:
  "(case r of None \<Rightarrow> Inl e | Some x \<Rightarrow> f x) = Inr y \<longleftrightarrow> (\<exists>x. r = Some x \<and> f x = Inr y)"
  by (cases r) auto

lemma if_Inl_Inr_iff: "(if b then Inl e else r) = Inr y \<longleftrightarrow> \<not> b \<and> r = Inr y"
  by simp

lemma if_Inr_Inl_iff: "(if b then r else Inl e) = Inr y \<longleftrightarrow> b \<and> r = Inr y"
  by simp

lemma case_option_Some_iff:
  "(case r of None \<Rightarrow> None | Some x \<Rightarrow> f x) = Some y \<longleftrightarrow> (\<exists>x. r = Some x \<and> f x = Some y)"
  by (cases r) auto

lemmas result_iffs =
  case_sum_Inr_iff case_option_Inr_iff if_Inl_Inr_iff if_Inr_Inl_iff case_option_Some_iff

section \<open>Bytes of machine integers\<close>

text \<open>
  \<open>le_bytes n w\<close> is the list of the \<open>n\<close> low bytes of \<open>w\<close>, least significant first, and
  \<open>of_le\<close> puts such a list together again; the big-endian order is the reverse. They are
  \<open>PutUint16\<close>, \<open>PutUint32\<close>, \<open>PutUint64\<close> and \<open>Uint16\<close>, \<open>Uint32\<close>, \<open>Uint64\<close> of
  \<open>binary.LittleEndian\<close> and \<open>binary.BigEndian\<close> for \<open>n = 2, 4, 8\<close>.
\<close>

fun le_bytes :: "nat \<Rightarrow> 'a::len word \<Rightarrow> bytes" where
  "le_bytes 0 w = []"
| "le_bytes (Suc n) w = ucast w # le_bytes n (drop_bit 8 w)"

fun of_le :: "bytes \<Rightarrow> 'a::len word" where
  "of_le [] = 0"
| "of_le (b # bs) = ucast b OR push_bit 8 (of_le bs)"

definition be_bytes :: "nat \<Rightarrow> 'a::len word \<Rightarrow> bytes" where
  "be_bytes n w = rev (le_bytes n w)"

definition of_be :: "bytes \<Rightarrow> 'a::len word" where
  "of_be bs = of_le (rev bs)"

lemma length_le_bytes [simp]: "length (le_bytes n w) = n"
  by (induction n arbitrary: w) auto

lemma length_be_bytes [simp]: "length (be_bytes n w) = n"
  by (simp add: be_bytes_def)

lemma of_le_le_bytes_take_bit: "of_le (le_bytes n w) = take_bit (8 * n) (w :: 'a::len word)"
proof (induction n arbitrary: w)
  case 0
  then show ?case by simp
next
  case (Suc n)
  show ?case
    by (rule bit_word_eqI) (auto simp: Suc.IH bit_simps)
qed

lemma of_le_le_bytes: "LENGTH('a) \<le> 8 * n \<Longrightarrow> of_le (le_bytes n w) = (w :: 'a::len word)"
  by (simp add: of_le_le_bytes_take_bit take_bit_word_eq_self)

lemma of_be_be_bytes: "LENGTH('a) \<le> 8 * n \<Longrightarrow> of_be (be_bytes n w) = (w :: 'a::len word)"
  by (simp add: of_be_def be_bytes_def of_le_le_bytes)

lemma of_be_be_bytes_16 [simp]: "of_be (be_bytes 2 w) = (w :: u16)"
  by (simp add: of_be_be_bytes)

lemma of_be_be_bytes_32 [simp]: "of_be (be_bytes 4 w) = (w :: u32)"
  by (simp add: of_be_be_bytes)

lemma of_be_be_bytes_64 [simp]: "of_be (be_bytes 8 w) = (w :: u64)"
  by (simp add: of_be_be_bytes)

lemma le_bytes_take_bit: "8 * n \<le> m \<Longrightarrow> le_bytes n (take_bit m w) = le_bytes n w"
proof (induction n arbitrary: m w)
  case 0
  then show ?case by simp
next
  case (Suc n)
  have "ucast (take_bit m w) = (ucast w :: byte)"
    using Suc.prems by (intro bit_word_eqI) (auto simp: bit_simps dest: bit_imp_le_length)
  moreover have "drop_bit 8 (take_bit m w) = take_bit (m - 8) (drop_bit 8 w)"
    by (simp add: drop_bit_take_bit)
  ultimately show ?case using Suc by simp
qed

lemma le_bytes_of_le:
  "8 * length bs \<le> LENGTH('a) \<Longrightarrow> le_bytes (length bs) (of_le bs :: 'a::len word) = bs"
proof (induction bs)
  case Nil
  then show ?case by simp
next
  case (Cons b bs)
  let ?w = "of_le bs :: 'a word"
  have "ucast (ucast b OR push_bit 8 ?w) = b"
    using Cons.prems by (intro bit_word_eqI) (auto simp: bit_simps)
  moreover have "drop_bit 8 (ucast b OR push_bit 8 ?w) = take_bit (LENGTH('a) - 8) ?w"
    by (rule bit_word_eqI) (auto simp: bit_simps dest: bit_imp_le_length)
  ultimately show ?case using Cons by (simp add: le_bytes_take_bit)
qed

lemma be_bytes_of_be:
  "8 * length bs \<le> LENGTH('a) \<Longrightarrow> be_bytes (length bs) (of_be bs :: 'a::len word) = bs"
  using le_bytes_of_le [of "rev bs", where 'a = 'a] by (simp add: be_bytes_def of_be_def)

section \<open>Writing into a slice\<close>

text \<open>\<open>copy(b[i:], new)\<close> for a part \<open>new\<close> that fits: the bytes from \<open>i\<close> on are replaced.\<close>

definition patch :: "'a list \<Rightarrow> nat \<Rightarrow> 'a list \<Rightarrow> 'a list" where
  "patch b i new = take i b @ new @ drop (i + length new) b"

lemma patch_append: "length old = length new \<Longrightarrow> patch (a @ old) (length a) new = a @ new"
  by (simp add: patch_def)

lemma patch_mid:
  "length a = i \<Longrightarrow> length old = length new \<Longrightarrow> patch (a @ old @ c) i new = a @ new @ c"
  by (auto simp: patch_def)

lemma length_patch: "i + length new \<le> length b \<Longrightarrow> length (patch b i new) = length b"
  by (simp add: patch_def)

section \<open>Strings and byte slices\<close>

text \<open>\<open>[]byte(s)\<close> and \<open>string(b)\<close>: a Go string is a sequence of bytes.\<close>

definition bytes_of_string :: "string \<Rightarrow> bytes" where
  "bytes_of_string s = map (\<lambda>c. of_nat (of_char c)) s"

definition string_of_bytes :: "bytes \<Rightarrow> string" where
  "string_of_bytes bs = map (\<lambda>b. char_of (unat b)) bs"

lemma unat_of_char: "unat (of_nat (of_char c) :: byte) = of_char c"
  using nat_of_char_less_256 [of c] by (simp add: unat_of_nat)

lemma string_of_bytes_of_string [simp]: "string_of_bytes (bytes_of_string s) = s"
  by (simp add: string_of_bytes_def bytes_of_string_def unat_of_char o_def)

lemma bytes_of_string_of_bytes [simp]: "bytes_of_string (string_of_bytes bs) = bs"
proof (induction bs)
  case (Cons b bs)
  have "unat b < 256" using unsigned_less [of b] by simp
  then have "of_char (char_of (unat b)) = unat b" by (simp add: take_bit_eq_mod)
  then show ?case using Cons by (simp add: string_of_bytes_def bytes_of_string_def)
qed (simp add: string_of_bytes_def bytes_of_string_def)

lemma bytes_of_string_Nil [simp]: "bytes_of_string [] = []"
  by (simp add: bytes_of_string_def)

lemma length_bytes_of_string [simp]: "length (bytes_of_string s) = length s"
  by (simp add: bytes_of_string_def)

section \<open>Decimal numbers\<close>

text \<open>The digits that \<open>%d\<close> prints for an unsigned integer.\<close>

fun show_nat :: "nat \<Rightarrow> string" where
  "show_nat n =
     (if n < 10 then [char_of (48 + n)] else show_nat (n div 10) @ [char_of (48 + n mod 10)])"

declare show_nat.simps [simp del]

definition digit_val :: "char \<Rightarrow> nat option" where
  "digit_val c =
     (let d = of_char c :: nat in if 48 \<le> d \<and> d \<le> 57 then Some (d - 48) else None)"

fun parse_digits :: "nat \<Rightarrow> string \<Rightarrow> nat option" where
  "parse_digits acc [] = Some acc"
| "parse_digits acc (c # cs) =
     (case digit_val c of None \<Rightarrow> None | Some d \<Rightarrow> parse_digits (10 * acc + d) cs)"

text \<open>
  \<open>strconv.Atoi\<close>: an optional sign, at least one decimal digit and nothing else, and a
  value that fits the 64-bit \<open>int\<close>. The callers only test whether there is an error.
\<close>

definition Atoi :: "string \<Rightarrow> int option" where
  "Atoi s =
     (let (neg, ds) =
        (case s of
           [] \<Rightarrow> (False, [])
         | c # cs \<Rightarrow>
             if c = CHR ''-'' then (True, cs)
             else if c = CHR ''+'' then (False, cs)
             else (False, s))
      in if ds = [] then None
         else (case parse_digits 0 ds of
                 None \<Rightarrow> None
               | Some n \<Rightarrow>
                   let v = (if neg then - int n else int n)
                   in if - (2 ^ 63) \<le> v \<and> v < 2 ^ 63 then Some v else None))"

lemma digit_val_char_of [simp]: "d < 10 \<Longrightarrow> digit_val (char_of (48 + d)) = Some d"
  by (simp add: digit_val_def)

lemma parse_digits_append:
  "parse_digits acc (xs @ ys) =
     (case parse_digits acc xs of None \<Rightarrow> None | Some n \<Rightarrow> parse_digits n ys)"
  by (induction acc xs rule: parse_digits.induct) (auto split: option.splits)

lemma parse_digits_show_nat: "parse_digits 0 (show_nat n) = Some n"
proof (induction n rule: show_nat.induct)
  case (1 n)
  show ?case
  proof (cases "n < 10")
    case True
    then show ?thesis by (subst show_nat.simps) simp
  next
    case False
    with 1 have "parse_digits 0 (show_nat (n div 10)) = Some (n div 10)" by simp
    with False show ?thesis by (subst show_nat.simps) (simp add: parse_digits_append)
  qed
qed

lemma show_nat_not_Nil [simp]: "show_nat n \<noteq> []"
  by (subst show_nat.simps) simp

lemma show_nat_digits: "c \<in> set (show_nat n) \<Longrightarrow> \<exists>d < 10. c = char_of (48 + d :: nat)"
proof (induction n rule: show_nat.induct)
  case (1 n)
  show ?case
  proof (cases "n < 10")
    case True
    with "1.prems" show ?thesis by (subst (asm) show_nat.simps) auto
  next
    case False
    with "1.prems" have "c \<in> set (show_nat (n div 10)) \<or> c = char_of (48 + n mod 10)"
      by (subst (asm) show_nat.simps) auto
    moreover have "n mod 10 < 10" by simp
    ultimately show ?thesis using False "1.IH" by blast
  qed
qed

lemma char_of_digit_neq:
  assumes "(d::nat) < 10" and "of_char c < (48::nat)"
  shows "char_of (48 + d) \<noteq> c"
proof
  assume "char_of (48 + d) = c"
  then have "of_char (char_of (48 + d)) = (of_char c :: nat)" by simp
  with assms show False by simp
qed

lemma show_nat_no_low_char: "of_char c < (48::nat) \<Longrightarrow> c \<notin> set (show_nat n)"
  using show_nat_digits char_of_digit_neq by blast

lemma Atoi_show_nat [simp]: "int n < 2 ^ 63 \<Longrightarrow> Atoi (show_nat n) = Some (int n)"
proof -
  assume n: "int n < 2 ^ 63"
  obtain c cs where s: "show_nat n = c # cs" by (cases "show_nat n") auto
  have "CHR ''-'' \<notin> set (show_nat n)" "CHR ''+'' \<notin> set (show_nat n)"
    by (simp_all add: show_nat_no_low_char)
  with s have "c \<noteq> CHR ''-''" "c \<noteq> CHR ''+''" by auto
  with s n parse_digits_show_nat [of n] show ?thesis
    by (simp add: Atoi_def)
qed

section \<open>Splitting\<close>

text \<open>\<open>strings.Split(s, sep)\<close> for a separator of one character.\<close>

fun split_on :: "char \<Rightarrow> string \<Rightarrow> string list" where
  "split_on c [] = [[]]"
| "split_on c (x # xs) =
     (if x = c then [] # split_on c xs
      else (case split_on c xs of [] \<Rightarrow> [[x]] | y # ys \<Rightarrow> (x # y) # ys))"

lemma split_on_not_Nil [simp]: "split_on c s \<noteq> []"
  by (induction s) (auto split: list.splits)

lemma split_on_no_sep: "c \<notin> set s \<Longrightarrow> split_on c s = [s]"
  by (induction s) auto

lemma split_on_append_sep: "c \<notin> set s \<Longrightarrow> split_on c (s @ c # t) = s # split_on c t"
  by (induction s) auto

end
