(* ===== verification/Addr.thy ===== *)
theory Addr
  imports Prelude
begin

text \<open>
  Logical and network addresses (\<open>addr/addr.go\<close>): the three bit fields of a 32-bit logical
  address, its text form \<open>cluster.type.server\<close>, the two parsers (ordinary nodes and
  harbors) and the pair of a logical and a network address.
\<close>

section \<open>The source's constants and types\<close>

type_synonym logic_addr = u32

definition ClusterMask :: u32 where "ClusterMask = 0xFFFC0000"
definition TypeMask :: u32 where "TypeMask = 0x0003FC00"
definition ServerMask :: u32 where "ServerMask = 0x000003FF"
definition HarbarType :: u32 where "HarbarType = 255"

definition ErrInvaildAddrFmt :: go_error where
  "ErrInvaildAddrFmt = GoError ''invaild addr format''"
definition ErrHarborType :: go_error where
  "ErrHarborType = GoError ''type should be 255''"
definition ErrInvaildType :: go_error where
  "ErrInvaildType = GoError ''type should between(1,254)''"
definition ErrInvaildCluster :: go_error where
  "ErrInvaildCluster = GoError ''cluster should between(1,16383)''"
definition ErrInvaildServer :: go_error where
  "ErrInvaildServer = GoError ''server should between(0,1023)''"

lemmas addr_consts = ClusterMask_def TypeMask_def ServerMask_def HarbarType_def

text \<open>
  A \<open>*net.TCPAddr\<close> is only ever read through its \<open>String\<close> method, so it is represented by
  the text that method returns.
\<close>

datatype tcp_addr = TCPAddr (tcp_String: string)

record Addr =
  logicAddr :: logic_addr
  netAddr :: tcp_addr

section \<open>Reading a logical address\<close>

definition LogicAddr_Cluster :: "logic_addr \<Rightarrow> u32" where
  "LogicAddr_Cluster a = drop_bit 18 (a AND ClusterMask)"

definition LogicAddr_Type :: "logic_addr \<Rightarrow> u32" where
  "LogicAddr_Type a = drop_bit 10 (a AND TypeMask)"

definition LogicAddr_Server :: "logic_addr \<Rightarrow> u32" where
  "LogicAddr_Server a = a AND ServerMask"

definition LogicAddr_String :: "logic_addr \<Rightarrow> string" where
  "LogicAddr_String a =
     show_nat (unat (LogicAddr_Cluster a)) @ ''.'' @
     show_nat (unat (LogicAddr_Type a)) @ ''.'' @
     show_nat (unat (LogicAddr_Server a))"

definition LogicAddr_Empty :: "logic_addr \<Rightarrow> bool" where
  "LogicAddr_Empty a \<longleftrightarrow> a = 0"

definition LogicAddr_Clear :: "logic_addr \<Rightarrow> logic_addr" where
  "LogicAddr_Clear a = 0"

section \<open>Parsing a logical address\<close>

text \<open>The last line of both parsers, \<open>0 | tt<<10 | cluster<<18 | server\<close>, on \<open>uint32\<close>.\<close>

definition pack_fields :: "int \<Rightarrow> int \<Rightarrow> int \<Rightarrow> logic_addr" where
  "pack_fields cluster tt server =
     0 OR push_bit 10 (word_of_int tt) OR push_bit 18 (word_of_int cluster) OR word_of_int server"

definition MakeLogicAddr :: "string \<Rightarrow> go_error + logic_addr" where
  "MakeLogicAddr addr =
     (case split_on CHR ''.'' addr of
        [v0, v1, v2] \<Rightarrow>
          (case Atoi v0 of
             None \<Rightarrow> Inl ErrInvaildCluster
           | Some cluster \<Rightarrow>
               if cluster = 0 \<or> (word_of_int cluster :: u32) > drop_bit 18 ClusterMask
               then Inl ErrInvaildCluster
               else (case Atoi v1 of
                       None \<Rightarrow> Inl ErrInvaildType
                     | Some tt \<Rightarrow>
                         if tt = 0 \<or> (word_of_int tt :: u32) > drop_bit 10 TypeMask - 1
                         then Inl ErrInvaildType
                         else (case Atoi v2 of
                                 None \<Rightarrow> Inl ErrInvaildServer
                               | Some server \<Rightarrow>
                                   if (word_of_int server :: u32) > ServerMask
                                   then Inl ErrInvaildServer
                                   else Inr (pack_fields cluster tt server))))
      | _ \<Rightarrow> Inl ErrInvaildAddrFmt)"

definition MakeHarborLogicAddr :: "string \<Rightarrow> go_error + logic_addr" where
  "MakeHarborLogicAddr addr =
     (case split_on CHR ''.'' addr of
        [v0, v1, v2] \<Rightarrow>
          (case Atoi v0 of
             None \<Rightarrow> Inl ErrInvaildCluster
           | Some cluster \<Rightarrow>
               if cluster = 0 \<or> (word_of_int cluster :: u32) > drop_bit 18 ClusterMask
               then Inl ErrInvaildCluster
               else (case Atoi v1 of
                       None \<Rightarrow> Inl ErrInvaildType
                     | Some tt \<Rightarrow>
                         if (word_of_int tt :: u32) \<noteq> 255
                         then Inl ErrHarborType
                         else (case Atoi v2 of
                                 None \<Rightarrow> Inl ErrInvaildServer
                               | Some server \<Rightarrow>
                                   if (word_of_int server :: u32) > ServerMask
                                   then Inl ErrInvaildServer
                                   else Inr (pack_fields cluster tt server))))
      | _ \<Rightarrow> Inl ErrInvaildAddrFmt)"

text \<open>
  \<open>net.ResolveTCPAddr\<close> asks the resolver of the machine, so it is a parameter of the two
  constructors of an address pair.
\<close>

definition MakeAddr ::
    "(string \<Rightarrow> go_error + tcp_addr) \<Rightarrow> string \<Rightarrow> string \<Rightarrow> go_error + Addr" where
  "MakeAddr resolve logic tcpAddr =
     (case MakeLogicAddr logic of
        Inl err \<Rightarrow> Inl err
      | Inr la \<Rightarrow>
          (case resolve tcpAddr of
             Inl err \<Rightarrow> Inl err
           | Inr na \<Rightarrow> Inr \<lparr>logicAddr = la, netAddr = na\<rparr>))"

definition MakeHarborAddr ::
    "(string \<Rightarrow> go_error + tcp_addr) \<Rightarrow> string \<Rightarrow> string \<Rightarrow> go_error + Addr" where
  "MakeHarborAddr resolve logic tcpAddr =
     (case MakeHarborLogicAddr logic of
        Inl err \<Rightarrow> Inl err
      | Inr la \<Rightarrow>
          (case resolve tcpAddr of
             Inl err \<Rightarrow> Inl err
           | Inr na \<Rightarrow> Inr \<lparr>logicAddr = la, netAddr = na\<rparr>))"

definition UpdateNetAddr :: "Addr \<Rightarrow> tcp_addr \<Rightarrow> Addr" where
  "UpdateNetAddr a addr = a\<lparr>netAddr := addr\<rparr>"

section \<open>The three fields are a bijective view of the 32 bits\<close>

lemma ClusterMask_mask: "ClusterMask = push_bit 18 (mask 14)"
  by (simp add: ClusterMask_def mask_eq_exp_minus_1)

lemma TypeMask_mask: "TypeMask = push_bit 10 (mask 8)"
  by (simp add: TypeMask_def mask_eq_exp_minus_1)

lemma ServerMask_mask: "ServerMask = mask 10"
  by (simp add: ServerMask_def mask_eq_exp_minus_1)

lemma Cluster_eq: "LogicAddr_Cluster a = drop_bit 18 a"
  by (rule bit_word_eqI)
     (auto simp: LogicAddr_Cluster_def ClusterMask_mask bit_simps dest: bit_imp_le_length)

lemma Type_eq: "LogicAddr_Type a = take_bit 8 (drop_bit 10 a)"
  by (rule bit_word_eqI) (auto simp: LogicAddr_Type_def TypeMask_mask bit_simps)

lemma Server_eq: "LogicAddr_Server a = take_bit 10 a"
  by (simp add: LogicAddr_Server_def ServerMask_mask take_bit_eq_mask)

lemmas field_eqs = Cluster_eq Type_eq Server_eq

lemma fields_compose:
  "push_bit 10 (LogicAddr_Type a) OR push_bit 18 (LogicAddr_Cluster a) OR LogicAddr_Server a = a"
proof (rule bit_word_eqI)
  fix n assume "n < LENGTH(32)"
  then show "bit (push_bit 10 (LogicAddr_Type a) OR push_bit 18 (LogicAddr_Cluster a)
      OR LogicAddr_Server a) n = bit a n"
    by (cases "n < 10"; cases "n < 18") (auto simp: field_eqs bit_simps)
qed

lemma fields_of_pack:
  fixes c t s :: u32
  assumes "take_bit 14 c = c" and "take_bit 8 t = t" and "take_bit 10 s = s"
  defines "a \<equiv> push_bit 10 t OR push_bit 18 c OR s"
  shows "LogicAddr_Cluster a = c" "LogicAddr_Type a = t" "LogicAddr_Server a = s"
proof -
  have c: "\<not> bit c n" if "14 \<le> n" for n using assms(1) that by (metis bit_take_bit_iff not_le)
  have c': "n < 14" if "bit c n" for n using c that not_le by blast
  have t: "\<not> bit t n" if "8 \<le> n" for n using assms(2) that by (metis bit_take_bit_iff not_le)
  have s: "\<not> bit s n" if "10 \<le> n" for n using assms(3) that by (metis bit_take_bit_iff not_le)
  show "LogicAddr_Cluster a = c"
    by (rule bit_word_eqI) (auto simp: a_def field_eqs bit_simps c t s not_le dest: c')
  show "LogicAddr_Type a = t"
    by (rule bit_word_eqI) (auto simp: a_def field_eqs bit_simps c t s not_le)
  show "LogicAddr_Server a = s"
    by (rule bit_word_eqI) (auto simp: a_def field_eqs bit_simps c t s not_le)
qed

lemma take_bit_eq_self_unat: "take_bit n w = w \<longleftrightarrow> unat w < 2 ^ n" for w :: u32
proof -
  have "take_bit n w = w \<longleftrightarrow> unat (take_bit n w) = unat w"
    by (simp only: word_unat_eq_iff)
  then show ?thesis by (simp add: unsigned_take_bit_eq take_bit_nat_eq_self_iff)
qed

lemma field_bounds:
  "unat (LogicAddr_Cluster a) < 16384"
  "unat (LogicAddr_Type a) < 256"
  "unat (LogicAddr_Server a) < 1024"
proof -
  have "take_bit 14 (LogicAddr_Cluster a) = LogicAddr_Cluster a"
    by (rule bit_word_eqI) (auto simp: field_eqs bit_simps dest: bit_imp_le_length)
  then show "unat (LogicAddr_Cluster a) < 16384" by (simp add: take_bit_eq_self_unat)
  have "take_bit 8 (LogicAddr_Type a) = LogicAddr_Type a"
    by (simp add: field_eqs)
  then show "unat (LogicAddr_Type a) < 256" by (simp add: take_bit_eq_self_unat)
  have "take_bit 10 (LogicAddr_Server a) = LogicAddr_Server a"
    by (simp add: field_eqs)
  then show "unat (LogicAddr_Server a) < 1024" by (simp add: take_bit_eq_self_unat)
qed

lemma addr_eqI:
  assumes "LogicAddr_Cluster a = LogicAddr_Cluster b" "LogicAddr_Type a = LogicAddr_Type b"
    "LogicAddr_Server a = LogicAddr_Server b"
  shows "a = b"
  using fields_compose [of a] fields_compose [of b] assms by metis

section \<open>What the parsers accept\<close>

lemma pack_fields_fields:
  assumes "unat (word_of_int c :: u32) < 16384" "unat (word_of_int t :: u32) < 256"
    "unat (word_of_int s :: u32) < 1024"
  shows "LogicAddr_Cluster (pack_fields c t s) = word_of_int c"
    "LogicAddr_Type (pack_fields c t s) = word_of_int t"
    "LogicAddr_Server (pack_fields c t s) = word_of_int s"
  using fields_of_pack [of "word_of_int c" "word_of_int t" "word_of_int s"] assms
  by (simp_all add: pack_fields_def take_bit_eq_self_unat)

lemma mask_tests:
  "(w > drop_bit 18 ClusterMask) \<longleftrightarrow> \<not> unat w < 16384"
  "(w > drop_bit 10 TypeMask - 1) \<longleftrightarrow> \<not> unat w < 255"
  "(w > ServerMask) \<longleftrightarrow> \<not> unat w < 1024" for w :: u32
  by (auto simp: addr_consts word_less_nat_alt)

lemma split_three: "(case vs of [a, b, c] \<Rightarrow> f a b c | _ \<Rightarrow> z) = Inr r \<longleftrightarrow>
    (\<exists>a b c. vs = [a, b, c] \<and> f a b c = Inr r)" if "z = Inl e"
  using that by (auto split: list.splits)

text \<open>
  The text that prints an address splits into the three printed fields, each of which
  \<open>Atoi\<close> reads back.
\<close>

lemma split_String:
  "split_on CHR ''.'' (LogicAddr_String a) =
     [show_nat (unat (LogicAddr_Cluster a)), show_nat (unat (LogicAddr_Type a)),
      show_nat (unat (LogicAddr_Server a))]"
proof -
  have "CHR ''.'' \<notin> set (show_nat n)" for n
    by (rule show_nat_no_low_char) simp
  then show ?thesis
    by (simp add: LogicAddr_String_def split_on_append_sep split_on_no_sep)
qed

lemma Atoi_field: "Atoi (show_nat (unat (w :: u32))) = Some (uint w)"
  using unsigned_less [of w, where 'a = int] Atoi_show_nat [of "unat w"] by simp

lemma pack_fields_self:
  "pack_fields (uint (LogicAddr_Cluster a)) (uint (LogicAddr_Type a)) (uint (LogicAddr_Server a)) = a"
  by (simp add: pack_fields_def fields_compose)

lemma MakeLogicAddr_Inr_iff:
  "MakeLogicAddr s = Inr a \<longleftrightarrow>
     (\<exists>v0 v1 v2 c t n. split_on CHR ''.'' s = [v0, v1, v2] \<and>
        Atoi v0 = Some c \<and> Atoi v1 = Some t \<and> Atoi v2 = Some n \<and> c \<noteq> 0 \<and> t \<noteq> 0 \<and>
        unat (word_of_int c :: u32) < 16384 \<and> unat (word_of_int t :: u32) < 255 \<and>
        unat (word_of_int n :: u32) < 1024 \<and> a = pack_fields c t n)"
  unfolding MakeLogicAddr_def split_three [OF refl] mask_tests result_iffs by auto

lemma MakeHarborLogicAddr_Inr_iff:
  "MakeHarborLogicAddr s = Inr a \<longleftrightarrow>
     (\<exists>v0 v1 v2 c t n. split_on CHR ''.'' s = [v0, v1, v2] \<and>
        Atoi v0 = Some c \<and> Atoi v1 = Some t \<and> Atoi v2 = Some n \<and> c \<noteq> 0 \<and>
        unat (word_of_int c :: u32) < 16384 \<and> (word_of_int t :: u32) = 255 \<and>
        unat (word_of_int n :: u32) < 1024 \<and> a = pack_fields c t n)"
  unfolding MakeHarborLogicAddr_def split_three [OF refl] mask_tests result_iffs by auto

lemma MakeLogicAddr_String:
  assumes "LogicAddr_Cluster a \<noteq> 0" "LogicAddr_Type a \<noteq> 0" "LogicAddr_Type a \<noteq> HarbarType"
  shows "MakeLogicAddr (LogicAddr_String a) = Inr a"
proof -
  have "unat (LogicAddr_Type a) \<noteq> 255"
    using assms(3) by (auto simp: HarbarType_def word_unat_eq_iff)
  then have "unat (LogicAddr_Type a) < 255"
    using field_bounds(2) [of a] by simp
  then show ?thesis
    using assms field_bounds [of a] unfolding MakeLogicAddr_Inr_iff
    by (simp add: split_String Atoi_field pack_fields_self uint_0_iff)
qed

lemma MakeHarborLogicAddr_String:
  assumes "LogicAddr_Cluster a \<noteq> 0" "LogicAddr_Type a = HarbarType"
  shows "MakeHarborLogicAddr (LogicAddr_String a) = Inr a"
  using assms field_bounds [of a] pack_fields_self [of a] unfolding MakeHarborLogicAddr_Inr_iff
  by (simp add: split_String Atoi_field HarbarType_def uint_0_iff)

lemma MakeLogicAddr_not_harbor: "MakeLogicAddr s = Inr a \<Longrightarrow> LogicAddr_Type a \<noteq> HarbarType"
proof -
  assume "MakeLogicAddr s = Inr a"
  then obtain c t n where *: "unat (word_of_int c :: u32) < 16384"
    "unat (word_of_int t :: u32) < 255" "unat (word_of_int n :: u32) < 1024" "a = pack_fields c t n"
    by (auto simp: MakeLogicAddr_Inr_iff)
  then have "LogicAddr_Type a = word_of_int t" by (simp add: pack_fields_fields)
  with * show "LogicAddr_Type a \<noteq> HarbarType" by (auto simp: HarbarType_def)
qed

lemma MakeHarborLogicAddr_harbor: "MakeHarborLogicAddr s = Inr a \<Longrightarrow> LogicAddr_Type a = HarbarType"
  by (auto simp: MakeHarborLogicAddr_Inr_iff pack_fields_fields HarbarType_def)

lemma MakeLogicAddr_String_harbor:
  "LogicAddr_Type a = HarbarType \<Longrightarrow> LogicAddr_Cluster a \<noteq> 0 \<Longrightarrow>
     MakeLogicAddr (LogicAddr_String a) = Inl ErrInvaildType"
  using field_bounds(1) [of a] unfolding MakeLogicAddr_def split_String mask_tests
  by (simp add: Atoi_field HarbarType_def uint_0_iff)

lemma LogicAddr_String_eqD: "LogicAddr_String a = LogicAddr_String b \<Longrightarrow> a = b"
proof -
  assume "LogicAddr_String a = LogicAddr_String b"
  then have split: "split_on CHR ''.'' (LogicAddr_String a) = split_on CHR ''.'' (LogicAddr_String b)"
    by simp
  have show_inj: "v = w" if "show_nat (unat v) = show_nat (unat w)" for v w :: u32
    using that Atoi_field [of v] Atoi_field [of w] by (simp add: word_uint_eq_iff)
  from split show "a = b"
    unfolding split_String by (auto intro: addr_eqI dest!: show_inj)
qed

section \<open>Properties\<close>

text \<open>
  C28. Printing a logical address and parsing the text gives the address back: with
  \<open>MakeLogicAddr\<close> for the ordinary node types 1 to 254 and with \<open>MakeHarborLogicAddr\<close>
  for the harbor type 255, for every address whose cluster and type are not 0.
\<close>

theorem logic_addr_roundtrip:
  assumes "LogicAddr_Cluster a \<noteq> 0" and "LogicAddr_Type a \<noteq> 0"
  shows "(if LogicAddr_Type a = HarbarType then MakeHarborLogicAddr (LogicAddr_String a)
          else MakeLogicAddr (LogicAddr_String a)) = Inr a"
  using assms by (simp add: MakeLogicAddr_String MakeHarborLogicAddr_String)

theorem logic_addr_roundtrip_witness:
  "MakeLogicAddr (LogicAddr_String 526339) = Inr 526339 \<and>
   MakeHarborLogicAddr (LogicAddr_String 523264) = Inr 523264"
  using logic_addr_roundtrip [of 526339] logic_addr_roundtrip [of 523264]
  by (simp add: field_eqs HarbarType_def)

text \<open>
  What \<open>MakeLogicAddr\<close> accepts, and the address it makes: three dot-separated decimal
  integers; the cluster and the type are not 0 as Go ints; and after truncation to
  \<open>uint32\<close> the cluster is below 16384, the type below 255 and the server below 1024, and
  these truncated values are the fields of the result.
\<close>

lemma MakeLogicAddr_accepts:
  "MakeLogicAddr s = Inr a \<longleftrightarrow>
     (\<exists>v0 v1 v2 c t n. split_on CHR ''.'' s = [v0, v1, v2] \<and>
        Atoi v0 = Some c \<and> Atoi v1 = Some t \<and> Atoi v2 = Some n \<and> c \<noteq> 0 \<and> t \<noteq> 0 \<and>
        unat (word_of_int c :: u32) < 16384 \<and> unat (word_of_int t :: u32) < 255 \<and>
        unat (word_of_int n :: u32) < 1024 \<and>
        LogicAddr_Cluster a = word_of_int c \<and> LogicAddr_Type a = word_of_int t \<and>
        LogicAddr_Server a = word_of_int n)" (is "?L \<longleftrightarrow> ?R")
proof
  assume ?L
  then obtain v0 v1 v2 c t n where
    acc: "split_on CHR ''.'' s = [v0, v1, v2]" "Atoi v0 = Some c" "Atoi v1 = Some t"
      "Atoi v2 = Some n" "c \<noteq> 0" "t \<noteq> 0" "unat (word_of_int c :: u32) < 16384"
      "unat (word_of_int t :: u32) < 255" "unat (word_of_int n :: u32) < 1024"
      "a = pack_fields c t n"
    unfolding MakeLogicAddr_Inr_iff by blast
  with pack_fields_fields [of c t n] have "LogicAddr_Cluster a = word_of_int c"
    "LogicAddr_Type a = word_of_int t" "LogicAddr_Server a = word_of_int n" by simp_all
  with acc show ?R by blast
next
  assume ?R
  then obtain v0 v1 v2 c t n where
    acc: "split_on CHR ''.'' s = [v0, v1, v2]" "Atoi v0 = Some c" "Atoi v1 = Some t"
      "Atoi v2 = Some n" "c \<noteq> 0" "t \<noteq> 0" "unat (word_of_int c :: u32) < 16384"
      "unat (word_of_int t :: u32) < 255" "unat (word_of_int n :: u32) < 1024"
    and fields: "LogicAddr_Cluster a = word_of_int c" "LogicAddr_Type a = word_of_int t"
      "LogicAddr_Server a = word_of_int n"
    by blast
  have "a = pack_fields c t n"
    by (rule addr_eqI) (use acc fields pack_fields_fields [of c t n] in simp_all)
  with acc show ?L unfolding MakeLogicAddr_Inr_iff by blast
qed

text \<open>
  The range checks are made after the truncation to \<open>uint32\<close>, so a text with fields far
  outside the documented ranges is accepted: \<open>4294967296.4294967296.0\<close> parses to the
  empty address 0, whose cluster and type are both 0.
\<close>

lemma MakeLogicAddr_wraps:
  "MakeLogicAddr ''4294967296.4294967296.0'' = Inr 0 \<and> LogicAddr_Empty 0 \<and>
   LogicAddr_Cluster 0 = 0 \<and> LogicAddr_Type 0 = 0"
  by (simp add: MakeLogicAddr_def Atoi_def digit_val_def pack_fields_def addr_consts field_eqs
      LogicAddr_Empty_def)

text \<open>
  The text of a logical address identifies it: two different 32-bit addresses never
  print the same, also outside the ranges the parsers accept.
\<close>

lemma LogicAddr_String_inj: "inj LogicAddr_String"
  by (rule injI) (rule LogicAddr_String_eqD)

end
