(* ===== verification/Membership.thy ===== *)
theory Membership
  imports Addr
begin

text \<open>
  The members of a cluster as the membership providers describe them
  (\<open>membership/membership.go\<close>): the node record with its JSON form, and the lists of
  changes a provider reports.

  The JSON package is represented by the two functions the code calls on the struct
  \<open>nodeJson\<close>, as parameters, with the law that decoding gives back what was encoded.
\<close>

record nodeJson =
  LogicAddr :: string
  NetAddr :: string
  jExport :: bool
  jAvailable :: bool

record Node =
  nAddr :: Addr
  Export :: bool
  Available :: bool

record MemberInfo =
  Add :: "Node list"
  Remove :: "Node list"
  Update :: "Node list"

definition Node_Marshal :: "(nodeJson \<Rightarrow> go_error + bytes) \<Rightarrow> Node \<Rightarrow> go_error + bytes" where
  "Node_Marshal json_Marshal n =
     json_Marshal \<lparr>LogicAddr = LogicAddr_String (logicAddr (nAddr n)),
       NetAddr = tcp_String (netAddr (nAddr n)), jExport = Export n, jAvailable = Available n\<rparr>"

text \<open>The zero value \<open>Addr{}\<close>; a nil \<open>*net.TCPAddr\<close> prints as \<open><nil>\<close>.\<close>

definition zero_Addr :: Addr where
  "zero_Addr = \<lparr>logicAddr = 0, netAddr = TCPAddr ''<nil>''\<rparr>"

text \<open>
  \<open>Unmarshal\<close> fills in the node it is called on; with an error the node keeps what was
  assigned before.
\<close>

definition Node_Unmarshal ::
    "(bytes \<Rightarrow> nodeJson \<Rightarrow> go_error + nodeJson) \<Rightarrow> (string \<Rightarrow> go_error + tcp_addr) \<Rightarrow>
     bytes \<Rightarrow> Node \<Rightarrow> go_error option \<times> Node" where
  "Node_Unmarshal json_Unmarshal resolve data n =
     (case json_Unmarshal data \<lparr>LogicAddr = [], NetAddr = [], jExport = False, jAvailable = False\<rparr> of
        Inl err \<Rightarrow> (Some err, n)
      | Inr j \<Rightarrow>
          let n = n\<lparr>Available := jAvailable j, Export := jExport j\<rparr>
          in (case MakeAddr resolve (LogicAddr j) (NetAddr j) of
                Inl err \<Rightarrow> (Some err, n\<lparr>nAddr := zero_Addr\<rparr>)
              | Inr a \<Rightarrow> (None, n\<lparr>nAddr := a\<rparr>)))"

text \<open>
  What is relied on: decoding a struct that was encoded gives the struct back, and
  resolving the text of a network address gives the address back.
\<close>

definition json_ok ::
    "(nodeJson \<Rightarrow> go_error + bytes) \<Rightarrow> (bytes \<Rightarrow> nodeJson \<Rightarrow> go_error + nodeJson) \<Rightarrow> bool" where
  "json_ok json_Marshal json_Unmarshal \<longleftrightarrow>
     (\<forall>j z. \<exists>b. json_Marshal j = Inr b \<and> json_Unmarshal b z = Inr j)"

definition resolve_ok :: "(string \<Rightarrow> go_error + tcp_addr) \<Rightarrow> tcp_addr \<Rightarrow> bool" where
  "resolve_ok resolve t \<longleftrightarrow> resolve (tcp_String t) = Inr t"

lemma Node_Unmarshal_Marshal:
  assumes "json_ok json_Marshal json_Unmarshal"
  shows "\<exists>b. Node_Marshal json_Marshal n = Inr b \<and>
    Node_Unmarshal json_Unmarshal resolve b z =
      (case MakeAddr resolve (LogicAddr_String (logicAddr (nAddr n))) (tcp_String (netAddr (nAddr n))) of
         Inl err \<Rightarrow> (Some err, \<lparr>nAddr = zero_Addr, Export = Export n, Available = Available n\<rparr>)
       | Inr a \<Rightarrow> (None, \<lparr>nAddr = a, Export = Export n, Available = Available n\<rparr>))"
proof -
  let ?j = "\<lparr>LogicAddr = LogicAddr_String (logicAddr (nAddr n)),
    NetAddr = tcp_String (netAddr (nAddr n)), jExport = Export n, jAvailable = Available n\<rparr>"
  obtain b where "json_Marshal ?j = Inr b"
    "json_Unmarshal b \<lparr>LogicAddr = [], NetAddr = [], jExport = False, jAvailable = False\<rparr> = Inr ?j"
    using assms unfolding json_ok_def by blast
  then show ?thesis
    by (cases n) (auto simp: Node_Marshal_def Node_Unmarshal_def Let_def split: sum.splits)
qed

section \<open>Properties\<close>

text \<open>
  A node description survives its JSON form when the node is an ordinary one (type 1
  to 254): what \<open>Marshal\<close> writes, \<open>Unmarshal\<close> turns back into the same node, whatever the
  record it is called on held before.
\<close>

lemma node_json_roundtrip:
  assumes "json_ok json_Marshal json_Unmarshal" "resolve_ok resolve (netAddr (nAddr n))"
    and "LogicAddr_Cluster (logicAddr (nAddr n)) \<noteq> 0" "LogicAddr_Type (logicAddr (nAddr n)) \<noteq> 0"
    and "LogicAddr_Type (logicAddr (nAddr n)) \<noteq> HarbarType"
  shows "\<exists>b. Node_Marshal json_Marshal n = Inr b \<and>
    Node_Unmarshal json_Unmarshal resolve b z = (None, n)"
  using Node_Unmarshal_Marshal [OF assms(1), of n resolve z] assms(2-5)
  by (cases n) (auto simp: MakeAddr_def MakeLogicAddr_String resolve_ok_def split: sum.splits)

text \<open>A concrete encoding of the struct, to show that the laws can hold.\<close>

definition demo_json_Marshal :: "nodeJson \<Rightarrow> go_error + bytes" where
  "demo_json_Marshal j = Inr ((if jExport j then 1 else 0) # (if jAvailable j then 1 else 0) #
     replicate (length (LogicAddr j)) 1 @ 0 # bytes_of_string (LogicAddr j) @
     bytes_of_string (NetAddr j))"

definition demo_json_Unmarshal :: "bytes \<Rightarrow> nodeJson \<Rightarrow> go_error + nodeJson" where
  "demo_json_Unmarshal b z =
     (case b of
        e # a # t \<Rightarrow>
          let n = length (takeWhile (\<lambda>x. x = 1) t); r = tl (dropWhile (\<lambda>x. x = 1) t)
          in Inr \<lparr>LogicAddr = string_of_bytes (take n r), NetAddr = string_of_bytes (drop n r),
                jExport = (e = 1), jAvailable = (a = 1)\<rparr>
      | _ \<Rightarrow> Inl (GoError ''unexpected end of JSON input''))"

lemma demo_json_ok: "json_ok demo_json_Marshal demo_json_Unmarshal"
proof -
  have "takeWhile (\<lambda>x. x = 1) (replicate n (1 :: byte) @ 0 # t) = replicate n 1"
    "dropWhile (\<lambda>x. x = 1) (replicate n (1 :: byte) @ 0 # t) = 0 # t" for n t
    by (induction n) auto
  then show ?thesis
    by (simp add: json_ok_def demo_json_Marshal_def demo_json_Unmarshal_def Let_def)
qed

definition demo_node :: Node where
  "demo_node = \<lparr>nAddr = \<lparr>logicAddr = 526339, netAddr = TCPAddr ''127.0.0.1:8110''\<rparr>,
     Export = False, Available = True\<rparr>"

text \<open>
  The description of a harbor node does not survive: \<open>Unmarshal\<close> parses the logical
  address with \<open>MakeAddr\<close>, which refuses type 255, so reading back what \<open>Marshal\<close> wrote
  for a harbor always fails with \<open>ErrInvaildType\<close>.
\<close>

lemma harbor_json_fails:
  assumes "json_ok json_Marshal json_Unmarshal"
    and "LogicAddr_Cluster (logicAddr (nAddr n)) \<noteq> 0"
    and "LogicAddr_Type (logicAddr (nAddr n)) = HarbarType"
  shows "\<exists>b. Node_Marshal json_Marshal n = Inr b \<and>
    fst (Node_Unmarshal json_Unmarshal resolve b z) = Some ErrInvaildType"
  using Node_Unmarshal_Marshal [OF assms(1), of n resolve z] assms(2-3)
  by (auto simp: MakeAddr_def MakeLogicAddr_String_harbor)

end
