(* ===== verification/Node_Cache.thy ===== *)
theory Node_Cache
  imports Membership
begin

text \<open>
  The view a node keeps of the cluster (\<open>nodeCache\<close> in \<open>node.go\<close>): all visible nodes by
  logical address, the available ordinary nodes grouped by type and the available harbors
  grouped by cluster.

  A \<open>*node\<close> is an index into a heap, the list of all nodes ever allocated, because the
  groups and \<open>allnodes\<close> hold pointers and compare them. Of a node this theory has the
  address and the availability; its connection is in \<open>Node_Conn\<close>. What the update does to
  connections is a list of events. Dereferencing a nil pointer is a panic (\<open>None\<close>).
\<close>

section \<open>State\<close>

type_synonym ptr = nat

record node =
  addr :: Addr
  available :: bool

record nodeCache =
  localAddr :: logic_addr
  allnodes :: "logic_addr \<rightharpoonup> ptr"
  nodes :: "u32 \<rightharpoonup> ptr list"
  harbors :: "u32 \<rightharpoonup> ptr list"
  initDone :: bool

datatype cache_event = CloseSocket ptr | StopSelf

text \<open>The cache of a node that \<open>NewClusterNode\<close> has made, with the address \<open>Start\<close> gives it.\<close>

definition new_cache :: "logic_addr \<Rightarrow> nodeCache" where
  "new_cache self = \<lparr>localAddr = self, allnodes = Map.empty, nodes = Map.empty, harbors = Map.empty,
     initDone = False\<rparr>"

section \<open>The groups\<close>

definition key_type :: "node list \<Rightarrow> ptr \<Rightarrow> u32" where
  "key_type heap p = LogicAddr_Type (logicAddr (addr (heap ! p)))"

definition key_cluster :: "node list \<Rightarrow> ptr \<Rightarrow> u32" where
  "key_cluster heap p = LogicAddr_Cluster (logicAddr (addr (heap ! p)))"

text \<open>The body shared by \<open>addNode\<close> and \<open>addHarbor\<close>, and that of the two removals.\<close>

definition group_add :: "u32 \<Rightarrow> ptr \<Rightarrow> (u32 \<rightharpoonup> ptr list) \<Rightarrow> (u32 \<rightharpoonup> ptr list)" where
  "group_add k p g = (case g k of None \<Rightarrow> g(k \<mapsto> [p]) | Some ps \<Rightarrow> g(k \<mapsto> ps @ [p]))"

fun index_of :: "ptr \<Rightarrow> ptr list \<Rightarrow> nat option" where
  "index_of p [] = None"
| "index_of p (v # vs) = (if v = p then Some 0 else map_option Suc (index_of p vs))"

definition group_remove :: "u32 \<Rightarrow> ptr \<Rightarrow> (u32 \<rightharpoonup> ptr list) \<Rightarrow> (u32 \<rightharpoonup> ptr list)" where
  "group_remove k p g =
     (case g k of
        None \<Rightarrow> g
      | Some ps \<Rightarrow>
          (case index_of p ps of
             None \<Rightarrow> g
           | Some i \<Rightarrow> g(k \<mapsto> take (length ps - 1) (ps[i := ps ! (length ps - 1)]))))"

definition addNode :: "nodeCache \<Rightarrow> node list \<Rightarrow> ptr \<Rightarrow> nodeCache" where
  "addNode cache heap n = cache\<lparr>nodes := group_add (key_type heap n) n (nodes cache)\<rparr>"

definition removeNode :: "nodeCache \<Rightarrow> node list \<Rightarrow> ptr \<Rightarrow> nodeCache" where
  "removeNode cache heap n = cache\<lparr>nodes := group_remove (key_type heap n) n (nodes cache)\<rparr>"

definition addHarbor :: "nodeCache \<Rightarrow> node list \<Rightarrow> ptr \<Rightarrow> nodeCache" where
  "addHarbor cache heap h = cache\<lparr>harbors := group_add (key_cluster heap h) h (harbors cache)\<rparr>"

definition removeHarbor :: "nodeCache \<Rightarrow> node list \<Rightarrow> ptr \<Rightarrow> nodeCache" where
  "removeHarbor cache heap h = cache\<lparr>harbors := group_remove (key_cluster heap h) h (harbors cache)\<rparr>"

definition join_group :: "nodeCache \<Rightarrow> node list \<Rightarrow> ptr \<Rightarrow> nodeCache" where
  "join_group cache heap n =
     (if key_type heap n \<noteq> HarbarType then addNode cache heap n else addHarbor cache heap n)"

definition leave_group :: "nodeCache \<Rightarrow> node list \<Rightarrow> ptr \<Rightarrow> nodeCache" where
  "leave_group cache heap n =
     (if key_type heap n \<noteq> HarbarType then removeNode cache heap n else removeHarbor cache heap n)"

section \<open>Changes of the membership\<close>

text \<open>The condition under which the cache looks at a member at all.\<close>

definition visible :: "logic_addr \<Rightarrow> Node \<Rightarrow> bool" where
  "visible self v \<longleftrightarrow> Export v \<or>
     LogicAddr_Cluster (logicAddr (nAddr v)) = LogicAddr_Cluster self \<or>
     (LogicAddr_Type self = HarbarType \<and> LogicAddr_Type (logicAddr (nAddr v)) = HarbarType)"

text \<open>The bodies of the three loops, for one member.\<close>

definition add_member :: "Node \<Rightarrow> nodeCache \<Rightarrow> node list \<Rightarrow> nodeCache \<times> node list" where
  "add_member v cache heap =
     (if visible (localAddr cache) v then
        let n = length heap;
            heap = heap @ [\<lparr>addr = nAddr v, available = Available v\<rparr>];
            cache = cache\<lparr>allnodes := (allnodes cache)(logicAddr (addr (heap ! n)) \<mapsto> n)\<rparr>
        in (if available (heap ! n) then join_group cache heap n else cache, heap)
      else (cache, heap))"

text \<open>
  The two other loops may end the whole call early (\<open>go self.Stop(); return\<close>), which the
  Boolean tells, and may panic.
\<close>

type_synonym loop_result = "(bool \<times> nodeCache \<times> node list \<times> cache_event list) option"

definition remove_member ::
    "Node \<Rightarrow> nodeCache \<Rightarrow> node list \<Rightarrow> cache_event list \<Rightarrow> loop_result" where
  "remove_member v cache heap evs =
     (if visible (localAddr cache) v then
        if logicAddr (nAddr v) = localAddr cache then Some (True, cache, heap, evs @ [StopSelf])
        else
          (case allnodes cache (logicAddr (nAddr v)) of
             None \<Rightarrow> None
           | Some n \<Rightarrow>
               let cache = cache\<lparr>allnodes := (allnodes cache)(logicAddr (addr (heap ! n)) := None)\<rparr>;
                   cache = (if available (heap ! n) then leave_group cache heap n else cache)
               in Some (False, cache, heap, evs @ [CloseSocket n]))
      else Some (False, cache, heap, evs))"

definition set_available ::
    "bool \<Rightarrow> nodeCache \<Rightarrow> node list \<Rightarrow> ptr \<Rightarrow> nodeCache \<times> node list" where
  "set_available av cache heap n =
     (if av then
        if \<not> available (heap ! n) then
          let heap = heap[n := (heap ! n)\<lparr>available := True\<rparr>]
          in (join_group cache heap n, heap)
        else (cache, heap)
      else
        if available (heap ! n) then
          let heap = heap[n := (heap ! n)\<lparr>available := False\<rparr>]
          in (leave_group cache heap n, heap)
        else (cache, heap))"

definition update_member ::
    "Node \<Rightarrow> nodeCache \<Rightarrow> node list \<Rightarrow> cache_event list \<Rightarrow> loop_result" where
  "update_member v cache heap evs =
     (if visible (localAddr cache) v then
        (case allnodes cache (logicAddr (nAddr v)) of
           None \<Rightarrow> None
         | Some n \<Rightarrow>
             if tcp_String (netAddr (nAddr v)) \<noteq> tcp_String (netAddr (addr (heap ! n))) then
               if logicAddr (addr (heap ! n)) = localAddr cache
               then Some (True, cache, heap, evs @ [StopSelf])
               else
                 let heap = heap[n := (heap ! n)\<lparr>addr := UpdateNetAddr (addr (heap ! n)) (netAddr (nAddr v))\<rparr>];
                     (cache, heap) = set_available (Available v) cache heap n
                 in Some (False, cache, heap, evs @ [CloseSocket n])
             else
               let (cache, heap) = set_available (Available v) cache heap n
               in Some (False, cache, heap, evs))
      else Some (False, cache, heap, evs))"

fun add_members :: "Node list \<Rightarrow> nodeCache \<Rightarrow> node list \<Rightarrow> nodeCache \<times> node list" where
  "add_members [] cache heap = (cache, heap)"
| "add_members (v # vs) cache heap =
     (case add_member v cache heap of (cache, heap) \<Rightarrow> add_members vs cache heap)"

fun run_loop ::
    "(Node \<Rightarrow> nodeCache \<Rightarrow> node list \<Rightarrow> cache_event list \<Rightarrow> loop_result) \<Rightarrow>
     Node list \<Rightarrow> nodeCache \<Rightarrow> node list \<Rightarrow> cache_event list \<Rightarrow> loop_result" where
  "run_loop body [] cache heap evs = Some (False, cache, heap, evs)"
| "run_loop body (v # vs) cache heap evs =
     (case body v cache heap evs of
        None \<Rightarrow> None
      | Some (stop, cache, heap, evs) \<Rightarrow>
          if stop then Some (True, cache, heap, evs) else run_loop body vs cache heap evs)"

definition onNodeInfoUpdate ::
    "MemberInfo \<Rightarrow> nodeCache \<Rightarrow> node list \<Rightarrow> (nodeCache \<times> node list \<times> cache_event list) option" where
  "onNodeInfoUpdate nodeinfo cache heap =
     (let (cache, heap) = add_members (Add nodeinfo) cache heap
      in (case run_loop remove_member (Remove nodeinfo) cache heap [] of
            None \<Rightarrow> None
          | Some (stop, cache, heap, evs) \<Rightarrow>
              if stop then Some (cache\<lparr>initDone := True\<rparr>, heap, evs)
              else (case run_loop update_member (Update nodeinfo) cache heap evs of
                      None \<Rightarrow> None
                    | Some (_, cache, heap, evs) \<Rightarrow> Some (cache\<lparr>initDone := True\<rparr>, heap, evs))))"

section \<open>Lookups\<close>

definition getHarbor :: "nodeCache \<Rightarrow> u32 \<Rightarrow> logic_addr \<Rightarrow> ptr option" where
  "getHarbor cache cluster m =
     (case harbors cache cluster of
        None \<Rightarrow> None
      | Some hs \<Rightarrow> if length hs = 0 then None else Some (hs ! (unat m mod length hs)))"

text \<open>
  \<open>getNormalNode\<close> with \<open>r\<close> for the random number. Go's remainder has the sign of the
  dividend, so a negative \<open>n\<close> that is not a multiple of the length indexes out of range.
\<close>

definition getNormalNode :: "nat \<Rightarrow> nodeCache \<Rightarrow> u32 \<Rightarrow> int \<Rightarrow> ptr option option" where
  "getNormalNode r cache tt n =
     (case nodes cache tt of
        None \<Rightarrow> Some None
      | Some ns \<Rightarrow>
          if length ns = 0 then Some None
          else if n = 0 then Some (Some (ns ! (r mod length ns)))
          else
            let i = sgn n * (\<bar>n\<bar> mod int (length ns))
            in if i < 0 then None else Some (Some (ns ! nat i)))"

definition cache_getNodeByLogicAddr :: "nodeCache \<Rightarrow> logic_addr \<Rightarrow> ptr option" where
  "cache_getNodeByLogicAddr cache a = allnodes cache a"

section \<open>Groups against sets\<close>

text \<open>A group map represents a set of pointers for each key, without duplicates.\<close>

definition group_list :: "(u32 \<rightharpoonup> ptr list) \<Rightarrow> u32 \<Rightarrow> ptr list" where
  "group_list g k = (case g k of None \<Rightarrow> [] | Some ps \<Rightarrow> ps)"

definition group_ok :: "(u32 \<rightharpoonup> ptr list) \<Rightarrow> (u32 \<Rightarrow> ptr set) \<Rightarrow> bool" where
  "group_ok g M \<longleftrightarrow> (\<forall>k. distinct (group_list g k) \<and> set (group_list g k) = M k)"

lemma group_list_add: "group_list (group_add k p g) = (group_list g)(k := group_list g k @ [p])"
  by (rule ext) (simp add: group_list_def group_add_def split: option.split)

lemma group_add_ok:
  "group_ok g M \<Longrightarrow> p \<notin> M k \<Longrightarrow> group_ok (group_add k p g) (M(k := insert p (M k)))"
  by (simp add: group_ok_def group_list_add)

lemma index_of_Some:
  "p \<in> set ps \<Longrightarrow> \<exists>i. index_of p ps = Some i \<and> i < length ps \<and> ps ! i = p"
  by (induction ps) auto

lemma swap_remove:
  assumes "distinct ps" "i < length ps"
  shows "distinct (take (length ps - 1) (ps[i := ps ! (length ps - 1)])) \<and>
    set (take (length ps - 1) (ps[i := ps ! (length ps - 1)])) = set ps - {ps ! i}"
proof -
  obtain qs z where ps: "ps = qs @ [z]" using assms(2) by (cases ps rule: rev_cases) auto
  show ?thesis
  proof (cases "i < length qs")
    case True
    have "take (length ps - 1) (ps[i := ps ! (length ps - 1)]) = qs[i := z]"
      using True ps by (simp add: list_update_append nth_append)
    moreover have "distinct (qs[i := z])" using assms(1) ps True by (simp add: distinct_list_update)
    moreover have "set (qs[i := z]) = insert z (set qs - {qs ! i})"
      using assms(1) ps True by (simp add: set_update_distinct)
    ultimately show ?thesis using assms(1) ps True by (auto simp: nth_append)
  next
    case False
    then show ?thesis using assms ps by (auto simp: list_update_append nth_append)
  qed
qed

lemma group_list_remove:
  assumes "index_of p (group_list g k) = Some i"
  shows "group_list (group_remove k p g) = (group_list g)(k :=
    take (length (group_list g k) - 1) ((group_list g k)[i := group_list g k ! (length (group_list g k) - 1)]))"
  using assms by (cases "g k") (auto simp: group_list_def group_remove_def)

lemma group_remove_ok:
  assumes "group_ok g M" "p \<in> M k"
  shows "group_ok (group_remove k p g) (M(k := M k - {p}))"
proof -
  have ps: "distinct (group_list g k)" "set (group_list g k) = M k"
    using assms(1) by (auto simp: group_ok_def)
  then obtain i where i: "index_of p (group_list g k) = Some i" "i < length (group_list g k)"
    "group_list g k ! i = p"
    using index_of_Some [of p "group_list g k"] assms(2) by auto
  show ?thesis
    using assms(1) swap_remove [OF ps(1) i(2)] i(3) ps(2)
    unfolding group_ok_def group_list_remove [OF i(1)] by simp
qed

text \<open>Both group maps at once, for a set \<open>A\<close> of available nodes.\<close>

definition groups_ok :: "nodeCache \<Rightarrow> node list \<Rightarrow> ptr set \<Rightarrow> bool" where
  "groups_ok C H A \<longleftrightarrow>
     group_ok (nodes C) (\<lambda>t. {p \<in> A. key_type H p \<noteq> HarbarType \<and> key_type H p = t}) \<and>
     group_ok (harbors C) (\<lambda>c. {p \<in> A. key_type H p = HarbarType \<and> key_cluster H p = c})"

lemma groups_ok_cong:
  assumes "groups_ok C H A" "nodes C' = nodes C" "harbors C' = harbors C" "A' = A"
    "\<And>p. p \<in> A \<Longrightarrow> key_type H' p = key_type H p \<and> key_cluster H' p = key_cluster H p"
  shows "groups_ok C' H' A'"
proof -
  have "{p \<in> A. key_type H' p \<noteq> HarbarType \<and> key_type H' p = t} =
      {p \<in> A. key_type H p \<noteq> HarbarType \<and> key_type H p = t}"
    "{p \<in> A. key_type H' p = HarbarType \<and> key_cluster H' p = t} =
      {p \<in> A. key_type H p = HarbarType \<and> key_cluster H p = t}" for t
    using assms(5) by auto
  then show ?thesis using assms(1-4) by (simp add: groups_ok_def)
qed

lemma join_group_ok:
  assumes "groups_ok C H A" "p \<notin> A"
  shows "groups_ok (join_group C H p) H (insert p A)"
proof -
  let ?N = "\<lambda>A t. {p \<in> A. key_type H p \<noteq> HarbarType \<and> key_type H p = t}"
    and ?R = "\<lambda>A c. {p \<in> A. key_type H p = HarbarType \<and> key_cluster H p = c}"
  show ?thesis
  proof (cases "key_type H p = HarbarType")
    case True
    have "?R (insert p A) = (?R A)(key_cluster H p := insert p (?R A (key_cluster H p)))"
      "?N (insert p A) = ?N A"
      using True by (auto simp: fun_eq_iff)
    then show ?thesis using True assms group_add_ok [of "harbors C" "?R A" p "key_cluster H p"]
      by (simp add: groups_ok_def join_group_def addHarbor_def)
  next
    case False
    have "?N (insert p A) = (?N A)(key_type H p := insert p (?N A (key_type H p)))"
      "?R (insert p A) = ?R A"
      using False by (auto simp: fun_eq_iff)
    then show ?thesis using False assms group_add_ok [of "nodes C" "?N A" p "key_type H p"]
      by (simp add: groups_ok_def join_group_def addNode_def)
  qed
qed

lemma leave_group_ok:
  assumes "groups_ok C H A" "p \<in> A"
  shows "groups_ok (leave_group C H p) H (A - {p})"
proof -
  let ?N = "\<lambda>A t. {p \<in> A. key_type H p \<noteq> HarbarType \<and> key_type H p = t}"
    and ?R = "\<lambda>A c. {p \<in> A. key_type H p = HarbarType \<and> key_cluster H p = c}"
  show ?thesis
  proof (cases "key_type H p = HarbarType")
    case True
    have "?R (A - {p}) = (?R A)(key_cluster H p := ?R A (key_cluster H p) - {p})"
      "?N (A - {p}) = ?N A"
      using True by (auto simp: fun_eq_iff)
    then show ?thesis using True assms group_remove_ok [of "harbors C" "?R A" p "key_cluster H p"]
      by (simp add: groups_ok_def leave_group_def removeHarbor_def)
  next
    case False
    have "?N (A - {p}) = (?N A)(key_type H p := ?N A (key_type H p) - {p})"
      "?R (A - {p}) = ?R A"
      using False by (auto simp: fun_eq_iff)
    then show ?thesis using False assms group_remove_ok [of "nodes C" "?N A" p "key_type H p"]
      by (simp add: groups_ok_def leave_group_def removeNode_def)
  qed
qed

lemma group_ops_fields [simp]:
  "allnodes (join_group C H p) = allnodes C" "localAddr (join_group C H p) = localAddr C"
  "allnodes (leave_group C H p) = allnodes C" "localAddr (leave_group C H p) = localAddr C"
  by (simp_all add: join_group_def leave_group_def addNode_def addHarbor_def removeNode_def removeHarbor_def)

section \<open>The cache is the visible part of the membership\<close>

text \<open>
  The specification state is the membership itself, a map from logical addresses to member
  descriptions. The cache stands for it when \<open>allnodes\<close> has exactly the visible members,
  each with its address and availability, and the groups have exactly the available ones.
\<close>

type_synonym members = "logic_addr \<rightharpoonup> Node"

definition avail :: "nodeCache \<Rightarrow> node list \<Rightarrow> ptr set" where
  "avail C H = {p. \<exists>a. allnodes C a = Some p \<and> available (H ! p)}"

definition entry_ok :: "logic_addr \<Rightarrow> node list \<Rightarrow> ptr option \<Rightarrow> Node option \<Rightarrow> bool" where
  "entry_ok self H q m \<longleftrightarrow>
     (case q of
        None \<Rightarrow> (\<forall>v. m = Some v \<longrightarrow> \<not> visible self v)
      | Some p \<Rightarrow> p < length H \<and> (\<exists>v. m = Some v \<and> visible self v \<and> addr (H ! p) = nAddr v \<and>
          available (H ! p) = Available v))"

definition cache_rel :: "members \<Rightarrow> nodeCache \<Rightarrow> node list \<Rightarrow> bool" where
  "cache_rel V C H \<longleftrightarrow>
     (\<forall>a. entry_ok (localAddr C) H (allnodes C a) (V a)) \<and>
     (\<forall>a v. V a = Some v \<longrightarrow> logicAddr (nAddr v) = a) \<and>
     groups_ok C H (avail C H)"

lemma cache_rel_new: "cache_rel Map.empty (new_cache self) []"
  by (simp add: cache_rel_def new_cache_def entry_ok_def groups_ok_def group_ok_def group_list_def avail_def)

text \<open>Different addresses have different nodes.\<close>

lemma cache_rel_addr:
  assumes "cache_rel V C H" "allnodes C a = Some p"
  shows "p < length H" "logicAddr (addr (H ! p)) = a"
proof -
  have "entry_ok (localAddr C) H (allnodes C a) (V a)" using assms(1) by (simp add: cache_rel_def)
  then obtain v where "p < length H" "V a = Some v" "addr (H ! p) = nAddr v"
    using assms(2) by (auto simp: entry_ok_def)
  then show "p < length H" "logicAddr (addr (H ! p)) = a"
    using assms(1) by (auto simp: cache_rel_def)
qed

lemma cache_rel_inj:
  assumes "cache_rel V C H" "allnodes C a = Some p" "allnodes C b = Some p"
  shows "a = b"
  using cache_rel_addr [OF assms(1,2)] cache_rel_addr [OF assms(1,3)] by simp

lemma cache_rel_fresh: "cache_rel V C H \<Longrightarrow> length H \<notin> avail C H"
  using cache_rel_addr by (fastforce simp: avail_def)

lemma key_append [simp]:
  "p < length H \<Longrightarrow> key_type (H @ H') p = key_type H p"
  "p < length H \<Longrightarrow> key_cluster (H @ H') p = key_cluster H p"
  by (simp_all add: key_type_def key_cluster_def nth_append)

lemma avail_bound: "cache_rel V C H \<Longrightarrow> p \<in> avail C H \<Longrightarrow> p < length H"
  using cache_rel_addr by (auto simp: avail_def)

lemma cache_relI:
  assumes "\<And>b. entry_ok (localAddr C) H (allnodes C b) (V b)"
    "\<And>b v. V b = Some v \<Longrightarrow> logicAddr (nAddr v) = b" "groups_ok C H (avail C H)"
  shows "cache_rel V C H"
  using assms unfolding cache_rel_def by blast

lemma cache_rel_groups: "cache_rel V C H \<Longrightarrow> groups_ok C H (avail C H)"
  by (simp add: cache_rel_def)

lemma cache_rel_key: "cache_rel V C H \<Longrightarrow> V b = Some v \<Longrightarrow> logicAddr (nAddr v) = b"
  by (simp add: cache_rel_def)

lemma cache_rel_entry: "cache_rel V C H \<Longrightarrow> entry_ok (localAddr C) H (allnodes C a) (V a)"
  by (simp add: cache_rel_def)

lemma entry_hidden:
  assumes "cache_rel V C H" "\<And>v. V a = Some v \<Longrightarrow> \<not> visible (localAddr C) v"
  shows "allnodes C a = None"
  using cache_rel_entry [OF assms(1), of a] assms(2) by (auto simp: entry_ok_def split: option.splits)

lemma entry_shown:
  assumes "cache_rel V C H" "V a = Some v" "visible (localAddr C) v"
  obtains p where "allnodes C a = Some p" "p < length H" "addr (H ! p) = nAddr v"
    "available (H ! p) = Available v" "logicAddr (addr (H ! p)) = a"
proof -
  obtain p where p: "allnodes C a = Some p" "p < length H" "addr (H ! p) = nAddr v"
    "available (H ! p) = Available v"
    using cache_rel_entry [OF assms(1), of a] assms(2,3) by (auto simp: entry_ok_def split: option.splits)
  show ?thesis by (rule that [OF p cache_rel_addr(2) [OF assms(1) p(1)]])
qed

text \<open>Members the node does not see do not matter.\<close>

lemma cache_rel_skip:
  assumes "cache_rel V C H" "\<And>v. V a = Some v \<Longrightarrow> \<not> visible (localAddr C) v"
    "\<And>v. m = Some v \<Longrightarrow> \<not> visible (localAddr C) v \<and> logicAddr (nAddr v) = a"
  shows "cache_rel (V(a := m)) C H"
proof -
  have "entry_ok (localAddr C) H (allnodes C b) ((V(a := m)) b)" for b
    using cache_rel_entry [OF assms(1), of b] entry_hidden [OF assms(1,2)] assms(3)
    by (cases "b = a") (auto simp: entry_ok_def)
  moreover have "logicAddr (nAddr v) = b" if "(V(a := m)) b = Some v" for b v
    using that assms(1,3) by (auto simp: cache_rel_def split: if_splits)
  ultimately show ?thesis using assms(1) by (simp add: cache_rel_def)
qed

lemma add_member_rel:
  assumes rel: "cache_rel V C H" and new: "V (logicAddr (nAddr v)) = None"
    and res: "add_member v C H = (C', H')"
  shows "cache_rel (V(logicAddr (nAddr v) \<mapsto> v)) C' H' \<and> localAddr C' = localAddr C"
proof (cases "visible (localAddr C) v")
  case False
  with res have "C' = C" "H' = H" by (simp_all add: add_member_def)
  moreover have "cache_rel (V(logicAddr (nAddr v) \<mapsto> v)) C H"
    by (rule cache_rel_skip [OF rel]) (use new False in auto)
  ultimately show ?thesis by simp
next
  case True
  let ?a = "logicAddr (nAddr v)" and ?n = "length H"
  define H1 where "H1 = H @ [\<lparr>addr = nAddr v, available = Available v\<rparr>]"
  define C1 where "C1 = C\<lparr>allnodes := (allnodes C)(?a \<mapsto> ?n)\<rparr>"
  have eq: "H' = H1" "C' = (if Available v then join_group C1 H1 ?n else C1)"
    using res True by (auto simp: add_member_def Let_def H1_def C1_def)
  have none: "allnodes C ?a = None"
    by (rule entry_hidden [OF rel]) (use new in simp)
  have other: "H1 ! p = H ! p" if "p < ?n" for p using that by (simp add: H1_def nth_append)
  have "avail C1 H1 = (if Available v then insert ?n (avail C H) else avail C H)"
  proof (rule set_eqI)
    fix p
    have keep: "available (H1 ! p) = available (H ! p)" if "allnodes C b = Some p" for b
      using other cache_rel_addr(1) [OF rel that] by simp
    have here: "available (H1 ! ?n) = Available v" by (simp add: H1_def)
    have "p \<in> avail C1 H1 \<longleftrightarrow> p = ?n \<and> Available v \<or> (\<exists>b. b \<noteq> ?a \<and> allnodes C b = Some p \<and> available (H ! p))"
      using keep here by (auto simp: avail_def C1_def split: if_splits)
    also have "(\<exists>b. b \<noteq> ?a \<and> allnodes C b = Some p \<and> available (H ! p)) \<longleftrightarrow> p \<in> avail C H"
      unfolding avail_def mem_Collect_eq using none by (metis option.distinct(1))
    finally show "p \<in> avail C1 H1 \<longleftrightarrow> p \<in> (if Available v then insert ?n (avail C H) else avail C H)" by auto
  qed
  moreover have "groups_ok C1 H1 (avail C H)"
    by (rule groups_ok_cong [OF cache_rel_groups [OF rel]])
       (use avail_bound [OF rel] in \<open>simp_all add: C1_def H1_def\<close>)
  ultimately have "groups_ok C' H1 (avail C1 H1)"
    using eq(2) join_group_ok [of C1 H1 "avail C H" ?n] cache_rel_fresh [OF rel] by simp
  moreover have all: "allnodes C' = (allnodes C)(?a \<mapsto> ?n)" "localAddr C' = localAddr C"
    using eq(2) by (simp_all add: C1_def)
  moreover have "avail C' H1 = avail C1 H1" using all by (simp add: avail_def C1_def)
  moreover have "entry_ok (localAddr C) H1 (((allnodes C)(?a \<mapsto> ?n)) b) ((V(?a \<mapsto> v)) b)" for b
  proof (cases "b = ?a")
    case True
    with \<open>visible (localAddr C) v\<close> show ?thesis by (simp add: entry_ok_def H1_def)
  next
    case False
    with cache_rel_entry [OF rel, of b] show ?thesis
      by (cases "allnodes C b") (simp_all add: entry_ok_def other H1_def nth_append)
  qed
  ultimately have "cache_rel (V(?a \<mapsto> v)) C' H1"
    using cache_rel_key [OF rel] by (intro cache_relI) (auto split: if_splits)
  then show ?thesis using eq(1) all(2) by simp
qed

lemma cache_rel_uniq:
  assumes "cache_rel V C H" "allnodes C a = Some p"
  shows "allnodes C b = Some p \<longleftrightarrow> b = a"
  using cache_rel_inj [OF assms] assms(2) by metis

lemma avail_delete:
  assumes "cache_rel V C H" "allnodes C a = Some p"
  shows "avail (C\<lparr>allnodes := (allnodes C)(a := None)\<rparr>) H = avail C H - {p}"
proof (rule set_eqI)
  fix q
  have "q \<in> avail (C\<lparr>allnodes := (allnodes C)(a := None)\<rparr>) H \<longleftrightarrow>
      (\<exists>b. b \<noteq> a \<and> allnodes C b = Some q \<and> available (H ! q))"
    by (auto simp: avail_def)
  also have "\<dots> \<longleftrightarrow> q \<in> avail C H - {p}"
    unfolding avail_def Diff_iff mem_Collect_eq singleton_iff
    using cache_rel_uniq [OF assms] assms(2) by (metis option.inject)
  finally show "q \<in> avail (C\<lparr>allnodes := (allnodes C)(a := None)\<rparr>) H \<longleftrightarrow> q \<in> avail C H - {p}" .
qed

lemma avail_mem: "cache_rel V C H \<Longrightarrow> allnodes C a = Some p \<Longrightarrow> p \<in> avail C H \<longleftrightarrow> available (H ! p)"
  unfolding avail_def mem_Collect_eq by blast

lemma remove_member_rel:
  assumes rel: "cache_rel V C H" and old: "V (logicAddr (nAddr v)) = Some v0"
    "visible (localAddr C) v = visible (localAddr C) v0"
  obtains (stop) "remove_member v C H evs = Some (True, C, H, evs @ [StopSelf])"
  | (go) C' evs' where "remove_member v C H evs = Some (False, C', H, evs')"
      "cache_rel (V(logicAddr (nAddr v) := None)) C' H" "localAddr C' = localAddr C"
proof (cases "visible (localAddr C) v")
  case False
  then have "remove_member v C H evs = Some (False, C, H, evs)" by (simp add: remove_member_def)
  moreover have "cache_rel (V(logicAddr (nAddr v) := None)) C H"
    by (rule cache_rel_skip [OF rel]) (use old False in auto)
  ultimately show ?thesis using go by simp
next
  case True
  let ?a = "logicAddr (nAddr v)"
  obtain p where p: "allnodes C ?a = Some p" "p < length H" "addr (H ! p) = nAddr v0"
    "available (H ! p) = Available v0" "logicAddr (addr (H ! p)) = ?a"
    using entry_shown [OF rel old(1)] True old(2) by blast
  define C1 where "C1 = C\<lparr>allnodes := (allnodes C)(?a := None)\<rparr>"
  define C' where "C' = (if available (H ! p) then leave_group C1 H p else C1)"
  have av: "avail C1 H = avail C H - {p}"
    using avail_delete [OF rel p(1)] by (simp add: C1_def)
  have "groups_ok C1 H (avail C H)"
    by (rule groups_ok_cong [OF cache_rel_groups [OF rel]]) (simp_all add: C1_def)
  moreover have "p \<in> avail C H \<longleftrightarrow> available (H ! p)"
    by (rule avail_mem [OF rel p(1)])
  ultimately have "groups_ok C' H (avail C1 H)"
    using leave_group_ok [of C1 H "avail C H" p] av by (cases "available (H ! p)") (simp_all add: C'_def)
  moreover have all: "allnodes C' = (allnodes C)(?a := None)" "localAddr C' = localAddr C"
    by (simp_all add: C'_def C1_def)
  moreover have "avail C' H = avail C1 H" using all by (simp add: avail_def C1_def)
  moreover have "entry_ok (localAddr C) H (((allnodes C)(?a := None)) b) ((V(?a := None)) b)" for b
    using cache_rel_entry [OF rel, of b] by (cases "b = ?a") (simp_all add: entry_ok_def)
  ultimately have "cache_rel (V(?a := None)) C' H"
    using cache_rel_key [OF rel] by (intro cache_relI) (auto split: if_splits)
  moreover note all(2)
  moreover have "remove_member v C H evs = (if ?a = localAddr C then Some (True, C, H, evs @ [StopSelf])
      else Some (False, C', H, evs @ [CloseSocket p]))"
    using True p by (simp add: remove_member_def Let_def C'_def C1_def)
  ultimately show ?thesis using stop go by (cases "?a = localAddr C") auto
qed

text \<open>Changing the availability of a node, or its network address.\<close>

lemma available_same: "available (H ! p) = b \<Longrightarrow> H[p := (H ! p)\<lparr>available := b\<rparr>] = H"
  using list_update_id [of H p] by (cases "H ! p") auto

lemma set_available_avail:
  assumes "p < length H" "set_available av C H p = (C', H')"
  shows "H' = H[p := (H ! p)\<lparr>available := av\<rparr>] \<and> allnodes C' = allnodes C \<and> localAddr C' = localAddr C"
  using assms by (cases av; cases "available (H ! p)") (auto simp: set_available_def Let_def available_same)

lemma key_update [simp]:
  "logicAddr (addr n) = logicAddr (addr (H ! p)) \<Longrightarrow> key_type (H[p := n]) q = key_type H q"
  "logicAddr (addr n) = logicAddr (addr (H ! p)) \<Longrightarrow> key_cluster (H[p := n]) q = key_cluster H q"
  by (cases "p = q"; cases "p < length H"; simp add: key_type_def key_cluster_def list_update_beyond)+

lemma set_available_groups:
  assumes "p < length H" "groups_ok C H A" "p \<in> A \<longleftrightarrow> available (H ! p)"
    "set_available av C H p = (C', H')"
  shows "groups_ok C' H' (if av then insert p A else A - {p})"
proof -
  have same: "groups_ok C (H[p := (H ! p)\<lparr>available := b\<rparr>]) A" for b
    using assms(2) by (rule groups_ok_cong) simp_all
  show ?thesis
    using assms join_group_ok [OF same, of p] leave_group_ok [OF same, of p]
    by (cases av; cases "available (H ! p)") (auto simp: set_available_def Let_def insert_absorb)
qed

lemma avail_set:
  assumes "cache_rel V C H" "allnodes C a = Some p"
  shows "avail C (H[p := (H ! p)\<lparr>available := b\<rparr>]) =
    (if b then insert p (avail C H) else avail C H - {p})"
proof (rule set_eqI)
  fix q
  note bound = cache_rel_addr(1) [OF assms]
  show "q \<in> avail C (H[p := (H ! p)\<lparr>available := b\<rparr>]) \<longleftrightarrow>
      q \<in> (if b then insert p (avail C H) else avail C H - {p})"
    using bound assms(2) by (cases "q = p") (auto simp: avail_def)
qed

lemma set_available_rel:
  assumes rel: "cache_rel V C H" and p: "allnodes C a = Some p"
    and v: "visible (localAddr C) v" "nAddr v = addr (H ! p)"
    and res: "set_available (Available v) C H p = (C', H')"
  shows "cache_rel (V(a \<mapsto> v)) C' H' \<and> localAddr C' = localAddr C"
proof -
  note pa = cache_rel_addr [OF rel p]
  note eq = set_available_avail [OF pa(1) res]
  have "avail C' H' = (if Available v then insert p (avail C H) else avail C H - {p})"
    using avail_set [OF rel p] eq by (simp add: avail_def)
  then have groups: "groups_ok C' H' (avail C' H')"
    using set_available_groups [OF pa(1) cache_rel_groups [OF rel] avail_mem [OF rel p] res] by simp
  have "entry_ok (localAddr C') H' (allnodes C' b) ((V(a \<mapsto> v)) b)" for b
  proof (cases "b = a")
    case True
    then show ?thesis using eq p pa(1) v by (simp add: entry_ok_def)
  next
    case False
    have "allnodes C b \<noteq> Some p" using cache_rel_uniq [OF rel p] False by blast
    with cache_rel_entry [OF rel, of b] False eq show ?thesis
      by (cases "allnodes C b") (simp_all add: entry_ok_def)
  qed
  moreover have "logicAddr (nAddr w) = b" if "(V(a \<mapsto> v)) b = Some w" for b w
    using that cache_rel_key [OF rel] pa(2) v(2) by (cases "b = a") simp_all
  ultimately show ?thesis using groups eq cache_relI by blast
qed

text \<open>A new network address, which the groups do not depend on.\<close>

lemma net_addr_rel:
  fixes t :: tcp_addr
  assumes rel: "cache_rel V C H" and p: "allnodes C a = Some p" and v: "V a = Some v"
  defines "n \<equiv> UpdateNetAddr (addr (H ! p)) t"
  shows "cache_rel (V(a \<mapsto> v\<lparr>nAddr := n\<rparr>)) C (H[p := (H ! p)\<lparr>addr := n\<rparr>])"
proof -
  note pa = cache_rel_addr [OF rel p]
  have n: "logicAddr n = a" using pa(2) by (simp add: n_def UpdateNetAddr_def)
  have vis: "visible (localAddr C) v" "available (H ! p) = Available v" "logicAddr (nAddr v) = a"
    using cache_rel_entry [OF rel, of a] p v rel by (auto simp: entry_ok_def cache_rel_def)
  have vis': "visible (localAddr C) (v\<lparr>nAddr := n\<rparr>)" using vis n by (simp add: visible_def)
  let ?H = "H[p := (H ! p)\<lparr>addr := n\<rparr>]"
  have "available (?H ! q) = available (H ! q)" for q using pa(1) by (cases "q = p") simp_all
  then have av: "avail C ?H = avail C H" by (simp add: avail_def)
  have "groups_ok C ?H (avail C H)"
    by (rule groups_ok_cong [OF cache_rel_groups [OF rel]]) (use pa(2) n in simp_all)
  moreover have "entry_ok (localAddr C) ?H (allnodes C b) ((V(a \<mapsto> v\<lparr>nAddr := n\<rparr>)) b)" for b
  proof (cases "b = a")
    case True
    then show ?thesis using p pa(1) vis vis' by (simp add: entry_ok_def)
  next
    case False
    have "allnodes C b \<noteq> Some p" using cache_rel_uniq [OF rel p] False by blast
    with cache_rel_entry [OF rel, of b] False show ?thesis
      by (cases "allnodes C b") (simp_all add: entry_ok_def)
  qed
  moreover have "logicAddr (nAddr w) = b" if "(V(a \<mapsto> v\<lparr>nAddr := n\<rparr>)) b = Some w" for b w
    using that cache_rel_key [OF rel] n by (cases "b = a") auto
  ultimately show ?thesis using av by (intro cache_relI) simp_all
qed

lemma update_member_rel:
  assumes rel: "cache_rel V C H" and old: "V (logicAddr (nAddr v)) = Some v0"
    "visible (localAddr C) v = visible (localAddr C) v0"
  obtains (stop) "update_member v C H evs = Some (True, C, H, evs @ [StopSelf])"
  | (go) C' H' evs' where "update_member v C H evs = Some (False, C', H', evs')"
      "cache_rel (V(logicAddr (nAddr v) \<mapsto> v)) C' H'" "localAddr C' = localAddr C"
proof (cases "visible (localAddr C) v")
  case False
  then have "update_member v C H evs = Some (False, C, H, evs)" by (simp add: update_member_def)
  moreover have "cache_rel (V(logicAddr (nAddr v) \<mapsto> v)) C H"
    by (rule cache_rel_skip [OF rel]) (use old False in auto)
  ultimately show ?thesis using go by simp
next
  case vis: True
  let ?a = "logicAddr (nAddr v)"
  obtain p where p: "allnodes C ?a = Some p" "p < length H" "addr (H ! p) = nAddr v0"
    "logicAddr (addr (H ! p)) = ?a"
    using entry_shown [OF rel old(1)] vis old(2) by blast
  show ?thesis
  proof (cases "tcp_String (netAddr (nAddr v)) = tcp_String (netAddr (addr (H ! p)))")
    case True
    have same: "nAddr v = addr (H ! p)"
      using True p(4) by (auto intro: Addr.equality tcp_addr.expand)
    obtain C' H' where res: "set_available (Available v) C H p = (C', H')" by fastforce
    have "update_member v C H evs = Some (False, C', H', evs)"
      using vis True p res by (simp add: update_member_def)
    then show ?thesis using go set_available_rel [OF rel p(1) vis same res] by blast
  next
    case False
    define n where "n = UpdateNetAddr (addr (H ! p)) (netAddr (nAddr v))"
    define H1 where "H1 = H[p := (H ! p)\<lparr>addr := n\<rparr>]"
    have rel1: "cache_rel (V(?a \<mapsto> v0\<lparr>nAddr := n\<rparr>)) C H1"
      using net_addr_rel [OF rel p(1) old(1)] by (simp add: n_def H1_def)
    have same: "nAddr v = addr (H1 ! p)"
      using p(2,4) by (auto simp: H1_def n_def UpdateNetAddr_def intro: Addr.equality)
    obtain C' H' where res: "set_available (Available v) C H1 p = (C', H')" by fastforce
    have "update_member v C H evs = (if ?a = localAddr C then Some (True, C, H, evs @ [StopSelf])
        else Some (False, C', H', evs @ [CloseSocket p]))"
      using vis False p res by (simp add: update_member_def Let_def H1_def n_def)
    then show ?thesis using stop go set_available_rel [OF rel1 p(1) vis same res]
      by (cases "?a = localAddr C") auto
  qed
qed

section \<open>What providers promise, and that the update then never panics\<close>

fun adds_ok :: "members \<Rightarrow> Node list \<Rightarrow> bool" where
  "adds_ok V [] \<longleftrightarrow> True"
| "adds_ok V (v # vs) \<longleftrightarrow> V (logicAddr (nAddr v)) = None \<and> adds_ok (V(logicAddr (nAddr v) \<mapsto> v)) vs"

text \<open>
  The removed or updated member is known, and was visible to the node exactly if the
  description in the change is (an exported node stays exported).
\<close>

definition known :: "logic_addr \<Rightarrow> members \<Rightarrow> Node \<Rightarrow> bool" where
  "known self V v \<longleftrightarrow>
     (case V (logicAddr (nAddr v)) of None \<Rightarrow> False | Some v0 \<Rightarrow> visible self v = visible self v0)"

fun removes_ok :: "logic_addr \<Rightarrow> members \<Rightarrow> Node list \<Rightarrow> bool" where
  "removes_ok self V [] \<longleftrightarrow> True"
| "removes_ok self V (v # vs) \<longleftrightarrow> known self V v \<and> removes_ok self (V(logicAddr (nAddr v) := None)) vs"

fun updates_ok :: "logic_addr \<Rightarrow> members \<Rightarrow> Node list \<Rightarrow> bool" where
  "updates_ok self V [] \<longleftrightarrow> True"
| "updates_ok self V (v # vs) \<longleftrightarrow> known self V v \<and> updates_ok self (V(logicAddr (nAddr v) \<mapsto> v)) vs"

definition view_put :: "members \<Rightarrow> Node list \<Rightarrow> members" where
  "view_put V vs = fold (\<lambda>v V. V(logicAddr (nAddr v) \<mapsto> v)) vs V"

definition view_del :: "members \<Rightarrow> Node list \<Rightarrow> members" where
  "view_del V vs = fold (\<lambda>v V. V(logicAddr (nAddr v) := None)) vs V"

text \<open>The membership after a change, and the changes a provider may report.\<close>

definition apply_info :: "members \<Rightarrow> MemberInfo \<Rightarrow> members" where
  "apply_info V info = view_put (view_del (view_put V (Add info)) (Remove info)) (Update info)"

definition info_ok :: "logic_addr \<Rightarrow> members \<Rightarrow> MemberInfo \<Rightarrow> bool" where
  "info_ok self V info \<longleftrightarrow> adds_ok V (Add info) \<and>
     removes_ok self (view_put V (Add info)) (Remove info) \<and>
     updates_ok self (view_del (view_put V (Add info)) (Remove info)) (Update info)"

lemma view_Cons [simp]:
  "view_put V [] = V" "view_put V (v # vs) = view_put (V(logicAddr (nAddr v) \<mapsto> v)) vs"
  "view_del V [] = V" "view_del V (v # vs) = view_del (V(logicAddr (nAddr v) := None)) vs"
  by (simp_all add: view_put_def view_del_def)

lemma add_members_rel:
  assumes "cache_rel V C H" "adds_ok V vs" "add_members vs C H = (C', H')"
  shows "cache_rel (view_put V vs) C' H' \<and> localAddr C' = localAddr C"
  using assms
proof (induction vs arbitrary: V C H)
  case Nil
  then show ?case by simp
next
  case (Cons v vs)
  obtain C1 H1 where 1: "add_member v C H = (C1, H1)" by fastforce
  have new: "V (logicAddr (nAddr v)) = None" and rest: "adds_ok (V(logicAddr (nAddr v) \<mapsto> v)) vs"
    and run: "add_members vs C1 H1 = (C', H')"
    using Cons.prems 1 by simp_all
  have rel1: "cache_rel (V(logicAddr (nAddr v) \<mapsto> v)) C1 H1" "localAddr C1 = localAddr C"
    using add_member_rel [OF Cons.prems(1) new 1] by blast+
  have "cache_rel (view_put (V(logicAddr (nAddr v) \<mapsto> v)) vs) C' H' \<and> localAddr C' = localAddr C1"
    by (rule Cons.IH [OF rel1(1) rest run])
  with rel1(2) show ?case by simp
qed

lemma known_obtain:
  assumes "known self V v"
  obtains v0 where "V (logicAddr (nAddr v)) = Some v0" "visible self v = visible self v0"
  using assms by (auto simp: known_def split: option.splits)

lemma remove_members_rel:
  assumes "cache_rel V C H" "removes_ok (localAddr C) V vs"
  shows "(\<exists>C' H' evs'. run_loop remove_member vs C H evs = Some (True, C', H', evs') \<and>
      localAddr C' = localAddr C \<and> StopSelf \<in> set evs') \<or>
    (\<exists>C' H' evs'. run_loop remove_member vs C H evs = Some (False, C', H', evs') \<and>
      localAddr C' = localAddr C \<and> cache_rel (view_del V vs) C' H')"
  using assms
proof (induction vs arbitrary: V C H evs)
  case Nil
  then show ?case by simp
next
  case (Cons v vs)
  have "known (localAddr C) V v" using Cons.prems by simp
  then obtain v0 where v0: "V (logicAddr (nAddr v)) = Some v0"
    "visible (localAddr C) v = visible (localAddr C) v0" by (rule known_obtain)
  from Cons.prems(1) v0 show ?case
  proof (cases rule: remove_member_rel [where evs = evs])
    case stop
    then show ?thesis by simp
  next
    case (go C' evs')
    have step: "run_loop remove_member (v # vs) C H evs = run_loop remove_member vs C' H evs'"
      by (simp add: go(1))
    have ok: "removes_ok (localAddr C') (V(logicAddr (nAddr v) := None)) vs"
      using Cons.prems(2) go(3) by simp
    from Cons.IH [OF go(2) ok, of evs'] show ?thesis unfolding step view_Cons go(3) .
  qed
qed

lemma update_members_rel:
  assumes "cache_rel V C H" "updates_ok (localAddr C) V vs"
  shows "(\<exists>C' H' evs'. run_loop update_member vs C H evs = Some (True, C', H', evs') \<and>
      localAddr C' = localAddr C \<and> StopSelf \<in> set evs') \<or>
    (\<exists>C' H' evs'. run_loop update_member vs C H evs = Some (False, C', H', evs') \<and>
      localAddr C' = localAddr C \<and> cache_rel (view_put V vs) C' H')"
  using assms
proof (induction vs arbitrary: V C H evs)
  case Nil
  then show ?case by simp
next
  case (Cons v vs)
  have "known (localAddr C) V v" using Cons.prems by simp
  then obtain v0 where v0: "V (logicAddr (nAddr v)) = Some v0"
    "visible (localAddr C) v = visible (localAddr C) v0" by (rule known_obtain)
  from Cons.prems(1) v0 show ?case
  proof (cases rule: update_member_rel [where evs = evs])
    case stop
    then show ?thesis by simp
  next
    case (go C' H' evs')
    have step: "run_loop update_member (v # vs) C H evs = run_loop update_member vs C' H' evs'"
      by (simp add: go(1))
    have ok: "updates_ok (localAddr C') (V(logicAddr (nAddr v) \<mapsto> v)) vs"
      using Cons.prems(2) go(3) by simp
    from Cons.IH [OF go(2) ok, of evs'] show ?thesis unfolding step view_Cons go(3) .
  qed
qed

lemma cache_rel_init [simp]: "cache_rel V (C\<lparr>initDone := b\<rparr>) H \<longleftrightarrow> cache_rel V C H"
  by (simp add: cache_rel_def groups_ok_def avail_def)

lemma onNodeInfoUpdate_rel:
  assumes "cache_rel V C H" "info_ok (localAddr C) V info"
  shows "\<exists>C' H' evs. onNodeInfoUpdate info C H = Some (C', H', evs) \<and> localAddr C' = localAddr C \<and>
    initDone C' \<and> (StopSelf \<in> set evs \<or> cache_rel (apply_info V info) C' H')"
proof -
  obtain C1 H1 where 1: "add_members (Add info) C H = (C1, H1)" by fastforce
  have 2: "cache_rel (view_put V (Add info)) C1 H1" "localAddr C1 = localAddr C"
    using add_members_rel [OF assms(1) _ 1] assms(2) by (auto simp: info_ok_def)
  have rem: "removes_ok (localAddr C1) (view_put V (Add info)) (Remove info)"
    using assms(2) 2(2) by (simp add: info_ok_def)
  from remove_members_rel [OF 2(1) rem, of "[]"] show ?thesis
  proof (elim disjE exE conjE)
    fix C2 H2 evs2
    assume "run_loop remove_member (Remove info) C1 H1 [] = Some (True, C2, H2, evs2)"
      "localAddr C2 = localAddr C1" "StopSelf \<in> set evs2"
    then show ?thesis using 1 2(2) by (simp add: onNodeInfoUpdate_def)
  next
    fix C2 H2 evs2
    assume r: "run_loop remove_member (Remove info) C1 H1 [] = Some (False, C2, H2, evs2)"
      "localAddr C2 = localAddr C1"
      and rel2: "cache_rel (view_del (view_put V (Add info)) (Remove info)) C2 H2"
    have upd: "updates_ok (localAddr C2) (view_del (view_put V (Add info)) (Remove info)) (Update info)"
      using assms(2) 2(2) r(2) by (simp add: info_ok_def)
    from update_members_rel [OF rel2 upd, of evs2] show ?thesis
      using 1 2(2) r by (auto simp: onNodeInfoUpdate_def apply_info_def)
  qed
qed

section \<open>Lookups against the membership\<close>

lemma cache_rel_shown:
  assumes "cache_rel V C H" "allnodes C a = Some p"
  obtains v where "V a = Some v" "visible (localAddr C) v" "addr (H ! p) = nAddr v"
    "available (H ! p) = Available v"
  using cache_rel_entry [OF assms(1), of a] assms(2) by (auto simp: entry_ok_def)

text \<open>The available members of a kind that a node sees.\<close>

definition seen :: "logic_addr \<Rightarrow> members \<Rightarrow> logic_addr \<Rightarrow> bool" where
  "seen self V a \<longleftrightarrow> (\<exists>v. V a = Some v \<and> visible self v \<and> Available v)"

lemma avail_seen:
  assumes rel: "cache_rel V C H"
  shows "p \<in> avail C H \<longleftrightarrow> (\<exists>a. allnodes C a = Some p \<and> seen (localAddr C) V a)"
proof
  assume "p \<in> avail C H"
  then obtain a where a: "allnodes C a = Some p" "available (H ! p)" by (auto simp: avail_def)
  from rel a(1) show "\<exists>a. allnodes C a = Some p \<and> seen (localAddr C) V a"
    by (rule cache_rel_shown) (use a in \<open>auto simp: seen_def\<close>)
next
  assume "\<exists>a. allnodes C a = Some p \<and> seen (localAddr C) V a"
  then obtain a v where a: "allnodes C a = Some p" "V a = Some v" "Available v"
    by (auto simp: seen_def)
  from rel a(1) show "p \<in> avail C H"
    by (rule cache_rel_shown) (use a in \<open>auto simp: avail_def\<close>)
qed

lemma seen_shown:
  assumes "cache_rel V C H" "seen (localAddr C) V a"
  obtains p where "allnodes C a = Some p" "p \<in> avail C H" "logicAddr (addr (H ! p)) = a"
proof -
  obtain v where v: "V a = Some v" "visible (localAddr C) v" "Available v"
    using assms(2) by (auto simp: seen_def)
  obtain p where "allnodes C a = Some p" "logicAddr (addr (H ! p)) = a"
    using entry_shown [OF assms(1) v(1,2)] by blast
  then show ?thesis using that avail_seen [OF assms(1)] assms(2) by blast
qed

lemma group_member:
  assumes rel: "cache_rel V C H" and p: "p \<in> avail C H"
  shows "p < length H \<and> allnodes C (logicAddr (addr (H ! p))) = Some p \<and>
    seen (localAddr C) V (logicAddr (addr (H ! p)))"
proof -
  obtain a where a: "allnodes C a = Some p" "seen (localAddr C) V a"
    using avail_seen [OF rel] p by blast
  with cache_rel_addr [OF rel a(1)] show ?thesis by simp
qed

lemma harbor_group:
  assumes "cache_rel V C H"
  shows "set (group_list (harbors C) c) = {p \<in> avail C H. key_type H p = HarbarType \<and> key_cluster H p = c}"
  using cache_rel_groups [OF assms] by (simp add: groups_ok_def group_ok_def)

lemma node_group:
  assumes "cache_rel V C H"
  shows "set (group_list (nodes C) t) = {p \<in> avail C H. key_type H p \<noteq> HarbarType \<and> key_type H p = t}"
  using cache_rel_groups [OF assms] by (simp add: groups_ok_def group_ok_def)

lemma getHarbor_list:
  "getHarbor C c m = (if group_list (harbors C) c = [] then None
     else Some (group_list (harbors C) c ! (unat m mod length (group_list (harbors C) c))))"
  by (simp add: getHarbor_def group_list_def split: option.split)

lemma getNormalNode_list:
  assumes "0 \<le> n"
  shows "\<exists>i. getNormalNode r C t n = Some (if group_list (nodes C) t = [] then None
     else Some (group_list (nodes C) t ! (i mod length (group_list (nodes C) t))))"
proof (cases "n = 0")
  case True
  then show ?thesis
    by (intro exI [of _ r]) (simp add: getNormalNode_def group_list_def split: option.split)
next
  case False
  with assms have "sgn n * (\<bar>n\<bar> mod int k) = int (nat n mod k)" for k
    by (simp add: zmod_int)
  with assms False show ?thesis
    by (intro exI [of _ "nat n"]) (simp add: getNormalNode_def group_list_def Let_def split: option.split)
qed

lemma picked_from_group:
  assumes "ps \<noteq> []" "set ps = {p \<in> A. Q p}"
  shows "ps ! (i mod length ps) \<in> A \<and> Q (ps ! (i mod length ps))"
proof -
  have "ps ! (i mod length ps) \<in> set ps" using assms(1) by simp
  with assms(2) show ?thesis by simp
qed

section \<open>Properties\<close>



text \<open>
  C17. Lookups return members that can be used, and miss none: a harbor found for a cluster
  is an available, visible harbor of that cluster, and none is found only when there is
  none; a node found by type (with a number that is not negative) is an available, visible
  ordinary node of that type, the lookup does not panic, and it finds nothing only when
  there is no such node.
\<close>

theorem node_cache_lookups:
  assumes rel: "cache_rel V C H" and n: "0 \<le> n" and t: "t \<noteq> HarbarType"
  shows "(case getHarbor C c m of
      Some p \<Rightarrow> p < length H \<and> seen (localAddr C) V (logicAddr (addr (H ! p))) \<and>
        LogicAddr_Type (logicAddr (addr (H ! p))) = HarbarType \<and>
        LogicAddr_Cluster (logicAddr (addr (H ! p))) = c
    | None \<Rightarrow> \<not> (\<exists>a. seen (localAddr C) V a \<and> LogicAddr_Type a = HarbarType \<and> LogicAddr_Cluster a = c)) \<and>
   (case getNormalNode r C t n of
      Some (Some p) \<Rightarrow> p < length H \<and> seen (localAddr C) V (logicAddr (addr (H ! p))) \<and>
        LogicAddr_Type (logicAddr (addr (H ! p))) = t
    | Some None \<Rightarrow> \<not> (\<exists>a. seen (localAddr C) V a \<and> LogicAddr_Type a = t)
    | None \<Rightarrow> False)"
proof (rule conjI)
  let ?hs = "group_list (harbors C) c"
  have "\<not> (\<exists>a. seen (localAddr C) V a \<and> LogicAddr_Type a = HarbarType \<and> LogicAddr_Cluster a = c)"
    if "?hs = []"
    using harbor_group [OF rel, of c] that seen_shown [OF rel]
    by (auto simp: key_type_def key_cluster_def)
  then show "case getHarbor C c m of
      Some p \<Rightarrow> p < length H \<and> seen (localAddr C) V (logicAddr (addr (H ! p))) \<and>
        LogicAddr_Type (logicAddr (addr (H ! p))) = HarbarType \<and>
        LogicAddr_Cluster (logicAddr (addr (H ! p))) = c
    | None \<Rightarrow> \<not> (\<exists>a. seen (localAddr C) V a \<and> LogicAddr_Type a = HarbarType \<and> LogicAddr_Cluster a = c)"
    using picked_from_group [OF _ harbor_group [OF rel], of c "unat m"] group_member [OF rel]
    by (auto simp: getHarbor_list key_type_def key_cluster_def)
next
  let ?ns = "group_list (nodes C) t"
  have "\<not> (\<exists>a. seen (localAddr C) V a \<and> LogicAddr_Type a = t)" if "?ns = []"
    using node_group [OF rel, of t] that seen_shown [OF rel] t by (auto simp: key_type_def)
  then show "case getNormalNode r C t n of
      Some (Some p) \<Rightarrow> p < length H \<and> seen (localAddr C) V (logicAddr (addr (H ! p))) \<and>
        LogicAddr_Type (logicAddr (addr (H ! p))) = t
    | Some None \<Rightarrow> \<not> (\<exists>a. seen (localAddr C) V a \<and> LogicAddr_Type a = t)
    | None \<Rightarrow> False"
    using getNormalNode_list [OF n, of r C t] picked_from_group [OF _ node_group [OF rel], of t]
      group_member [OF rel]
    by (auto simp: key_type_def)
qed

theorem node_cache_lookups_witness:
  "getHarbor (new_cache 1) 1 7 = None \<and> getNormalNode 0 (new_cache 1) 3 2 = Some None \<and>
   \<not> (\<exists>a. seen 1 Map.empty a \<and> LogicAddr_Type a = 3)"
  using node_cache_lookups [OF cache_rel_new, of 2 3 1 1 7 0]
  by (simp add: HarbarType_def new_cache_def getHarbor_def getNormalNode_def)

text \<open>
  A member that becomes visible by an update crashes the node: when a provider turns
  on the export of a member of another cluster that this node did not see before, the
  update dereferences a nil pointer.
\<close>

lemma export_update_panics:
  assumes "cache_rel V C H" "V (logicAddr (nAddr v)) = Some v0"
    and "\<not> visible (localAddr C) v0" "visible (localAddr C) v"
  shows "onNodeInfoUpdate \<lparr>Add = [], Remove = [], Update = [v]\<rparr> C H = None"
proof -
  have "allnodes C (logicAddr (nAddr v)) = None"
    by (rule entry_hidden [OF assms(1)]) (use assms(2,3) in simp)
  then show ?thesis using assms(4) by (simp add: onNodeInfoUpdate_def update_member_def)
qed

end
