(* ===== verification/Routing.thy ===== *)
theory Routing
  imports Node_Cache
begin

text \<open>
  How a message finds its way (\<open>Node.getNodeByLogicAddr\<close> in \<open>cluster.go\<close>, used by the senders
  and by \<open>onRelayMessage\<close>): inside a cluster it goes straight to the target, between
  clusters it goes through harbor nodes.

  A network gives every running node its node cache and heap. \<open>route\<close> follows the decision
  of one node after another; it needs no more than three of them.
\<close>

section \<open>The decision of one node\<close>

definition getNodeByLogicAddr :: "logic_addr \<Rightarrow> nodeCache \<Rightarrow> logic_addr \<Rightarrow> ptr option" where
  "getNodeByLogicAddr self cache t =
     (if LogicAddr_Cluster t = LogicAddr_Cluster self
      then cache_getNodeByLogicAddr cache t
      else if LogicAddr_Type self = HarbarType
      then getHarbor cache (LogicAddr_Cluster t) t
      else getHarbor cache (LogicAddr_Cluster self) t)"

section \<open>A network of nodes\<close>

type_synonym network = "logic_addr \<Rightarrow> nodeCache \<times> node list"

definition next_hop :: "network \<Rightarrow> logic_addr \<Rightarrow> logic_addr \<Rightarrow> logic_addr option" where
  "next_hop net a t =
     (case net a of (cache, heap) \<Rightarrow>
        map_option (\<lambda>p. logicAddr (addr (heap ! p))) (getNodeByLogicAddr a cache t))"

text \<open>
  The way of a message for \<open>t\<close> that is at \<open>a\<close>: it arrives, or a node finds no next hop, or
  it is still under way when the given number of hops is used up. The lists are the nodes
  that were visited after \<open>a\<close>.
\<close>

datatype journey = Arrived "logic_addr list" | Dropped "logic_addr list" | Underway "logic_addr list"

fun prepend :: "logic_addr \<Rightarrow> journey \<Rightarrow> journey" where
  "prepend a (Arrived p) = Arrived (a # p)"
| "prepend a (Dropped p) = Dropped (a # p)"
| "prepend a (Underway p) = Underway (a # p)"

fun route :: "nat \<Rightarrow> network \<Rightarrow> logic_addr \<Rightarrow> logic_addr \<Rightarrow> journey" where
  "route n net a t =
     (if a = t then Arrived []
      else (case next_hop net a t of
              None \<Rightarrow> Dropped []
            | Some b \<Rightarrow> (case n of 0 \<Rightarrow> Underway [] | Suc k \<Rightarrow> prepend b (route k net b t))))"

declare route.simps [simp del]

lemma route_arrived [simp]: "route n net t t = Arrived []"
  by (subst route.simps) simp

lemma route_dropped: "a \<noteq> t \<Longrightarrow> next_hop net a t = None \<Longrightarrow> route n net a t = Dropped []"
  by (subst route.simps) simp

lemma route_hop:
  "a \<noteq> t \<Longrightarrow> next_hop net a t = Some b \<Longrightarrow> route (Suc n) net a t = prepend b (route n net b t)"
  by (subst route.simps) simp

text \<open>Every member has a node cache that represents the same membership.\<close>

definition consistent :: "members \<Rightarrow> network \<Rightarrow> bool" where
  "consistent V net \<longleftrightarrow>
     (\<forall>a. V a \<noteq> None \<longrightarrow> (case net a of (C, H) \<Rightarrow> localAddr C = a \<and> cache_rel V C H))"

definition is_harbor :: "members \<Rightarrow> u32 \<Rightarrow> logic_addr \<Rightarrow> bool" where
  "is_harbor V c h \<longleftrightarrow>
     (\<exists>v. V h = Some v \<and> Available v) \<and> LogicAddr_Type h = HarbarType \<and> LogicAddr_Cluster h = c"

definition has_harbor :: "members \<Rightarrow> u32 \<Rightarrow> bool" where
  "has_harbor V c \<longleftrightarrow> (\<exists>h. is_harbor V c h)"

definition reachable :: "members \<Rightarrow> logic_addr \<Rightarrow> logic_addr \<Rightarrow> bool" where
  "reachable V a t \<longleftrightarrow> V t \<noteq> None \<and>
     (LogicAddr_Cluster a = LogicAddr_Cluster t \<or>
      has_harbor V (LogicAddr_Cluster t) \<and>
      (LogicAddr_Type a = HarbarType \<or> has_harbor V (LogicAddr_Cluster a)))"

section \<open>Next hops\<close>

lemma harbor_seen:
  assumes "cache_rel V C H" "LogicAddr_Type (localAddr C) = HarbarType \<or> LogicAddr_Cluster (localAddr C) = c"
    and "LogicAddr_Type h = HarbarType" "LogicAddr_Cluster h = c"
  shows "seen (localAddr C) V h \<longleftrightarrow> is_harbor V c h"
proof -
  have "visible (localAddr C) v" if "V h = Some v" for v
    using cache_rel_key [OF assms(1) that] assms(2-4) by (auto simp: visible_def)
  then show ?thesis using assms(3,4) by (auto simp: seen_def is_harbor_def)
qed

lemma getHarbor_picks:
  assumes rel: "cache_rel V C H"
    and vis: "LogicAddr_Type (localAddr C) = HarbarType \<or> LogicAddr_Cluster (localAddr C) = c"
  shows "case getHarbor C c m of
      Some p \<Rightarrow> is_harbor V c (logicAddr (addr (H ! p)))
    | None \<Rightarrow> \<not> has_harbor V c"
proof (cases "group_list (harbors C) c = []")
  case True
  have "\<not> is_harbor V c h" for h
  proof
    assume h: "is_harbor V c h"
    then have s: "seen (localAddr C) V h" using harbor_seen [OF rel vis] by (simp add: is_harbor_def)
    obtain p where "p \<in> avail C H" "logicAddr (addr (H ! p)) = h" by (rule seen_shown [OF rel s])
    with h have "p \<in> set (group_list (harbors C) c)"
      by (simp add: harbor_group [OF rel] key_type_def key_cluster_def is_harbor_def)
    with True show False by simp
  qed
  with True show ?thesis by (simp add: getHarbor_list has_harbor_def)
next
  case False
  let ?p = "group_list (harbors C) c ! (unat m mod length (group_list (harbors C) c))"
  have p: "?p \<in> avail C H" "key_type H ?p = HarbarType" "key_cluster H ?p = c"
    using picked_from_group [OF False harbor_group [OF rel]] by simp_all
  with group_member [OF rel p(1)] harbor_seen [OF rel vis] False show ?thesis
    by (simp add: getHarbor_list key_type_def key_cluster_def)
qed

lemma next_hop_inside:
  assumes "consistent V net" "V a \<noteq> None" "LogicAddr_Cluster t = LogicAddr_Cluster a"
  shows "next_hop net a t = (if V t = None then None else Some t)"
proof -
  obtain C H where net: "net a = (C, H)" by fastforce
  with assms have rel: "cache_rel V C H" and self: "localAddr C = a" by (auto simp: consistent_def)
  show ?thesis
  proof (cases "V t")
    case None
    then have "allnodes C t = None" by (intro entry_hidden [OF rel]) simp
    with None net assms(3) show ?thesis
      by (simp add: next_hop_def getNodeByLogicAddr_def cache_getNodeByLogicAddr_def)
  next
    case (Some v)
    then have "visible (localAddr C) v"
      using cache_rel_key [OF rel Some] assms(3) self by (simp add: visible_def)
    from entry_shown [OF rel Some this] obtain p where
      "allnodes C t = Some p" "logicAddr (addr (H ! p)) = t" by blast
    with Some net assms(3) show ?thesis
      by (simp add: next_hop_def getNodeByLogicAddr_def cache_getNodeByLogicAddr_def)
  qed
qed

text \<open>Between clusters the next hop is a harbor, of the target's cluster or of the own one.\<close>

definition gate :: "logic_addr \<Rightarrow> logic_addr \<Rightarrow> u32" where
  "gate a t = LogicAddr_Cluster (if LogicAddr_Type a = HarbarType then t else a)"

lemma next_hop_outside:
  assumes "consistent V net" "V a \<noteq> None" "LogicAddr_Cluster t \<noteq> LogicAddr_Cluster a"
  shows "case next_hop net a t of
      Some h \<Rightarrow> is_harbor V (gate a t) h
    | None \<Rightarrow> \<not> has_harbor V (gate a t)"
proof -
  obtain C H where net: "net a = (C, H)" by fastforce
  with assms have rel: "cache_rel V C H" and self: "localAddr C = a" by (auto simp: consistent_def)
  have "next_hop net a t = map_option (\<lambda>p. logicAddr (addr (H ! p))) (getHarbor C (gate a t) t)"
    using assms(3) net by (simp add: next_hop_def getNodeByLogicAddr_def gate_def)
  moreover have "LogicAddr_Type (localAddr C) = HarbarType \<or> LogicAddr_Cluster (localAddr C) = gate a t"
    using self by (simp add: gate_def)
  ultimately show ?thesis using getHarbor_picks [OF rel, of "gate a t" t]
    by (auto split: option.splits)
qed

section \<open>Journeys\<close>

text \<open>
  The journey of a message within \<open>n\<close> hops: it arrives exactly when the target can be
  reached, and otherwise it is dropped.
\<close>

definition settled :: "members \<Rightarrow> logic_addr \<Rightarrow> logic_addr \<Rightarrow> nat \<Rightarrow> journey \<Rightarrow> bool" where
  "settled V a t n j \<longleftrightarrow>
     (case j of
        Arrived p \<Rightarrow> reachable V a t \<and> last (a # p) = t \<and> length p \<le> n
      | Dropped p \<Rightarrow> \<not> reachable V a t \<and> length p \<le> n \<and>
          (\<forall>b \<in> set p. LogicAddr_Type b = HarbarType \<and> V b \<noteq> None)
      | Underway p \<Rightarrow> False)"

lemma settled_prepend:
  assumes "settled V b t n j" "reachable V a t \<longleftrightarrow> reachable V b t"
    and "LogicAddr_Type b = HarbarType" "V b \<noteq> None"
  shows "settled V a t (Suc n) (prepend b j)"
  using assms by (cases j) (auto simp: settled_def)

lemma route_inside:
  assumes "consistent V net" "V a \<noteq> None" "LogicAddr_Cluster t = LogicAddr_Cluster a"
  shows "settled V a t 1 (route (Suc n) net a t)"
proof (cases "a = t")
  case True
  with assms(2) show ?thesis by (simp add: settled_def reachable_def)
next
  case False
  show ?thesis
  proof (cases "V t")
    case None
    with next_hop_inside [OF assms] False have "route (Suc n) net a t = Dropped []"
      by (simp add: route_dropped)
    with None show ?thesis by (simp add: settled_def reachable_def)
  next
    case (Some v)
    with next_hop_inside [OF assms] False have "route (Suc n) net a t = Arrived [t]"
      by (simp add: route_hop)
    with Some assms(3) show ?thesis by (simp add: settled_def reachable_def)
  qed
qed

lemma route_from_harbor:
  assumes net: "consistent V net" "V a \<noteq> None" and a: "LogicAddr_Type a = HarbarType"
  shows "settled V a t 2 (route (Suc (Suc n)) net a t)"
proof (cases "LogicAddr_Cluster t = LogicAddr_Cluster a")
  case True
  from route_inside [OF net True, of "Suc n"] show ?thesis
    by (auto simp: settled_def split: journey.splits)
next
  case False
  then have neq: "a \<noteq> t" by auto
  from next_hop_outside [OF net False] a show ?thesis
  proof (cases "next_hop net a t")
    case None
    with next_hop_outside [OF net False] a False neq show ?thesis
      by (auto simp: route_dropped settled_def reachable_def gate_def)
  next
    case (Some h)
    with next_hop_outside [OF net False] a
    have h: "is_harbor V (LogicAddr_Cluster t) h" by (simp add: gate_def)
    then have "V h \<noteq> None" "LogicAddr_Cluster t = LogicAddr_Cluster h" "LogicAddr_Type h = HarbarType"
      by (auto simp: is_harbor_def)
    moreover from this route_inside [OF net(1)] have "settled V h t 1 (route (Suc n) net h t)" by blast
    moreover have "reachable V a t \<longleftrightarrow> reachable V h t"
      using h a by (auto simp: reachable_def is_harbor_def has_harbor_def)
    ultimately have "settled V a t 2 (prepend h (route (Suc n) net h t))"
      using settled_prepend [of V h t 1] by (simp add: numeral_2_eq_2)
    with Some neq show ?thesis by (simp add: route_hop)
  qed
qed

lemma route_settled:
  assumes net: "consistent V net" "V a \<noteq> None"
  shows "settled V a t 3 (route 3 net a t)"
proof (cases "LogicAddr_Type a = HarbarType \<or> LogicAddr_Cluster t = LogicAddr_Cluster a")
  case True
  with route_from_harbor [OF net, of t 1] route_inside [OF net, of t 2] show ?thesis
    by (auto simp: settled_def eval_nat_numeral split: journey.splits)
next
  case False
  then have neq: "a \<noteq> t" by auto
  show ?thesis
  proof (cases "next_hop net a t")
    case None
    with next_hop_outside [OF net, of t] False neq show ?thesis
      by (auto simp: route_dropped settled_def reachable_def gate_def)
  next
    case (Some h)
    with next_hop_outside [OF net, of t] False
    have h: "is_harbor V (LogicAddr_Cluster a) h" by (simp add: gate_def)
    then have "V h \<noteq> None" "LogicAddr_Type h = HarbarType" by (auto simp: is_harbor_def)
    moreover from this route_from_harbor [OF net(1)] have "settled V h t 2 (route 2 net h t)"
      by (metis numeral_2_eq_2)
    moreover have "reachable V a t \<longleftrightarrow> reachable V h t"
      using h False by (auto simp: reachable_def is_harbor_def has_harbor_def)
    ultimately have "settled V a t 3 (prepend h (route 2 net h t))"
      using settled_prepend [of V h t 2] by (simp add: eval_nat_numeral)
    moreover have "route 3 net a t = prepend h (route 2 net h t)"
      using Some neq by (simp add: route_hop eval_nat_numeral)
    ultimately show ?thesis by simp
  qed
qed

lemma dropped_no_hop: "route n net a t = Dropped p \<Longrightarrow> next_hop net (last (a # p)) t = None \<and> last (a # p) \<noteq> t"
proof (induction n arbitrary: a p)
  case 0
  then show ?case by (subst (asm) route.simps) (auto split: if_splits option.splits)
next
  case (Suc n)
  show ?case
  proof (cases "next_hop net a t")
    case None
    with Suc.prems show ?thesis by (cases "a = t") (auto simp: route_dropped)
  next
    case (Some b)
    have neq: "a \<noteq> t" using Suc.prems by auto
    with Some Suc.prems have "prepend b (route n net b t) = Dropped p" by (simp add: route_hop)
    then obtain p' where "route n net b t = Dropped p'" "p = b # p'" by (cases "route n net b t") auto
    with Suc.IH show ?thesis by simp
  qed
qed

lemma reachable_hop:
  assumes "consistent V net" "V d \<noteq> None" "reachable V d a"
  shows "next_hop net d a \<noteq> None"
proof (cases "d = a")
  case True
  with next_hop_inside [OF assms(1,2), of a] assms(2) show ?thesis by simp
next
  case False
  show ?thesis
  proof
    assume "next_hop net d a = None"
    with False have "route 3 net d a = Dropped []" by (rule route_dropped)
    with route_settled [OF assms(1,2), of a] assms(3) show False by (simp add: settled_def)
  qed
qed

text \<open>
  The node that drops a message can reach the sender: it is a harbor, and the sender has a
  harbor in its cluster because the message left the cluster through it.
\<close>

lemma dropped_reaches_back:
  assumes net: "consistent V net" and a: "V a = Some v" "LogicAddr_Type a = HarbarType \<longrightarrow> Available v"
    and j: "route 3 net a t = Dropped p"
  shows "V (last (a # p)) \<noteq> None \<and> reachable V (last (a # p)) a"
proof (cases "p = []")
  case True
  with a show ?thesis by (simp add: reachable_def)
next
  case False
  have neq: "a \<noteq> t" using j by auto
  obtain h where h: "next_hop net a t = Some h"
    using j False neq by (cases "next_hop net a t") (auto simp: route_dropped)
  have member: "V a \<noteq> None" using a by simp
  have out: "LogicAddr_Cluster t \<noteq> LogicAddr_Cluster a"
  proof
    assume inside: "LogicAddr_Cluster t = LogicAddr_Cluster a"
    from next_hop_inside [OF net member inside] h have "h = t" by (cases "V t") simp_all
    with h neq have "route 3 net a t = Arrived [t]" by (simp add: route_hop eval_nat_numeral)
    with j show False by simp
  qed
  have "has_harbor V (LogicAddr_Cluster a)"
  proof (cases "LogicAddr_Type a = HarbarType")
    case True
    with a have "is_harbor V (LogicAddr_Cluster a) a" by (simp add: is_harbor_def)
    then show ?thesis by (auto simp: has_harbor_def)
  next
    case False
    with next_hop_outside [OF net member out] h show ?thesis by (auto simp: gate_def has_harbor_def)
  qed
  moreover have "LogicAddr_Type (last p) = HarbarType" "V (last p) \<noteq> None"
    using route_settled [OF net member, of t] j False by (auto simp: settled_def)
  ultimately show ?thesis using a False by (auto simp: reachable_def)
qed

section \<open>Properties\<close>


text \<open>Two clusters with one ordinary node and one harbor each.\<close>

definition demo_member :: "logic_addr \<Rightarrow> Node" where
  "demo_member a = \<lparr>nAddr = \<lparr>logicAddr = a, netAddr = TCPAddr ''h:1''\<rparr>, Export = False, Available = True\<rparr>"

definition demo_members :: "Node list" where
  "demo_members = map demo_member [263169, 523265, 785409, 525313]"

definition demo_net :: network where
  "demo_net a = add_members demo_members (new_cache a) []"

lemma demo_view: "view_put Map.empty demo_members =
    [263169 \<mapsto> demo_member 263169, 523265 \<mapsto> demo_member 523265, 785409 \<mapsto> demo_member 785409,
     525313 \<mapsto> demo_member 525313]"
  by (simp add: demo_members_def demo_member_def)

lemma demo_consistent: "consistent (view_put Map.empty demo_members) demo_net"
proof -
  have ok: "adds_ok Map.empty demo_members" by (simp add: demo_members_def demo_member_def)
  have "localAddr (fst (demo_net a)) = a \<and> cache_rel (view_put Map.empty demo_members) (fst (demo_net a)) (snd (demo_net a))" for a
    using add_members_rel [OF cache_rel_new ok, of a "fst (demo_net a)" "snd (demo_net a)"]
    by (simp add: demo_net_def new_cache_def)
  then show ?thesis by (simp add: consistent_def split_beta)
qed

lemma demo_reachable: "reachable (view_put Map.empty demo_members) 263169 525313"
proof -
  have "is_harbor (view_put Map.empty demo_members) (LogicAddr_Cluster 525313) 785409"
    "is_harbor (view_put Map.empty demo_members) (LogicAddr_Cluster 263169) 523265"
    by (simp_all add: is_harbor_def demo_view demo_member_def field_eqs HarbarType_def)
  then have "has_harbor (view_put Map.empty demo_members) (LogicAddr_Cluster 525313)"
    "has_harbor (view_put Map.empty demo_members) (LogicAddr_Cluster 263169)"
    unfolding has_harbor_def by blast+
  then show ?thesis by (simp add: reachable_def demo_view)
qed


end
