(* ===== verification/Pb_Meta.thy ===== *)
theory Pb_Meta
  imports Prelude
begin

text \<open>
  The registry of protobuf messages (\<open>codec/pb/pb.go\<close>): a namespace maps the name of a
  message type to its numeric id and the id back to the type, small ids in an array that
  grows in steps of 1024 and large ids in a map.

  The protobuf runtime is not part of the repository. Its operations are the fields of a
  record of parameters: the dynamic type of a message, a new message of a type,
  \<open>MarshalAppend\<close> and \<open>Unmarshal\<close>.
\<close>

section \<open>Types\<close>

text \<open>A \<open>reflect.Type\<close>: the text its \<open>String\<close> method gives, and what else tells types apart.\<close>

datatype rtype = RType (rt_String: string) (rt_id: nat)

record 'm Proto =
  TypeOf :: "'m \<Rightarrow> rtype"
  NewOf :: "rtype \<Rightarrow> 'm"
  MarshalAppend :: "bytes \<Rightarrow> 'm \<Rightarrow> go_error + bytes"
  ProtoUnmarshal :: "bytes \<Rightarrow> 'm \<Rightarrow> go_error + 'm"

record PbMeta =
  namespace :: string
  nameToID :: "string \<rightharpoonup> u32"
  idToMeta :: "u32 \<rightharpoonup> rtype"
  metaArray :: "rtype option list"

definition maxArraySize :: nat where "maxArraySize = 65536"

section \<open>Operations\<close>

text \<open>The loop \<open>for i := 1; i <= 64; i++\<close> returns the first multiple of 1024 above the id.\<close>

definition getArraySize :: "u32 \<Rightarrow> nat" where
  "getArraySize pid =
     (case find (\<lambda>i. unat pid < i * 1024) [1..<65] of None \<Rightarrow> 0 | Some i \<Rightarrow> i * 1024)"

definition invalid_id :: "u32 \<Rightarrow> go_error" where
  "invalid_id pid = GoError (''invaild id:'' @ show_nat (unat pid))"

text \<open>
  \<open>register\<close> gets the dynamic type of the message. Storing at an index past the end of the
  array would panic (\<open>None\<close>).
\<close>

definition register :: "PbMeta \<Rightarrow> rtype \<Rightarrow> u32 \<Rightarrow> (go_error + PbMeta) option" where
  "register m tt pid =
     (let name = rt_String tt
      in if nameToID m name \<noteq> None
         then Some (Inl (GoError (name @ '' already register to namespace:'' @ namespace m)))
         else
           let m = m\<lparr>nameToID := (nameToID m)(name \<mapsto> pid)\<rparr>
           in if unat pid < maxArraySize
              then
                let m = (if unat pid \<ge> length (metaArray m)
                         then m\<lparr>metaArray := patch (replicate (getArraySize pid) None) 0 (metaArray m)\<rparr>
                         else m)
                in if unat pid < length (metaArray m)
                   then Some (Inr (m\<lparr>metaArray := (metaArray m)[unat pid := Some tt]\<rparr>))
                   else None
              else Some (Inr (m\<lparr>idToMeta := (idToMeta m)(pid \<mapsto> tt)\<rparr>)))"

definition newMessage :: "'m Proto \<Rightarrow> PbMeta \<Rightarrow> u32 \<Rightarrow> go_error + 'm" where
  "newMessage P m pid =
     (if pid < of_nat (length (metaArray m))
      then (case metaArray m ! unat pid of
              None \<Rightarrow> Inl (invalid_id pid)
            | Some tt \<Rightarrow> Inr (NewOf P tt))
      else (case idToMeta m pid of
              Some tt \<Rightarrow> Inr (NewOf P tt)
            | None \<Rightarrow> Inl (invalid_id pid)))"

text \<open>\<open>Marshal\<close> returns the buffer also with an error, in which case it is \<open>dst\<close>.\<close>

definition Marshal :: "'m Proto \<Rightarrow> PbMeta \<Rightarrow> bytes \<Rightarrow> 'm \<Rightarrow> go_error + (bytes \<times> u32)" where
  "Marshal P m dst o' =
     (case nameToID m (rt_String (TypeOf P o')) of
        None \<Rightarrow> Inl (GoError (''unregister type:'' @ rt_String (TypeOf P o')))
      | Some pid \<Rightarrow>
          (case MarshalAppend P dst o' of
             Inl err \<Rightarrow> Inl err
           | Inr b \<Rightarrow> Inr (b, pid)))"

definition Unmarshal :: "'m Proto \<Rightarrow> PbMeta \<Rightarrow> u32 \<Rightarrow> bytes \<Rightarrow> go_error + 'm" where
  "Unmarshal P m pid buff =
     (case newMessage P m pid of
        Inl err \<Rightarrow> Inl err
      | Inr msg \<Rightarrow> if length buff > 0 then ProtoUnmarshal P buff msg else Inr msg)"

text \<open>The package variable \<open>nameSpace\<close> is a map that \<open>Register\<close> updates.\<close>

definition GetCmd :: "'m Proto \<Rightarrow> (string \<rightharpoonup> PbMeta) \<Rightarrow> string \<Rightarrow> 'm \<Rightarrow> u32" where
  "GetCmd P nameSpace ns o' =
     (case nameSpace ns of
        Some m \<Rightarrow> (case nameToID m (rt_String (TypeOf P o')) of Some pid \<Rightarrow> pid | None \<Rightarrow> 0)
      | None \<Rightarrow> 0)"

definition empty_meta :: "string \<Rightarrow> PbMeta" where
  "empty_meta ns = \<lparr>namespace = ns, nameToID = Map.empty, idToMeta = Map.empty, metaArray = []\<rparr>"

definition Register ::
    "(string \<rightharpoonup> PbMeta) \<Rightarrow> string \<Rightarrow> rtype \<Rightarrow> u32 \<Rightarrow> (go_error option \<times> (string \<rightharpoonup> PbMeta)) option" where
  "Register nameSpace ns tt pid =
     (let m = (case nameSpace ns of Some m \<Rightarrow> m | None \<Rightarrow> empty_meta ns);
          nameSpace = nameSpace(ns \<mapsto> m)
      in (case register m tt pid of
            None \<Rightarrow> None
          | Some (Inl err) \<Rightarrow> Some (Some err, nameSpace)
          | Some (Inr m') \<Rightarrow> Some (None, nameSpace(ns \<mapsto> m'))))"

definition GetMeta :: "(string \<rightharpoonup> PbMeta) \<Rightarrow> string \<Rightarrow> PbMeta option" where
  "GetMeta nameSpace ns = nameSpace ns"

section \<open>The array is always large enough\<close>

lemma find_first_block:
  assumes "uid < (65536 :: nat)"
  shows "find (\<lambda>i. uid < i * 1024) [1..<65] = Some (uid div 1024 + 1)"
  unfolding find_Some_iff using assms by (intro exI [of _ "uid div 1024"]) auto

lemma getArraySize_bounds:
  assumes "unat pid < 65536"
  shows "unat pid < getArraySize pid \<and> getArraySize pid \<le> 65536 \<and> getArraySize pid mod 1024 = 0"
  unfolding getArraySize_def find_first_block [OF assms] using assms by (auto simp: algebra_simps)

text \<open>The type an id stands for, whether it is kept in the array or in the map.\<close>

definition lookup_type :: "PbMeta \<Rightarrow> u32 \<Rightarrow> rtype option" where
  "lookup_type m pid =
     (if unat pid < length (metaArray m) then metaArray m ! unat pid else idToMeta m pid)"

definition registered :: "PbMeta \<Rightarrow> rtype \<Rightarrow> u32 \<Rightarrow> bool" where
  "registered m tt pid \<longleftrightarrow> nameToID m (rt_String tt) = Some pid \<and> lookup_type m pid = Some tt"

text \<open>
  What registration keeps true: the array never outgrows the range of the small ids, and
  the map holds large ids only.
\<close>

definition meta_ok :: "PbMeta \<Rightarrow> bool" where
  "meta_ok m \<longleftrightarrow> length (metaArray m) \<le> 65536 \<and>
     (\<forall>pid. idToMeta m pid \<noteq> None \<longrightarrow> 65536 \<le> unat pid)"

lemma meta_ok_empty: "meta_ok (empty_meta ns)"
  by (simp add: meta_ok_def empty_meta_def)

lemma lookup_beyond_array:
  "meta_ok m \<Longrightarrow> unat pid < 65536 \<Longrightarrow> length (metaArray m) \<le> unat pid \<Longrightarrow> lookup_type m pid = None"
  unfolding meta_ok_def lookup_type_def by (metis not_le option.exhaust_sel)

lemma register_fresh:
  assumes ok: "meta_ok m" and new: "nameToID m (rt_String tt) = None"
  obtains m' where "register m tt pid = Some (Inr m')" "meta_ok m'"
    "nameToID m' = (nameToID m)(rt_String tt \<mapsto> pid)"
    "\<And>q. lookup_type m' q = (if q = pid then Some tt else lookup_type m q)"
proof (cases "unat pid < 65536")
  case small: True
  define arr where "arr = (if unat pid \<ge> length (metaArray m)
    then patch (replicate (getArraySize pid) None) 0 (metaArray m) else metaArray m)"
  define m' where "m' = m\<lparr>nameToID := (nameToID m)(rt_String tt \<mapsto> pid),
    metaArray := arr[unat pid := Some tt]\<rparr>"
  note size = getArraySize_bounds [OF small]
  have len: "unat pid < length arr" "length arr \<le> 65536" "length (metaArray m) \<le> length arr"
    using ok size by (auto simp: arr_def patch_def meta_ok_def)
  have reg: "register m tt pid = Some (Inr m')"
    using new small len(1) by (auto simp: register_def Let_def maxArraySize_def arr_def m'_def)
  have look: "lookup_type m' q = (if q = pid then Some tt else lookup_type m q)" for q
  proof (cases "unat q < length (metaArray m)")
    case True
    then have "arr ! unat q = metaArray m ! unat q" by (simp add: arr_def patch_def nth_append)
    with True len show ?thesis
      by (auto simp: lookup_type_def m'_def nth_list_update word_unat_eq_iff)
  next
    case False
    have "arr ! unat q = None" if "unat q < length arr"
      using that False by (auto simp: arr_def patch_def nth_append split: if_splits)
    moreover have "lookup_type m q = None" if "unat q < length arr"
      using lookup_beyond_array [OF ok] False that len by simp
    ultimately show ?thesis using False len
      by (auto simp: lookup_type_def m'_def nth_list_update word_unat_eq_iff)
  qed
  show ?thesis
    by (rule that [OF reg _ _ look]) (use ok len in \<open>auto simp: m'_def meta_ok_def\<close>)
next
  case big: False
  define m' where "m' = m\<lparr>nameToID := (nameToID m)(rt_String tt \<mapsto> pid),
    idToMeta := (idToMeta m)(pid \<mapsto> tt)\<rparr>"
  have reg: "register m tt pid = Some (Inr m')"
    using new big by (auto simp: register_def Let_def maxArraySize_def m'_def)
  have "\<not> unat pid < length (metaArray m)" using ok big by (auto simp: meta_ok_def)
  then have look: "lookup_type m' q = (if q = pid then Some tt else lookup_type m q)" for q
    by (auto simp: lookup_type_def m'_def)
  show ?thesis
    by (rule that [OF reg _ _ look]) (use ok big in \<open>auto simp: m'_def meta_ok_def\<close>)
qed

lemma register_duplicate:
  "nameToID m (rt_String tt) \<noteq> None \<Longrightarrow>
     register m tt pid =
       Some (Inl (GoError (rt_String tt @ '' already register to namespace:'' @ namespace m)))"
  by (simp add: register_def)

lemma newMessage_lookup:
  assumes "meta_ok m"
  shows "newMessage P m pid =
    (case lookup_type m pid of None \<Rightarrow> Inl (invalid_id pid) | Some tt \<Rightarrow> Inr (NewOf P tt))"
proof -
  have "pid < of_nat (length (metaArray m)) \<longleftrightarrow> unat pid < length (metaArray m)"
    using assms by (simp add: meta_ok_def word_less_nat_alt unat_of_nat)
  then show ?thesis by (simp add: newMessage_def lookup_type_def)
qed

section \<open>Marshalling and unmarshalling\<close>

text \<open>
  What the program relies on from the protobuf runtime: \<open>MarshalAppend\<close> appends the wire
  form of the message, the wire form unmarshals into a new message of the same type, and
  a message with an empty wire form is the new message of its type.
\<close>

definition proto_ok :: "'m Proto \<Rightarrow> ('m \<Rightarrow> go_error + bytes) \<Rightarrow> bool" where
  "proto_ok P marshal \<longleftrightarrow>
     (\<forall>dst x. MarshalAppend P dst x =
        (case marshal x of Inl err \<Rightarrow> Inl err | Inr b \<Rightarrow> Inr (dst @ b))) \<and>
     (\<forall>x b. marshal x = Inr b \<longrightarrow> ProtoUnmarshal P b (NewOf P (TypeOf P x)) = Inr x) \<and>
     (\<forall>x. marshal x = Inr [] \<longrightarrow> NewOf P (TypeOf P x) = x)"

lemma Marshal_registered:
  assumes "proto_ok P marshal" "registered m (TypeOf P x) pid"
  shows "Marshal P m dst x =
    (case marshal x of Inl err \<Rightarrow> Inl err | Inr b \<Rightarrow> Inr (dst @ b, pid))"
  using assms by (auto simp: Marshal_def proto_ok_def registered_def split: sum.splits)

lemma Unmarshal_registered:
  assumes "proto_ok P marshal" "meta_ok m" "registered m (TypeOf P x) pid" "marshal x = Inr b"
  shows "Unmarshal P m pid b = Inr x"
  using assms
  by (auto simp: Unmarshal_def newMessage_lookup registered_def proto_ok_def)

section \<open>Properties\<close>

text \<open>
  Registering a message type: a type whose name is new is accepted without a panic
  and from then on its name leads to its id and its id to the type, while every type
  registered under another id stays registered; a name that is taken is refused. The
  shape of the registry is kept.
\<close>

lemma pb_register:
  assumes "meta_ok m"
  shows "(if nameToID m (rt_String tt) = None
          then (\<exists>m'. register m tt pid = Some (Inr m') \<and> meta_ok m' \<and> registered m' tt pid \<and>
                 (\<forall>tt' pid'. registered m tt' pid' \<and> pid' \<noteq> pid \<longrightarrow> registered m' tt' pid'))
          else (\<exists>err. register m tt pid = Some (Inl err)))"
proof (cases "nameToID m (rt_String tt) = None")
  case True
  with assms obtain m' where m': "register m tt pid = Some (Inr m')" "meta_ok m'"
    "nameToID m' = (nameToID m)(rt_String tt \<mapsto> pid)"
    "\<And>q. lookup_type m' q = (if q = pid then Some tt else lookup_type m q)"
    by (metis register_fresh)
  with True show ?thesis by (auto simp: registered_def)
next
  case False
  then show ?thesis by (auto simp: register_duplicate)
qed

text \<open>
  A registered message survives the wire: what \<open>Marshal\<close> appends, together with the
  id it returns, \<open>Unmarshal\<close> turns back into the message, and a message whose wire form is
  empty too.
\<close>

lemma pb_marshal_roundtrip:
  assumes "proto_ok P marshal" "meta_ok m" "registered m (TypeOf P x) pid" "marshal x = Inr b"
  shows "Marshal P m dst x = Inr (dst @ b, pid) \<and> Unmarshal P m pid b = Inr x"
  using assms by (simp add: Marshal_registered Unmarshal_registered)

definition echo_proto :: "bytes Proto" where
  "echo_proto = \<lparr>TypeOf = (\<lambda>_. RType ''ss.Echo'' 0), NewOf = (\<lambda>_. []),
     MarshalAppend = (\<lambda>dst x. Inr (dst @ x)), ProtoUnmarshal = (\<lambda>b _. Inr b)\<rparr>"

definition echo_meta :: PbMeta where
  "echo_meta = \<lparr>namespace = ''ss'', nameToID = [''ss.Echo'' \<mapsto> 1], idToMeta = Map.empty,
     metaArray = [None, Some (RType ''ss.Echo'' 0)]\<rparr>"

lemma echo_proto_ok: "proto_ok echo_proto Inr"
  by (simp add: proto_ok_def echo_proto_def)

lemma echo_meta_ok: "meta_ok echo_meta" "registered echo_meta (TypeOf echo_proto x) 1"
  by (simp_all add: meta_ok_def echo_meta_def registered_def lookup_type_def echo_proto_def)

text \<open>
  Only the name is checked for duplicates: registering another type under an id that
  is in use succeeds, after which messages of the first type are still sent with that id
  but received as messages of the second type.
\<close>

lemma pb_id_reuse:
  assumes "meta_ok m" "registered m tt pid" "nameToID m (rt_String tt') = None"
  shows "\<exists>m'. register m tt' pid = Some (Inr m') \<and>
    nameToID m' (rt_String tt) = Some pid \<and> newMessage P m' pid = Inr (NewOf P tt')"
proof -
  from assms obtain m' where m': "register m tt' pid = Some (Inr m')" "meta_ok m'"
    "nameToID m' = (nameToID m)(rt_String tt' \<mapsto> pid)" "lookup_type m' pid = Some tt'"
    by (metis register_fresh)
  with assms show ?thesis by (auto simp: registered_def newMessage_lookup)
qed

end
