(* ===== verification/Wire_Reader.thy ===== *)
theory Wire_Reader
  imports Prelude
begin

text \<open>
  The contract of a big-endian byte reader, as the decoders use it: fixed-width reads take
  their bytes from the front of what is left, and a read that finds too few bytes reports
  an error and consumes nothing. Both readers of the program, \<open>buffer.BufferReader\<close> and
  \<open>rpc.BytesReader\<close>, are shown to be instances.
\<close>

locale wire_reader =
  fixes rest :: "'r \<Rightarrow> bytes"
    and invar :: "'r \<Rightarrow> bool"
    and get8 :: "'r \<Rightarrow> (go_error + byte) \<times> 'r"
    and get16 :: "'r \<Rightarrow> (go_error + u16) \<times> 'r"
    and get32 :: "'r \<Rightarrow> (go_error + u32) \<times> 'r"
    and get64 :: "'r \<Rightarrow> (go_error + u64) \<times> 'r"
  assumes get8: "invar r \<Longrightarrow> rest r = b # t \<Longrightarrow>
      \<exists>r'. get8 r = (Inr b, r') \<and> rest r' = t \<and> invar r'"
    and get16: "invar r \<Longrightarrow> rest r = be_bytes 2 v16 @ t \<Longrightarrow>
      \<exists>r'. get16 r = (Inr v16, r') \<and> rest r' = t \<and> invar r'"
    and get32: "invar r \<Longrightarrow> rest r = be_bytes 4 v32 @ t \<Longrightarrow>
      \<exists>r'. get32 r = (Inr v32, r') \<and> rest r' = t \<and> invar r'"
    and get64: "invar r \<Longrightarrow> rest r = be_bytes 8 v64 @ t \<Longrightarrow>
      \<exists>r'. get64 r = (Inr v64, r') \<and> rest r' = t \<and> invar r'"
    and get8_short: "invar r \<Longrightarrow> rest r = [] \<Longrightarrow> \<exists>e. get8 r = (Inl e, r)"
    and get16_short: "invar r \<Longrightarrow> length (rest r) < 2 \<Longrightarrow> \<exists>e. get16 r = (Inl e, r)"
    and get32_short: "invar r \<Longrightarrow> length (rest r) < 4 \<Longrightarrow> \<exists>e. get32 r = (Inl e, r)"
    and get64_short: "invar r \<Longrightarrow> length (rest r) < 8 \<Longrightarrow> \<exists>e. get64 r = (Inl e, r)"
begin

text \<open>A big-endian field at the front of a long enough buffer.\<close>

lemma front_be_bytes:
  assumes "n \<le> length bs" "8 * n \<le> LENGTH('a)"
  shows "bs = be_bytes n (of_be (take n bs) :: 'a::len word) @ drop n bs"
  using be_bytes_of_be [of "take n bs", where 'a = 'a] assms by simp

text \<open>Every read either fails and leaves the reader, or consumes exactly its width.\<close>

lemma get16_total:
  assumes "invar r"
  shows "(\<exists>e. get16 r = (Inl e, r) \<and> length (rest r) < 2) \<or>
         (\<exists>v r'. get16 r = (Inr v, r') \<and> rest r = be_bytes 2 v @ rest r' \<and> invar r')"
proof (cases "length (rest r) < 2")
  case True
  with assms show ?thesis using get16_short by blast
next
  case False
  then have "rest r = be_bytes 2 (of_be (take 2 (rest r)) :: u16) @ drop 2 (rest r)"
    by (intro front_be_bytes) simp_all
  with assms show ?thesis using get16 by metis
qed

lemma get32_total:
  assumes "invar r"
  shows "(\<exists>e. get32 r = (Inl e, r) \<and> length (rest r) < 4) \<or>
         (\<exists>v r'. get32 r = (Inr v, r') \<and> rest r = be_bytes 4 v @ rest r' \<and> invar r')"
proof (cases "length (rest r) < 4")
  case True
  with assms show ?thesis using get32_short by blast
next
  case False
  then have "rest r = be_bytes 4 (of_be (take 4 (rest r)) :: u32) @ drop 4 (rest r)"
    by (intro front_be_bytes) simp_all
  with assms show ?thesis using get32 by metis
qed

lemma get64_total:
  assumes "invar r"
  shows "(\<exists>e. get64 r = (Inl e, r) \<and> length (rest r) < 8) \<or>
         (\<exists>v r'. get64 r = (Inr v, r') \<and> rest r = be_bytes 8 v @ rest r' \<and> invar r')"
proof (cases "length (rest r) < 8")
  case True
  with assms show ?thesis using get64_short by blast
next
  case False
  then have "rest r = be_bytes 8 (of_be (take 8 (rest r)) :: u64) @ drop 8 (rest r)"
    by (intro front_be_bytes) simp_all
  with assms show ?thesis using get64 by metis
qed

text \<open>The header of a node-to-node frame: a flag byte, the target and the source address.\<close>

lemma read_flag_to_from:
  assumes "invar r" "rest r = flag # be_bytes 4 to @ be_bytes 4 from @ body"
  shows "\<exists>r1 r2 r3. get8 r = (Inr flag, r1) \<and> get32 r1 = (Inr to, r2) \<and>
    get32 r2 = (Inr from, r3) \<and> rest r3 = body \<and> invar r3"
proof -
  obtain r1 where 1: "get8 r = (Inr flag, r1)" "rest r1 = be_bytes 4 to @ be_bytes 4 from @ body"
    "invar r1" using get8 assms by blast
  obtain r2 where 2: "get32 r1 = (Inr to, r2)" "rest r2 = be_bytes 4 from @ body" "invar r2"
    using get32 1 by blast
  obtain r3 where "get32 r2 = (Inr from, r3)" "rest r3 = body" "invar r3"
    using get32 2 by blast
  with 1 2 show ?thesis by blast
qed

end

end
