(* ===== verification/Buffer.thy ===== *)
theory Buffer
  imports Wire_Reader
begin

text \<open>
  The buffer writer and reader (\<open>codec/buffer/buffer.go\<close>). The writer appends values to a
  byte slice in a chosen byte order; the reader keeps the slice and an offset, and comes
  with unchecked getters, which return 0 at the end of the data, and checked ones, which
  return \<open>ErrOutOfBounds\<close>.
\<close>

definition ErrOutOfBounds :: go_error where
  "ErrOutOfBounds = GoError ''out of bounds''"

datatype ByteOrder = BigEndian | LittleEndian

fun put_uint :: "ByteOrder \<Rightarrow> nat \<Rightarrow> 'a::len word \<Rightarrow> bytes" where
  "put_uint BigEndian n v = be_bytes n v"
| "put_uint LittleEndian n v = le_bytes n v"

fun get_uint :: "ByteOrder \<Rightarrow> bytes \<Rightarrow> 'a::len word" where
  "get_uint BigEndian bs = of_be bs"
| "get_uint LittleEndian bs = of_le bs"

lemma length_put_uint [simp]: "length (put_uint e n v) = n"
  by (cases e) simp_all

lemma get_put_uint: "LENGTH('a) \<le> 8 * n \<Longrightarrow> get_uint e (put_uint e n v) = (v :: 'a::len word)"
  by (cases e) (simp_all add: of_be_be_bytes of_le_le_bytes)

section \<open>The writer\<close>

record BufferWriter =
  wendian :: ByteOrder

definition NeWriter :: "ByteOrder \<Rightarrow> BufferWriter" where
  "NeWriter e = \<lparr>wendian = e\<rparr>"

definition AppendByte :: "BufferWriter \<Rightarrow> bytes \<Rightarrow> byte \<Rightarrow> bytes" where
  "AppendByte w bs v = bs @ [v]"

definition AppendString :: "BufferWriter \<Rightarrow> bytes \<Rightarrow> string \<Rightarrow> bytes" where
  "AppendString w bs s = bs @ bytes_of_string s"

definition AppendBytes :: "BufferWriter \<Rightarrow> bytes \<Rightarrow> bytes \<Rightarrow> bytes" where
  "AppendBytes w bs b = bs @ b"

definition AppendUint16 :: "BufferWriter \<Rightarrow> bytes \<Rightarrow> u16 \<Rightarrow> bytes" where
  "AppendUint16 w bs v =
     (let mark = length bs; bs' = bs @ [0, 0] in patch bs' mark (put_uint (wendian w) 2 v))"

definition AppendUint32 :: "BufferWriter \<Rightarrow> bytes \<Rightarrow> u32 \<Rightarrow> bytes" where
  "AppendUint32 w bs v =
     (let mark = length bs; bs' = bs @ [0, 0, 0, 0] in patch bs' mark (put_uint (wendian w) 4 v))"

definition AppendUint64 :: "BufferWriter \<Rightarrow> bytes \<Rightarrow> u64 \<Rightarrow> bytes" where
  "AppendUint64 w bs v =
     (let mark = length bs; bs' = bs @ [0, 0, 0, 0, 0, 0, 0, 0]
      in patch bs' mark (put_uint (wendian w) 8 v))"

text \<open>
  The signed integers of fixed width are the same bits read as two's complement; \<open>int\<close> has
  64 bits and \<open>AppendInt\<close> truncates it to 32.
\<close>

definition AppendInt16 :: "BufferWriter \<Rightarrow> bytes \<Rightarrow> int \<Rightarrow> bytes" where
  "AppendInt16 w bs i16 = AppendUint16 w bs (word_of_int i16)"

definition AppendInt32 :: "BufferWriter \<Rightarrow> bytes \<Rightarrow> int \<Rightarrow> bytes" where
  "AppendInt32 w bs i32 = AppendUint32 w bs (word_of_int i32)"

definition AppendInt64 :: "BufferWriter \<Rightarrow> bytes \<Rightarrow> int \<Rightarrow> bytes" where
  "AppendInt64 w bs i64 = AppendUint64 w bs (word_of_int i64)"

definition AppendInt :: "BufferWriter \<Rightarrow> bytes \<Rightarrow> int \<Rightarrow> bytes" where
  "AppendInt w bs i = AppendUint32 w bs (word_of_int i)"

lemma Append_simps [wire_simps]:
  "AppendByte w bs b = bs @ [b]"
  "AppendString w bs s = bs @ bytes_of_string s"
  "AppendBytes w bs cs = bs @ cs"
  "AppendUint16 w bs v16 = bs @ put_uint (wendian w) 2 v16"
  "AppendUint32 w bs v32 = bs @ put_uint (wendian w) 4 v32"
  "AppendUint64 w bs v64 = bs @ put_uint (wendian w) 8 v64"
  by (simp_all add: AppendByte_def AppendString_def AppendBytes_def AppendUint16_def
      AppendUint32_def AppendUint64_def patch_append)

section \<open>The reader\<close>

record BufferReader =
  rbs :: bytes
  roffset :: nat
  rendian :: ByteOrder

definition NewReader :: "ByteOrder \<Rightarrow> bytes \<Rightarrow> BufferReader" where
  "NewReader e b = \<lparr>rbs = b, roffset = 0, rendian = e\<rparr>"

definition Reset :: "BufferReader \<Rightarrow> bytes \<Rightarrow> BufferReader" where
  "Reset r b = (let r' = (if length b > 0 then r\<lparr>rbs := b\<rparr> else r) in r'\<lparr>roffset := 0\<rparr>)"

text \<open>\<open>r.bs[r.offset:]\<close> panics when the offset is past the end.\<close>

definition GetAll :: "BufferReader \<Rightarrow> bytes option" where
  "GetAll r = (if roffset r \<le> length (rbs r) then Some (drop (roffset r) (rbs r)) else None)"

definition GetOffset :: "BufferReader \<Rightarrow> nat" where
  "GetOffset r = roffset r"

definition IsOver :: "BufferReader \<Rightarrow> bool" where
  "IsOver r \<longleftrightarrow> roffset r \<ge> length (rbs r)"

definition next_bytes :: "BufferReader \<Rightarrow> nat \<Rightarrow> bytes" where
  "next_bytes r n = take n (drop (roffset r) (rbs r))"

definition GetByte :: "BufferReader \<Rightarrow> byte \<times> BufferReader" where
  "GetByte r =
     (if roffset r + 1 > length (rbs r) then (0, r)
      else (rbs r ! roffset r, r\<lparr>roffset := roffset r + 1\<rparr>))"

definition CheckGetByte :: "BufferReader \<Rightarrow> (go_error + byte) \<times> BufferReader" where
  "CheckGetByte r =
     (if roffset r + 1 > length (rbs r) then (Inl ErrOutOfBounds, r)
      else (Inr (rbs r ! roffset r), r\<lparr>roffset := roffset r + 1\<rparr>))"

definition GetUint16 :: "BufferReader \<Rightarrow> u16 \<times> BufferReader" where
  "GetUint16 r =
     (if roffset r + 2 > length (rbs r) then (0, r)
      else (get_uint (rendian r) (next_bytes r 2), r\<lparr>roffset := roffset r + 2\<rparr>))"

definition CheckGetUint16 :: "BufferReader \<Rightarrow> (go_error + u16) \<times> BufferReader" where
  "CheckGetUint16 r =
     (if roffset r + 2 > length (rbs r) then (Inl ErrOutOfBounds, r)
      else (Inr (get_uint (rendian r) (next_bytes r 2)), r\<lparr>roffset := roffset r + 2\<rparr>))"

definition GetInt16 :: "BufferReader \<Rightarrow> int \<times> BufferReader" where
  "GetInt16 r = (case GetUint16 r of (u, r') \<Rightarrow> (sint u, r'))"

definition CheckGetInt16 :: "BufferReader \<Rightarrow> (go_error + int) \<times> BufferReader" where
  "CheckGetInt16 r =
     (case CheckGetUint16 r of (Inl err, r') \<Rightarrow> (Inl err, r') | (Inr u, r') \<Rightarrow> (Inr (sint u), r'))"

definition GetUint32 :: "BufferReader \<Rightarrow> u32 \<times> BufferReader" where
  "GetUint32 r =
     (if roffset r + 4 > length (rbs r) then (0, r)
      else (get_uint (rendian r) (next_bytes r 4), r\<lparr>roffset := roffset r + 4\<rparr>))"

definition CheckGetUint32 :: "BufferReader \<Rightarrow> (go_error + u32) \<times> BufferReader" where
  "CheckGetUint32 r =
     (if roffset r + 4 > length (rbs r) then (Inl ErrOutOfBounds, r)
      else (Inr (get_uint (rendian r) (next_bytes r 4)), r\<lparr>roffset := roffset r + 4\<rparr>))"

definition GetInt32 :: "BufferReader \<Rightarrow> int \<times> BufferReader" where
  "GetInt32 r = (case GetUint32 r of (u, r') \<Rightarrow> (sint u, r'))"

definition CheckGetInt32 :: "BufferReader \<Rightarrow> (go_error + int) \<times> BufferReader" where
  "CheckGetInt32 r =
     (case CheckGetUint32 r of (Inl err, r') \<Rightarrow> (Inl err, r') | (Inr u, r') \<Rightarrow> (Inr (sint u), r'))"

definition GetUint64 :: "BufferReader \<Rightarrow> u64 \<times> BufferReader" where
  "GetUint64 r =
     (if roffset r + 8 > length (rbs r) then (0, r)
      else (get_uint (rendian r) (next_bytes r 8), r\<lparr>roffset := roffset r + 8\<rparr>))"

definition CheckGetUint64 :: "BufferReader \<Rightarrow> (go_error + u64) \<times> BufferReader" where
  "CheckGetUint64 r =
     (if roffset r + 8 > length (rbs r) then (Inl ErrOutOfBounds, r)
      else (Inr (get_uint (rendian r) (next_bytes r 8)), r\<lparr>roffset := roffset r + 8\<rparr>))"

definition GetInt64 :: "BufferReader \<Rightarrow> int \<times> BufferReader" where
  "GetInt64 r = (case GetUint64 r of (u, r') \<Rightarrow> (sint u, r'))"

definition CheckGetInt64 :: "BufferReader \<Rightarrow> (go_error + int) \<times> BufferReader" where
  "CheckGetInt64 r =
     (case CheckGetUint64 r of (Inl err, r') \<Rightarrow> (Inl err, r') | (Inr u, r') \<Rightarrow> (Inr (sint u), r'))"

definition CheckGetInt :: "BufferReader \<Rightarrow> (go_error + int) \<times> BufferReader" where
  "CheckGetInt r =
     (case CheckGetUint32 r of (Inl err, r') \<Rightarrow> (Inl err, r') | (Inr u, r') \<Rightarrow> (Inr (uint u), r'))"

text \<open>
  The length argument of the slice getters is a Go \<open>int\<close>; a negative one makes the slice
  expression \<open>r.bs[r.offset : r.offset+size]\<close> panic.
\<close>

definition take_slice :: "BufferReader \<Rightarrow> int \<Rightarrow> (bytes \<times> BufferReader) option" where
  "take_slice r sz =
     (if sz < 0 then None
      else Some (next_bytes r (nat sz), r\<lparr>roffset := roffset r + nat sz\<rparr>))"

definition GetBytes :: "BufferReader \<Rightarrow> int \<Rightarrow> (bytes \<times> BufferReader) option" where
  "GetBytes r sz =
     (let left = int (length (rbs r)) - int (roffset r);
          sz' = (if left < sz then left else sz)
      in take_slice r sz')"

definition CheckGetBytes ::
    "BufferReader \<Rightarrow> int \<Rightarrow> ((go_error + bytes) \<times> BufferReader) option" where
  "CheckGetBytes r sz =
     (if int (length (rbs r)) - int (roffset r) < sz then Some (Inl ErrOutOfBounds, r)
      else (case take_slice r sz of None \<Rightarrow> None | Some (b, r') \<Rightarrow> Some (Inr b, r')))"

definition GetString :: "BufferReader \<Rightarrow> int \<Rightarrow> (string \<times> BufferReader) option" where
  "GetString r sz =
     (case GetBytes r sz of None \<Rightarrow> None | Some (b, r') \<Rightarrow> Some (string_of_bytes b, r'))"

definition CheckGetString ::
    "BufferReader \<Rightarrow> int \<Rightarrow> ((go_error + string) \<times> BufferReader) option" where
  "CheckGetString r sz =
     (case CheckGetBytes r sz of
        None \<Rightarrow> None
      | Some (Inl err, r') \<Rightarrow> Some (Inl err, r')
      | Some (Inr b, r') \<Rightarrow> Some (Inr (string_of_bytes b), r'))"

definition CopyBytes ::
    "BufferReader \<Rightarrow> int \<Rightarrow> ((go_error + bytes) \<times> BufferReader) option" where
  "CopyBytes r sz =
     (case CheckGetBytes r sz of
        None \<Rightarrow> None
      | Some (Inr b, r') \<Rightarrow> Some (Inr b, r')
      | Some (Inl err, r') \<Rightarrow> Some (Inl err, r'))"

section \<open>The reader as a stream\<close>

text \<open>What a reader has left, and the shape every operation keeps it in.\<close>

definition remaining :: "BufferReader \<Rightarrow> bytes" where
  "remaining r = drop (roffset r) (rbs r)"

definition reader_ok :: "BufferReader \<Rightarrow> bool" where
  "reader_ok r \<longleftrightarrow> roffset r \<le> length (rbs r)"

definition be_reader :: "BufferReader \<Rightarrow> bool" where
  "be_reader r \<longleftrightarrow> reader_ok r \<and> rendian r = BigEndian"

lemmas reader_defs =
  GetByte_def CheckGetByte_def GetUint16_def CheckGetUint16_def GetUint32_def CheckGetUint32_def
  GetUint64_def CheckGetUint64_def

lemma front_slice:
  assumes "drop i b = xs @ t" "length xs = n" "0 < n"
  shows "i + n \<le> length b" "take n (drop i b) = xs" "drop (i + n) b = t"
proof -
  have "length b - i = n + length t" using assms by (metis length_append length_drop)
  then show "i + n \<le> length b" using assms(3) by linarith
  show "take n (drop i b) = xs" using assms by simp
  have "drop (i + n) b = drop n (drop i b)" by (simp add: add.commute)
  then show "drop (i + n) b = t" using assms by simp
qed

interpretation buf: wire_reader remaining be_reader CheckGetByte CheckGetUint16 CheckGetUint32
  CheckGetUint64
proof (unfold_locales, goal_cases)
  case (1 r b t)
  then have "drop (roffset r) (rbs r) = [b] @ t" by (simp add: remaining_def)
  note f = front_slice [OF this, of 1]
  have "rbs r ! roffset r = b" using f(1,2) by (simp add: take_Suc_conv_app_nth hd_drop_conv_nth take_Suc)
  then show ?case using 1 f by (simp add: CheckGetByte_def remaining_def be_reader_def reader_ok_def)
next
  case (2 r v t)
  then have "drop (roffset r) (rbs r) = be_bytes 2 v @ t" by (simp add: remaining_def)
  note f = front_slice [OF this, of 2]
  show ?case using 2 f by (simp add: CheckGetUint16_def next_bytes_def remaining_def be_reader_def reader_ok_def)
next
  case (3 r v t)
  then have "drop (roffset r) (rbs r) = be_bytes 4 v @ t" by (simp add: remaining_def)
  note f = front_slice [OF this, of 4]
  show ?case using 3 f by (simp add: CheckGetUint32_def next_bytes_def remaining_def be_reader_def reader_ok_def)
next
  case (4 r v t)
  then have "drop (roffset r) (rbs r) = be_bytes 8 v @ t" by (simp add: remaining_def)
  note f = front_slice [OF this, of 8]
  show ?case using 4 f by (simp add: CheckGetUint64_def next_bytes_def remaining_def be_reader_def reader_ok_def)
qed (auto simp: reader_defs remaining_def)

lemma unchecked_getters:
  "GetByte r = (case CheckGetByte r of (Inl e, r') \<Rightarrow> (0, r') | (Inr v, r') \<Rightarrow> (v, r'))"
  "GetUint16 r = (case CheckGetUint16 r of (Inl e, r') \<Rightarrow> (0, r') | (Inr v, r') \<Rightarrow> (v, r'))"
  "GetUint32 r = (case CheckGetUint32 r of (Inl e, r') \<Rightarrow> (0, r') | (Inr v, r') \<Rightarrow> (v, r'))"
  "GetUint64 r = (case CheckGetUint64 r of (Inl e, r') \<Rightarrow> (0, r') | (Inr v, r') \<Rightarrow> (v, r'))"
  by (simp_all add: reader_defs)

section \<open>Every getter keeps the offset inside the data\<close>

text \<open>The step of a reader: some bytes of what is left are consumed, the data is untouched.\<close>

definition consumes :: "BufferReader \<Rightarrow> BufferReader \<Rightarrow> bool" where
  "consumes r r' \<longleftrightarrow> rbs r' = rbs r \<and> rendian r' = rendian r \<and> roffset r \<le> roffset r' \<and>
     roffset r' \<le> length (rbs r)"

lemma consumes_fixed:
  assumes "reader_ok r"
  shows "consumes r (snd (GetByte r))" "consumes r (snd (CheckGetByte r))"
    "consumes r (snd (GetUint16 r))" "consumes r (snd (CheckGetUint16 r))"
    "consumes r (snd (GetUint32 r))" "consumes r (snd (CheckGetUint32 r))"
    "consumes r (snd (GetUint64 r))" "consumes r (snd (CheckGetUint64 r))"
  using assms by (simp_all add: reader_defs consumes_def reader_ok_def)

lemma consumes_GetBytes:
  assumes "reader_ok r" "GetBytes r n = Some (b, r')"
  shows "consumes r r' \<and> b = take (nat n) (remaining r)"
  using assms
  by (auto simp: GetBytes_def take_slice_def Let_def consumes_def reader_ok_def next_bytes_def
      remaining_def split: if_splits)

lemma consumes_CheckGetBytes:
  assumes "reader_ok r" "CheckGetBytes r n = Some (x, r')"
  shows "consumes r r'"
  using assms
  by (auto simp: CheckGetBytes_def take_slice_def consumes_def reader_ok_def split: if_splits)

lemma CheckGetBytes_eq:
  assumes "reader_ok r"
  shows "CheckGetBytes r (int n) =
    Some (if length (remaining r) < n then (Inl ErrOutOfBounds, r)
          else (Inr (take n (remaining r)), r\<lparr>roffset := roffset r + n\<rparr>))"
  using assms
  by (auto simp: CheckGetBytes_def take_slice_def reader_ok_def next_bytes_def remaining_def)

lemma Reset_remaining: "remaining (Reset r b) = (if b = [] then rbs r else b)"
  by (simp add: Reset_def remaining_def)

lemma Reset_be: "rendian r = BigEndian \<Longrightarrow> be_reader (Reset r b)"
  by (simp add: Reset_def be_reader_def reader_ok_def)

lemma GetAll_remaining: "reader_ok r \<Longrightarrow> GetAll r = Some (remaining r)"
  by (simp add: GetAll_def remaining_def reader_ok_def)

section \<open>Properties\<close>

text \<open>
  What the writer appends the reader returns, in both byte orders: a reader positioned
  after any prefix reads back a byte and a 16-, 32- and 64-bit integer in the order they
  were appended, and is then at the end of the data.
\<close>

lemma buffer_roundtrip:
  "(let w = NeWriter e;
        b = AppendUint64 w (AppendUint32 w (AppendUint16 w (AppendByte w pre v8) v16) v32) v64;
        r0 = (NewReader e b)\<lparr>roffset := length pre\<rparr>;
        (x8, r1) = CheckGetByte r0; (x16, r2) = CheckGetUint16 r1;
        (x32, r3) = CheckGetUint32 r2; (x64, r4) = CheckGetUint64 r3
    in x8 = Inr v8 \<and> x16 = Inr v16 \<and> x32 = Inr v32 \<and> x64 = Inr v64 \<and> IsOver r4)"
  by (simp add: Let_def wire_simps NeWriter_def NewReader_def reader_defs next_bytes_def nth_append
      get_put_uint IsOver_def)

text \<open>
  Signed integers: \<open>int16\<close>, \<open>int32\<close> and \<open>int64\<close> values are read back unchanged over
  their whole range, while the pair \<open>AppendInt\<close>/\<open>CheckGetInt\<close> returns the value modulo
  2^32 and so is faithful only for non-negative values below 2^32.
\<close>

lemma buffer_signed_roundtrip:
  "(- (2 ^ 15) \<le> i \<and> i < 2 ^ 15 \<longrightarrow>
      fst (CheckGetInt16 (NewReader e (AppendInt16 (NeWriter e) [] i))) = Inr i) \<and>
   (- (2 ^ 31) \<le> i \<and> i < 2 ^ 31 \<longrightarrow>
      fst (CheckGetInt32 (NewReader e (AppendInt32 (NeWriter e) [] i))) = Inr i) \<and>
   (- (2 ^ 63) \<le> i \<and> i < 2 ^ 63 \<longrightarrow>
      fst (CheckGetInt64 (NewReader e (AppendInt64 (NeWriter e) [] i))) = Inr i) \<and>
   fst (CheckGetInt (NewReader e (AppendInt (NeWriter e) [] i))) = Inr (i mod 2 ^ 32)"
proof (intro conjI impI)
  assume "- (2 ^ 15) \<le> i \<and> i < 2 ^ 15"
  then have "sint (word_of_int i :: u16) = i"
    by (simp add: signed_of_int signed_take_bit_int_eq_self)
  then show "fst (CheckGetInt16 (NewReader e (AppendInt16 (NeWriter e) [] i))) = Inr i"
    by (simp add: CheckGetInt16_def AppendInt16_def wire_simps NeWriter_def NewReader_def
        reader_defs next_bytes_def get_put_uint)
next
  assume "- (2 ^ 31) \<le> i \<and> i < 2 ^ 31"
  then have "sint (word_of_int i :: u32) = i"
    by (simp add: signed_of_int signed_take_bit_int_eq_self)
  then show "fst (CheckGetInt32 (NewReader e (AppendInt32 (NeWriter e) [] i))) = Inr i"
    by (simp add: CheckGetInt32_def AppendInt32_def wire_simps NeWriter_def NewReader_def
        reader_defs next_bytes_def get_put_uint)
next
  assume "- (2 ^ 63) \<le> i \<and> i < 2 ^ 63"
  then have "sint (word_of_int i :: u64) = i"
    by (simp add: signed_of_int signed_take_bit_int_eq_self)
  then show "fst (CheckGetInt64 (NewReader e (AppendInt64 (NeWriter e) [] i))) = Inr i"
    by (simp add: CheckGetInt64_def AppendInt64_def wire_simps NeWriter_def NewReader_def
        reader_defs next_bytes_def get_put_uint)
next
  show "fst (CheckGetInt (NewReader e (AppendInt (NeWriter e) [] i))) = Inr (i mod 2 ^ 32)"
    by (simp add: CheckGetInt_def AppendInt_def wire_simps NeWriter_def NewReader_def
        reader_defs next_bytes_def get_put_uint uint_word_of_int)
qed

text \<open>
  C30. No getter leaves the data: from an offset inside the data, every getter (checked or
  not, fixed width or by length) ends with an offset inside the same data that has not
  moved back, and the slice getters panic exactly for a negative length.
\<close>

theorem buffer_reader_safe:
  assumes "reader_ok r"
  shows "consumes r (snd (GetByte r)) \<and> consumes r (snd (CheckGetByte r)) \<and>
    consumes r (snd (GetUint16 r)) \<and> consumes r (snd (CheckGetUint16 r)) \<and>
    consumes r (snd (GetUint32 r)) \<and> consumes r (snd (CheckGetUint32 r)) \<and>
    consumes r (snd (GetUint64 r)) \<and> consumes r (snd (CheckGetUint64 r)) \<and>
    (GetBytes r n = None \<longleftrightarrow> n < 0) \<and> (CheckGetBytes r n = None \<longleftrightarrow> n < 0) \<and>
    (\<forall>b r'. GetBytes r n = Some (b, r') \<longrightarrow> consumes r r' \<and> b = take (nat n) (remaining r)) \<and>
    (\<forall>x r'. CheckGetBytes r n = Some (x, r') \<longrightarrow> consumes r r')"
proof -
  have "GetBytes r n = None \<longleftrightarrow> n < 0" "CheckGetBytes r n = None \<longleftrightarrow> n < 0"
    using assms
    by (auto simp: GetBytes_def CheckGetBytes_def take_slice_def reader_ok_def Let_def split: if_splits)
  then show ?thesis
    using consumes_fixed [OF assms] consumes_GetBytes [OF assms] consumes_CheckGetBytes [OF assms]
    by blast
qed

theorem buffer_reader_safe_witness:
  "reader_ok (NewReader BigEndian [1, 2, 3]) \<and>
   consumes (NewReader BigEndian [1, 2, 3]) (snd (GetUint16 (NewReader BigEndian [1, 2, 3]))) \<and>
   GetBytes (NewReader BigEndian [1, 2, 3]) (-1) = None"
proof -
  have ok: "reader_ok (NewReader BigEndian [1, 2, 3])" by (simp add: reader_ok_def NewReader_def)
  show ?thesis using ok buffer_reader_safe [OF ok, of "-1"] by simp
qed

end
