(* ===== verification/Rpc_Bytes.thy ===== *)
theory Rpc_Bytes
  imports Wire_Reader
begin

text \<open>
  The byte writer and reader of the RPC messages (\<open>rpc/bytes.go\<close>), always big-endian, and
  the codec interface through which arguments and results are marshalled (\<open>rpc.Codec\<close>).
  A \<open>BytesWriter\<close> and a \<open>BytesReader\<close> are structs with the single field \<open>B\<close>; the model
  passes that field.
\<close>

section \<open>Values and codecs\<close>

text \<open>
  An \<open>interface{}\<close> payload: nil, a byte slice (the wire form) or any other value.
\<close>

datatype 'v iface = INil | IBytes bytes | IObj 'v

text \<open>
  \<open>rpc.Codec\<close>. \<open>Encode\<close> gets the destination and the value, \<open>Decode\<close> the data and the
  value to fill in.
\<close>

record 'v Codec =
  codec_Encode :: "bytes \<Rightarrow> 'v iface \<Rightarrow> go_error + bytes"
  codec_Decode :: "bytes \<Rightarrow> 'v \<Rightarrow> go_error + 'v"

text \<open>
  What the interface's comment asks of \<open>Encode\<close>: it appends the marshalled form of the
  value, here \<open>marshal v\<close>, to the destination.
\<close>

definition codec_appends :: "'v Codec \<Rightarrow> ('v iface \<Rightarrow> go_error + bytes) \<Rightarrow> bool" where
  "codec_appends c marshal \<longleftrightarrow>
     (\<forall>dst v. codec_Encode c dst v =
        (case marshal v of Inl err \<Rightarrow> Inl err | Inr b \<Rightarrow> Inr (dst @ b)))"

section \<open>The writer\<close>

text \<open>\<open>WriteMessage\<close> returns the error, if any, with the buffer it leaves behind.\<close>

definition WriteMessage ::
    "bytes \<Rightarrow> 'v Codec \<Rightarrow> 'v iface \<Rightarrow> go_error option \<times> bytes" where
  "WriteMessage B codec v =
     (if v = INil then (None, B @ [0, 0])
      else
        let mark = length B; B' = B @ [0, 0]; start = length B'
        in (case codec_Encode codec B' v of
              Inl err \<Rightarrow> (Some err, B')
            | Inr b \<Rightarrow> (None, patch b mark (be_bytes 2 (of_nat (length b - start) :: u16)))))"

definition writeByte :: "bytes \<Rightarrow> byte \<Rightarrow> bytes" where
  "writeByte B v = B @ [v]"

definition WriteBool :: "bytes \<Rightarrow> bool \<Rightarrow> bytes" where
  "WriteBool B v = (if v then writeByte B 1 else writeByte B 0)"

definition WriteUint16 :: "bytes \<Rightarrow> u16 \<Rightarrow> bytes" where
  "WriteUint16 B v = B @ be_bytes 2 v"

definition WriteUint32 :: "bytes \<Rightarrow> u32 \<Rightarrow> bytes" where
  "WriteUint32 B v = B @ be_bytes 4 v"

definition WriteUint64 :: "bytes \<Rightarrow> u64 \<Rightarrow> bytes" where
  "WriteUint64 B v = B @ be_bytes 8 v"

definition WriteBytes :: "bytes \<Rightarrow> bytes \<Rightarrow> bytes" where
  "WriteBytes B v =
     (let n = (if length v > 65536 then 65536 else length v);
          B' = WriteUint16 B (of_nat n)
      in if length v > 0 then B' @ take n v else B')"

definition WriteString :: "bytes \<Rightarrow> string \<Rightarrow> bytes" where
  "WriteString B v = WriteBytes B (bytes_of_string v)"

section \<open>The reader\<close>

definition ErrNotEnough :: go_error where
  "ErrNotEnough = GoError ''not enough data for read''"

definition ReadByte :: "bytes \<Rightarrow> (go_error + byte) \<times> bytes" where
  "ReadByte B = (if length B < 1 then (Inl ErrNotEnough, B) else (Inr (B ! 0), drop 1 B))"

definition ReadBool :: "bytes \<Rightarrow> (go_error + bool) \<times> bytes" where
  "ReadBool B = (case ReadByte B of (Inl err, B') \<Rightarrow> (Inl err, B') | (Inr b, B') \<Rightarrow> (Inr (b = 1), B'))"

definition ReadUint16 :: "bytes \<Rightarrow> (go_error + u16) \<times> bytes" where
  "ReadUint16 B = (if length B < 2 then (Inl ErrNotEnough, B) else (Inr (of_be (take 2 B)), drop 2 B))"

definition ReadUint32 :: "bytes \<Rightarrow> (go_error + u32) \<times> bytes" where
  "ReadUint32 B = (if length B < 4 then (Inl ErrNotEnough, B) else (Inr (of_be (take 4 B)), drop 4 B))"

definition ReadUint64 :: "bytes \<Rightarrow> (go_error + u64) \<times> bytes" where
  "ReadUint64 B = (if length B < 8 then (Inl ErrNotEnough, B) else (Inr (of_be (take 8 B)), drop 8 B))"

definition ReadBytes :: "bytes \<Rightarrow> (go_error + bytes) \<times> bytes" where
  "ReadBytes B =
     (case ReadUint16 B of
        (Inl err, B') \<Rightarrow> (Inl err, B')
      | (Inr n, B') \<Rightarrow>
          if n > 0 then
            (if length B' < unat n then (Inl ErrNotEnough, B')
             else (Inr (take (unat n) B'), drop (unat n) B'))
          else (Inr [], B'))"

definition ReadString :: "bytes \<Rightarrow> (go_error + string) \<times> bytes" where
  "ReadString B =
     (case ReadUint16 B of
        (Inl err, B') \<Rightarrow> (Inl err, B')
      | (Inr n, B') \<Rightarrow>
          if n > 0 then
            (if length B' < unat n then (Inl ErrNotEnough, B')
             else (Inr (string_of_bytes (take (unat n) B')), drop (unat n) B'))
          else (Inr [], B'))"

interpretation rpcb: wire_reader "\<lambda>B. B" "\<lambda>_. True" ReadByte ReadUint16 ReadUint32 ReadUint64
  by unfold_locales (auto simp: ReadByte_def ReadUint16_def ReadUint32_def ReadUint64_def)

section \<open>What is written is read\<close>

lemma WriteMessage_ok:
  assumes "codec_appends c marshal" "v \<noteq> INil" "marshal v = Inr b"
  shows "WriteMessage B c v = (None, B @ be_bytes 2 (of_nat (length b) :: u16) @ b)"
proof -
  have "patch (B @ [0, 0] @ b) (length B) (be_bytes 2 (of_nat (length b) :: u16)) =
      B @ be_bytes 2 (of_nat (length b) :: u16) @ b"
    by (rule patch_mid) simp_all
  then show ?thesis
    using assms by (simp add: WriteMessage_def codec_appends_def Let_def)
qed

lemma WriteMessage_err:
  assumes "codec_appends c marshal" "v \<noteq> INil" "marshal v = Inl err"
  shows "WriteMessage B c v = (Some err, B @ [0, 0])"
  using assms by (simp add: WriteMessage_def codec_appends_def Let_def)

lemma WriteMessage_nil: "WriteMessage B c INil = (None, B @ be_bytes 2 (0 :: u16))"
  by (simp add: WriteMessage_def be_bytes_def numeral_2_eq_2)

lemma WriteBytes_eq:
  "length v \<le> 65536 \<Longrightarrow> WriteBytes B v = B @ be_bytes 2 (of_nat (length v) :: u16) @ v"
  by (auto simp: WriteBytes_def WriteUint16_def Let_def)

lemmas write_simps [wire_simps] =
  writeByte_def WriteBool_def WriteUint16_def WriteUint32_def WriteUint64_def WriteString_def

lemma unat_u16: "n < 65536 \<Longrightarrow> unat (of_nat n :: u16) = n"
  by (simp add: unat_of_nat)

lemma Read_simps [wire_simps]:
  "ReadByte (b # t) = (Inr b, t)"
  "ReadBool ((if v then 1 else 0) # t) = (Inr v, t)"
  "ReadUint16 (be_bytes 2 v16 @ t) = (Inr v16, t)"
  "ReadUint32 (be_bytes 4 v32 @ t) = (Inr v32, t)"
  "ReadUint64 (be_bytes 8 v64 @ t) = (Inr v64, t)"
  by (simp_all add: ReadByte_def ReadBool_def ReadUint16_def ReadUint32_def ReadUint64_def)

lemma ReadBytes_prefix [wire_simps]:
  "length v < 65536 \<Longrightarrow> ReadBytes (be_bytes 2 (of_nat (length v) :: u16) @ v @ t) = (Inr v, t)"
  by (auto simp: ReadBytes_def Read_simps unat_u16 word_less_nat_alt)

lemma ReadString_prefix [wire_simps]:
  "length s < 65536 \<Longrightarrow>
   ReadString (be_bytes 2 (of_nat (length s) :: u16) @ bytes_of_string s @ t) = (Inr s, t)"
proof -
  assume s: "length s < 65536"
  have "take (length s) (bytes_of_string s) = bytes_of_string s"
    "drop (length s) (bytes_of_string s) = []"
    by simp_all
  with s show ?thesis
    by (auto simp: ReadString_def Read_simps unat_u16 word_less_nat_alt)
qed

end
