(* ===== verification/Rpc_Msg.thy ===== *)
theory Rpc_Msg
  imports Rpc_Bytes
begin

text \<open>
  The RPC messages and their wire form (\<open>rpc/rpc.go\<close>): error codes, request and response
  records, the two encoders and decoders, and the decoding of an argument or a result.
\<close>

section \<open>Errors and messages\<close>

definition ErrOk :: int where "ErrOk = 0"
definition ErrInvaildMethod :: int where "ErrInvaildMethod = 1"
definition ErrTimeout :: int where "ErrTimeout = 2"
definition ErrCancel :: int where "ErrCancel = 3"
definition ErrMethod :: int where "ErrMethod = 4"
definition ErrOther :: int where "ErrOther = 5"
definition ErrServiceUnavaliable :: int where "ErrServiceUnavaliable = 6"
definition ErrBusy_code :: int where "ErrBusy_code = 7"
definition errEnd :: int where "errEnd = 8"

lemmas rpc_codes =
  ErrOk_def ErrInvaildMethod_def ErrTimeout_def ErrCancel_def ErrMethod_def ErrOther_def
  ErrServiceUnavaliable_def ErrBusy_code_def errEnd_def

text \<open>\<open>NewError\<close> returns nil (here \<open>None\<close>) for a code that is not an error code.\<close>

definition NewError :: "int \<Rightarrow> string \<Rightarrow> rpc_error option" where
  "NewError code err = (if code \<le> 0 \<or> code \<ge> errEnd then None else Some (Error code err))"

definition IsCode :: "rpc_error \<Rightarrow> int \<Rightarrow> bool" where
  "IsCode e code \<longleftrightarrow> ecode e = code"

text \<open>\<open>Error.Error\<close>, and the text of any other error.\<close>

fun error_Error :: "go_error \<Rightarrow> string" where
  "error_Error (GoError s) = s"
| "error_Error (RpcErr e) = estr e"

record 'v RequestMsg =
  Seq :: u64
  Method :: string
  Arg :: "'v iface"
  UserData :: bytes
  Oneway :: bool
  reqCodec :: "'v Codec option"

record 'v ResponseMsg =
  rSeq :: u64
  Err :: "rpc_error option"
  Ret :: "'v iface"
  rUserData :: bytes
  respCodec :: "'v Codec option"

definition maxUserData :: nat where "maxUserData = 65536"
definition maxMethodLen :: nat where "maxMethodLen = 65536"
definition maxErrStrLen :: nat where "maxErrStrLen = 65536"

section \<open>Encoding\<close>

text \<open>
  The encoders return the buffer and the error, if any, and also the message, because
  they cut its user data down to \<open>maxUserData\<close> in place.
\<close>

definition EncodeRequest ::
    "bytes \<Rightarrow> 'v RequestMsg \<Rightarrow> 'v Codec \<Rightarrow> (bytes \<times> go_error option) \<times> 'v RequestMsg" where
  "EncodeRequest dst req codec =
     (let methodb = bytes_of_string (Method req);
          methodb = (if length methodb > maxMethodLen then take maxMethodLen methodb else methodb);
          req = (if length (UserData req) > maxUserData
                 then req\<lparr>UserData := take maxUserData (UserData req)\<rparr> else req);
          B = dst;
          B = WriteUint64 B (Seq req);
          B = WriteBool B (Oneway req);
          B = WriteBytes B methodb;
          B = WriteBytes B (UserData req)
      in (case WriteMessage B codec (Arg req) of
            (Some err, B') \<Rightarrow> ((B', Some err), req)
          | (None, B') \<Rightarrow> ((B', None), req)))"

definition EncodeResponse ::
    "bytes \<Rightarrow> 'v ResponseMsg \<Rightarrow> 'v Codec \<Rightarrow> (bytes \<times> go_error option) \<times> 'v ResponseMsg" where
  "EncodeResponse dst resp codec =
     (let resp = (if length (rUserData resp) > maxUserData
                  then resp\<lparr>rUserData := take maxUserData (rUserData resp)\<rparr> else resp);
          errByte = (case Err resp of
                       None \<Rightarrow> []
                     | Some e \<Rightarrow>
                         let eb = bytes_of_string (estr e)
                         in if length eb > maxErrStrLen then take maxErrStrLen eb else eb);
          B = dst;
          B = WriteUint64 B (rSeq resp);
          B = WriteBytes B (rUserData resp);
          B = (case Err resp of
                 Some e \<Rightarrow> WriteBytes (WriteUint16 B (word_of_int (ecode e))) errByte
               | None \<Rightarrow> WriteUint16 B 0)
      in (case WriteMessage B codec (Ret resp) of
            (Some err, B') \<Rightarrow> ((B', Some err), resp)
          | (None, B') \<Rightarrow> ((B', None), resp)))"

section \<open>Decoding\<close>

definition DecodeRequest :: "bytes \<Rightarrow> 'v Codec option \<Rightarrow> go_error + 'v RequestMsg" where
  "DecodeRequest buff codec =
     (case ReadUint64 buff of (Inl err, _) \<Rightarrow> Inl err | (Inr seq, B1) \<Rightarrow>
     (case ReadBool B1 of (Inl err, _) \<Rightarrow> Inl err | (Inr oneway, B2) \<Rightarrow>
     (case ReadString B2 of (Inl err, _) \<Rightarrow> Inl err | (Inr methodn, B3) \<Rightarrow>
     (case ReadBytes B3 of (Inl err, _) \<Rightarrow> Inl err | (Inr userdata, B4) \<Rightarrow>
     (case ReadBytes B4 of (Inl err, _) \<Rightarrow> Inl err | (Inr arg, B5) \<Rightarrow>
        Inr \<lparr>Seq = seq, Method = methodn, Arg = IBytes arg, UserData = userdata,
             Oneway = oneway, reqCodec = codec\<rparr>)))))"

definition DecodeResponse :: "bytes \<Rightarrow> 'v Codec option \<Rightarrow> go_error + 'v ResponseMsg" where
  "DecodeResponse buff codec =
     (case ReadUint64 buff of (Inl err, _) \<Rightarrow> Inl err | (Inr seq, B1) \<Rightarrow>
     (case ReadBytes B1 of (Inl err, _) \<Rightarrow> Inl err | (Inr userdata, B2) \<Rightarrow>
     (case ReadUint16 B2 of (Inl err, _) \<Rightarrow> Inl err | (Inr errCode, B3) \<Rightarrow>
     (case (if errCode \<noteq> 0
            then (case ReadString B3 of
                    (Inl err, B') \<Rightarrow> (Inl err, B')
                  | (Inr errStr, B') \<Rightarrow> (Inr (NewError (uint errCode) errStr), B'))
            else (Inr None, B3)) of (Inl err, _) \<Rightarrow> Inl err | (Inr e, B4) \<Rightarrow>
     (case ReadBytes B4 of (Inl err, _) \<Rightarrow> Inl err | (Inr ret, B5) \<Rightarrow>
        Inr \<lparr>rSeq = seq, Err = e, Ret = IBytes ret, rUserData = userdata, respCodec = codec\<rparr>)))))"

text \<open>
  \<open>decodeInto\<close>: nil leaves the destination as it is, a byte slice goes through the codec,
  any other value is copied. The copy by reflection (\<open>copyValue\<close>) is a parameter.
\<close>

definition decodeInto ::
    "('v \<Rightarrow> 'v \<Rightarrow> go_error + 'v) \<Rightarrow> 'v Codec option \<Rightarrow> 'v iface \<Rightarrow> 'v \<Rightarrow> go_error + 'v" where
  "decodeInto copyValue codec payload dst =
     (case payload of
        INil \<Rightarrow> Inr dst
      | IBytes v \<Rightarrow>
          (case codec of
             None \<Rightarrow> Inl (GoError ''rpc: no codec to decode payload'')
           | Some c \<Rightarrow> codec_Decode c v dst)
      | IObj v \<Rightarrow> copyValue dst v)"

definition decodeArgInto ::
    "('v \<Rightarrow> 'v \<Rightarrow> go_error + 'v) \<Rightarrow> 'v RequestMsg \<Rightarrow> 'v \<Rightarrow> go_error + 'v" where
  "decodeArgInto copyValue r dst = decodeInto copyValue (reqCodec r) (Arg r) dst"

definition decodeRet ::
    "('v \<Rightarrow> 'v \<Rightarrow> go_error + 'v) \<Rightarrow> 'v ResponseMsg \<Rightarrow> 'v \<Rightarrow> go_error + 'v" where
  "decodeRet copyValue r dst = decodeInto copyValue (respCodec r) (Ret r) dst"

section \<open>The encoded length and the body\<close>

text \<open>The bytes an argument or result contributes after its length prefix.\<close>

definition body_of :: "('v iface \<Rightarrow> go_error + bytes) \<Rightarrow> 'v iface \<Rightarrow> go_error + bytes" where
  "body_of marshal v = (if v = INil then Inr [] else marshal v)"

lemma WriteMessage_body:
  assumes "codec_appends c marshal"
  shows "WriteMessage B c v =
    (case body_of marshal v of
       Inl err \<Rightarrow> (Some err, B @ [0, 0])
     | Inr b \<Rightarrow> (None, B @ be_bytes 2 (of_nat (length b) :: u16) @ b))"
  using assms WriteMessage_ok WriteMessage_err WriteMessage_nil [of B c]
  by (auto simp: body_of_def split: sum.splits)

definition request_wire :: "'v RequestMsg \<Rightarrow> bytes \<Rightarrow> bytes" where
  "request_wire req b =
     be_bytes 8 (Seq req) @ [if Oneway req then 1 else 0] @
     be_bytes 2 (of_nat (length (Method req)) :: u16) @ bytes_of_string (Method req) @
     be_bytes 2 (of_nat (length (UserData req)) :: u16) @ UserData req @
     be_bytes 2 (of_nat (length b) :: u16) @ b"

definition response_wire :: "'v ResponseMsg \<Rightarrow> bytes \<Rightarrow> bytes" where
  "response_wire resp b =
     be_bytes 8 (rSeq resp) @
     be_bytes 2 (of_nat (length (rUserData resp)) :: u16) @ rUserData resp @
     (case Err resp of
        None \<Rightarrow> be_bytes 2 (0 :: u16)
      | Some e \<Rightarrow> be_bytes 2 (word_of_int (ecode e) :: u16) @
          be_bytes 2 (of_nat (length (estr e)) :: u16) @ bytes_of_string (estr e)) @
     be_bytes 2 (of_nat (length b) :: u16) @ b"

lemma EncodeRequest_wire:
  assumes "codec_appends c marshal" "length (Method req) \<le> 65536" "length (UserData req) \<le> 65536"
  shows "EncodeRequest dst req c =
    (case body_of marshal (Arg req) of
       Inl err \<Rightarrow> ((fst (fst (EncodeRequest dst req c)), Some err), req)
     | Inr b \<Rightarrow> ((dst @ request_wire req b, None), req))"
  using assms
  by (simp add: EncodeRequest_def maxMethodLen_def maxUserData_def WriteMessage_body write_simps
      WriteBytes_eq request_wire_def Let_def split: sum.splits)

lemma EncodeResponse_wire:
  assumes "codec_appends c marshal" "length (rUserData resp) \<le> 65536"
    "\<forall>e. Err resp = Some e \<longrightarrow> length (estr e) \<le> 65536"
  shows "EncodeResponse dst resp c =
    (case body_of marshal (Ret resp) of
       Inl err \<Rightarrow> ((fst (fst (EncodeResponse dst resp c)), Some err), resp)
     | Inr b \<Rightarrow> ((dst @ response_wire resp b, None), resp))"
  using assms
  by (auto simp: EncodeResponse_def maxErrStrLen_def maxUserData_def WriteMessage_body write_simps
      WriteBytes_eq response_wire_def Let_def split: sum.splits option.splits)

lemma DecodeRequest_wire:
  assumes "length (Method req) < 65536" "length (UserData req) < 65536" "length b < 65536"
  shows "DecodeRequest (request_wire req b @ t) codec = Inr (req\<lparr>Arg := IBytes b, reqCodec := codec\<rparr>)"
  using assms by (simp add: DecodeRequest_def request_wire_def wire_simps)

lemma uint_err_code: "0 < k \<Longrightarrow> k < errEnd \<Longrightarrow> uint (word_of_int k :: u16) = k"
  by (simp add: uint_word_of_int errEnd_def)

lemma err_code_nonzero: "0 < k \<Longrightarrow> k < errEnd \<Longrightarrow> (word_of_int k :: u16) \<noteq> 0"
  using uint_err_code [of k] by force

lemma DecodeResponse_wire:
  assumes "length (rUserData resp) < 65536" "length b < 65536"
    "\<forall>e. Err resp = Some e \<longrightarrow> length (estr e) < 65536 \<and> NewError (ecode e) (estr e) = Some e"
  shows "DecodeResponse (response_wire resp b @ t) codec =
    Inr (resp\<lparr>Ret := IBytes b, respCodec := codec\<rparr>)"
proof (cases "Err resp")
  case None
  then show ?thesis using assms by (simp add: DecodeResponse_def response_wire_def wire_simps)
next
  case (Some e)
  with assms have "0 < ecode e" "ecode e < errEnd"
    by (auto simp: NewError_def split: if_splits)
  then show ?thesis
    using assms Some
    by (simp add: DecodeResponse_def response_wire_def wire_simps uint_err_code err_code_nonzero)
qed

text \<open>
  The general form, without a bound on the lengths: the encoders cut every field at
  65536 bytes, and with an error they leave the destination followed by a part of the
  encoding.
\<close>

definition cut_request :: "'v RequestMsg \<Rightarrow> 'v RequestMsg" where
  "cut_request req = req\<lparr>Method := take 65536 (Method req), UserData := take 65536 (UserData req)\<rparr>"

definition cut_response :: "'v ResponseMsg \<Rightarrow> 'v ResponseMsg" where
  "cut_response resp = resp\<lparr>rUserData := take 65536 (rUserData resp),
     Err := map_option (\<lambda>e. Error (ecode e) (take 65536 (estr e))) (Err resp)\<rparr>"

lemma WriteBytes_cut: "WriteBytes B v = B @ be_bytes 2 (of_nat (length (take 65536 v)) :: u16) @ take 65536 v"
  by (simp add: WriteBytes_def WriteUint16_def Let_def)

lemma cut_if: "(if length xs > n then take n xs else xs) = take n xs"
  by simp

lemma bytes_of_string_take: "take n (bytes_of_string s) = bytes_of_string (take n s)"
  by (simp add: bytes_of_string_def take_map)

lemma cut_UserData:
  "(if length (UserData req) > n then req\<lparr>UserData := take n (UserData req)\<rparr> else req) =
     req\<lparr>UserData := take n (UserData req)\<rparr>"
  by simp

lemma cut_rUserData:
  "(if length (rUserData r) > n then r\<lparr>rUserData := take n (rUserData r)\<rparr> else r) =
     r\<lparr>rUserData := take n (rUserData r)\<rparr>"
  by simp

lemma EncodeRequest_cut:
  assumes "codec_appends c marshal"
  shows "\<exists>x. fst (EncodeRequest dst req c) =
    (case body_of marshal (Arg req) of
       Inl err \<Rightarrow> (dst @ x, Some err)
     | Inr b \<Rightarrow> (dst @ request_wire (cut_request req) b, None))"
  unfolding EncodeRequest_def Let_def cut_if cut_UserData maxMethodLen_def maxUserData_def
    bytes_of_string_take
  using assms
  by (auto simp: WriteMessage_body write_simps WriteBytes_cut request_wire_def cut_request_def
      bytes_of_string_take split: sum.splits)

lemma EncodeResponse_cut:
  assumes "codec_appends c marshal"
  shows "\<exists>x. fst (EncodeResponse dst resp c) =
    (case body_of marshal (Ret resp) of
       Inl err \<Rightarrow> (dst @ x, Some err)
     | Inr b \<Rightarrow> (dst @ response_wire (cut_response resp) b, None))"
  unfolding EncodeResponse_def Let_def cut_if cut_rUserData maxErrStrLen_def maxUserData_def
    bytes_of_string_take
  using assms
  by (cases "Err resp") (auto simp: WriteMessage_body write_simps WriteBytes_cut response_wire_def
      cut_response_def bytes_of_string_take split: sum.splits)

text \<open>A short encoding shows that nothing was cut.\<close>

lemma short_request_wire:
  assumes "length (request_wire (cut_request req) b) < 65536"
  shows "cut_request req = req \<and> length (Method req) < 65536 \<and> length (UserData req) < 65536 \<and>
    length b < 65536"
  using assms by (auto simp: request_wire_def cut_request_def)

lemma short_response_wire:
  assumes "length (response_wire (cut_response resp) b) < 65536"
  shows "cut_response resp = resp \<and> length (rUserData resp) < 65536 \<and> length b < 65536 \<and>
    (\<forall>e. Err resp = Some e \<longrightarrow> length (estr e) < 65536)"
  using assms by (cases "Err resp") (auto simp: response_wire_def cut_response_def)

section \<open>Properties\<close>

text \<open>
  C29. A request is decoded as it was sent: with a codec that appends the marshalled
  argument, and a method name, user data and marshalled argument of at most 65535 bytes
  each, \<open>EncodeRequest\<close> appends bytes to the destination from which \<open>DecodeRequest\<close> makes
  the same request, with the argument in its wire form.
\<close>

theorem request_roundtrip:
  assumes "codec_appends c marshal" "body_of marshal (Arg req) = Inr b"
    and "length (Method req) < 65536" "length (UserData req) < 65536" "length b < 65536"
  shows "\<exists>w. EncodeRequest dst req c = ((dst @ w, None), req) \<and>
    DecodeRequest w codec = Inr (req\<lparr>Arg := IBytes b, reqCodec := codec\<rparr>)"
  using assms EncodeRequest_wire [of c marshal req dst] DecodeRequest_wire [of req b "[]" codec]
  by simp

definition byte_codec :: "bytes Codec" where
  "byte_codec = \<lparr>codec_Encode = (\<lambda>dst v. case v of IObj b \<Rightarrow> Inr (dst @ b)
       | IBytes b \<Rightarrow> Inr (dst @ b) | INil \<Rightarrow> Inr dst),
     codec_Decode = (\<lambda>b v. Inr b)\<rparr>"

definition byte_marshal :: "bytes iface \<Rightarrow> go_error + bytes" where
  "byte_marshal v = (case v of IObj b \<Rightarrow> Inr b | IBytes b \<Rightarrow> Inr b | INil \<Rightarrow> Inr [])"

lemma byte_codec_appends: "codec_appends byte_codec byte_marshal"
  by (simp add: codec_appends_def byte_codec_def byte_marshal_def split: iface.splits)

theorem request_roundtrip_witness:
  "\<exists>w. EncodeRequest [9] \<lparr>Seq = 7, Method = ''echo'', Arg = IObj [1, 2], UserData = [3],
      Oneway = False, reqCodec = None\<rparr> byte_codec =
      (([9] @ w, None), \<lparr>Seq = 7, Method = ''echo'', Arg = IObj [1, 2], UserData = [3],
      Oneway = False, reqCodec = None\<rparr>) \<and>
    DecodeRequest w (Some byte_codec) = Inr \<lparr>Seq = 7, Method = ''echo'', Arg = IBytes [1, 2],
      UserData = [3], Oneway = False, reqCodec = Some byte_codec\<rparr>"
  using request_roundtrip [OF byte_codec_appends, of "\<lparr>Seq = 7, Method = ''echo'',
      Arg = IObj [1, 2], UserData = [3], Oneway = False, reqCodec = None\<rparr>" "[1, 2]" "[9]"
      "Some byte_codec"]
  by (simp add: body_of_def byte_marshal_def)

text \<open>
  A response is decoded as it was sent, errors included: the error of a response made
  with \<open>NewError\<close> (codes 1 to 7) arrives with its code and message, and a response without
  an error arrives without one.
\<close>

lemma response_roundtrip:
  assumes "codec_appends c marshal" "body_of marshal (Ret resp) = Inr b"
    and "length (rUserData resp) < 65536" "length b < 65536"
    and "\<forall>e. Err resp = Some e \<longrightarrow> length (estr e) < 65536 \<and> NewError (ecode e) (estr e) = Some e"
  shows "\<exists>w. EncodeResponse dst resp c = ((dst @ w, None), resp) \<and>
    DecodeResponse w codec = Inr (resp\<lparr>Ret := IBytes b, respCodec := codec\<rparr>)"
proof -
  have "\<forall>e. Err resp = Some e \<longrightarrow> length (estr e) \<le> 65536" using assms(5) by force
  then show ?thesis
    using assms EncodeResponse_wire [of c marshal resp dst] DecodeResponse_wire [of resp b "[]" codec]
    by simp
qed

text \<open>
  The 16-bit length prefix cannot hold the limit \<open>maxUserData\<close>: user data of 65536
  bytes or more is cut to 65536 bytes and announced with length 0, so whatever the
  receiver decodes has empty user data.
\<close>

lemma request_userdata_wraps:
  assumes "codec_appends c marshal" "body_of marshal (Arg req) = Inr b"
    and "length (Method req) < 65536" "65536 \<le> length (UserData req)"
  shows "\<exists>w. fst (EncodeRequest [] req c) = (w, None) \<and>
    (\<forall>req'. DecodeRequest w codec = Inr req' \<longrightarrow> UserData req' = [])"
proof -
  define w where "w = be_bytes 8 (Seq req) @ [if Oneway req then 1 else 0] @
     be_bytes 2 (of_nat (length (Method req)) :: u16) @ bytes_of_string (Method req) @
     be_bytes 2 (of_nat (length ([] :: bytes)) :: u16) @ [] @ take 65536 (UserData req) @
     be_bytes 2 (of_nat (length b) :: u16) @ b"
  have wrap: "be_bytes 2 (65536 :: u16) = be_bytes 2 (0 :: u16)"
    by (rule arg_cong [of _ _ "be_bytes 2"]) simp
  then have "fst (EncodeRequest [] req c) = (w, None)"
    using assms
    by (auto simp: wrap EncodeRequest_def maxMethodLen_def maxUserData_def write_simps WriteBytes_eq
        WriteMessage_body w_def Let_def)
  moreover have "UserData req' = []" if "DecodeRequest w codec = Inr req'" for req'
  proof -
    have "ReadBytes (be_bytes 2 (of_nat (length ([] :: bytes)) :: u16) @ [] @ t) = (Inr [], t)" for t
      by (rule ReadBytes_prefix) simp
    then show ?thesis using that assms(3)
      by (simp add: w_def DecodeRequest_def Read_simps ReadString_prefix case_prod_unfold
          split: sum.splits) fastforce
  qed
  ultimately show ?thesis by blast
qed

end
