(* ===== verification/SS_Codec.thy ===== *)
theory SS_Codec
  imports Addr Buffer Rpc_Msg Pb_Meta
begin

text \<open>
  The node-to-node messages and their codec (\<open>codec/ss/message.go\<close>, \<open>codec/ss/codec.go\<close>):
  a frame is a 4-byte length, a flag byte with the message type, the logical addresses of
  target and source, and the body. A node decodes the frames addressed to itself and keeps
  the others as they are, to pass them on.

  Parameters: the protobuf runtime \<open>P\<close>, the package variable \<open>socket.MaxPacketSize\<close> and the
  buffer that \<open>poolbuff.Get\<close> (third-party package netgo) hands out.
\<close>

section \<open>Messages\<close>

definition sizeLen :: nat where "sizeLen = 4"
definition minSize :: nat where "minSize = 13"

definition PbMsg :: byte where "PbMsg = 1"
definition BinMsg :: byte where "BinMsg = 2"
definition RpcReq :: byte where "RpcReq = 3"
definition RpcResp :: byte where "RpcResp = 4"
definition MaskMessageType :: byte where "MaskMessageType = 7"

lemmas msg_types = PbMsg_def BinMsg_def RpcReq_def RpcResp_def MaskMessageType_def

definition setMsgType :: "byte \<Rightarrow> byte \<Rightarrow> byte" where
  "setMsgType flag tt = (if tt \<in> {PbMsg, BinMsg, RpcReq, RpcResp} then flag OR tt else flag)"

definition getMsgType :: "byte \<Rightarrow> byte" where
  "getMsgType flag = flag AND MaskMessageType"

text \<open>The dynamic types a payload can have that the codec tells apart.\<close>

datatype ('m, 'v) payload =
  PBin bytes | PProto 'm | PReq "'v RequestMsg" | PResp "'v ResponseMsg" | POther

record ('m, 'v) Message =
  cmd :: u16
  to :: logic_addr
  from' :: logic_addr
  payload :: "('m, 'v) payload"

record RelayMessage =
  rto :: logic_addr
  rfrom :: logic_addr
  rpayload :: bytes

datatype ('m, 'v) packet = Msg "('m, 'v) Message" | Relay RelayMessage | OtherPacket

definition NewMessage ::
    "logic_addr \<Rightarrow> logic_addr \<Rightarrow> ('m, 'v) payload \<Rightarrow> u16 list \<Rightarrow> ('m, 'v) Message" where
  "NewMessage t f p cmds =
     (let msg = \<lparr>cmd = 0, to = t, from' = f, payload = p\<rparr>
      in if length cmds > 0 then msg\<lparr>cmd := hd cmds\<rparr> else msg)"

definition NewRelayMessage :: "bytes \<Rightarrow> logic_addr \<Rightarrow> logic_addr \<Rightarrow> bytes \<Rightarrow> RelayMessage" where
  "NewRelayMessage pooled t f p =
     (let w = NeWriter BigEndian;
          b = AppendUint32 w pooled (of_nat (length p))
      in \<lparr>rto = t, rfrom = f, rpayload = AppendBytes w b p\<rparr>)"

definition GetRpcRequest :: "RelayMessage \<Rightarrow> 'v RequestMsg option" where
  "GetRpcRequest m =
     (if length (rpayload m) < minSize then None
      else if getMsgType (rpayload m ! 4) \<noteq> RpcReq then None
      else (case DecodeRequest (drop minSize (rpayload m)) None of
              Inl err \<Rightarrow> None
            | Inr req \<Rightarrow> Some req))"

section \<open>The codec\<close>

record 'v SSCodec =
  selfAddr :: logic_addr
  rpcCodec :: "'v Codec"
  reader :: BufferReader
  pbMeta :: "PbMeta option"

definition Namespace :: string where "Namespace = ''ss''"

definition NewCodec :: "(string \<rightharpoonup> PbMeta) \<Rightarrow> logic_addr \<Rightarrow> 'v Codec \<Rightarrow> 'v SSCodec" where
  "NewCodec nameSpace self c =
     \<lparr>selfAddr = self, rpcCodec = c, reader = NewReader BigEndian [],
      pbMeta = GetMeta nameSpace Namespace\<rparr>"

definition appendSSHeader :: "bytes \<Rightarrow> ('m, 'v) Message \<Rightarrow> byte \<Rightarrow> bytes \<times> nat" where
  "appendSSHeader dst m flag =
     (let mark = length dst;
          dst = dst @ [0, 0, 0, 0];
          dst = dst @ [flag];
          w = NeWriter BigEndian;
          dst = AppendUint32 w dst (to m);
          dst = AppendUint32 w dst (from' m)
      in (dst, mark))"

definition finalizeFrame :: "nat \<Rightarrow> bytes \<Rightarrow> nat \<Rightarrow> bytes \<times> nat" where
  "finalizeFrame MaxPacketSize dst mark =
     (let totalLen = length dst - mark
      in if totalLen > MaxPacketSize then (take mark dst, 0)
         else (patch dst mark (be_bytes 4 (of_nat (totalLen - sizeLen) :: u32)), totalLen))"

text \<open>
  \<open>Encode\<close> returns the buffer and the number of bytes appended. A protobuf message sent
  through a codec without a registry dereferences a nil pointer (\<open>None\<close>).
\<close>

definition Encode ::
    "'m Proto \<Rightarrow> nat \<Rightarrow> 'v SSCodec \<Rightarrow> bytes \<Rightarrow> ('m, 'v) packet \<Rightarrow> (bytes \<times> nat) option" where
  "Encode P MaxPacketSize ss dst pkt =
     (case pkt of
        Msg m \<Rightarrow>
          (case payload m of
             PBin msg \<Rightarrow>
               if length msg = 0 then Some (dst, 0)
               else
                 let (dst, mark) = appendSSHeader dst m (setMsgType 0 BinMsg);
                     dst = AppendUint16 (NeWriter BigEndian) dst (cmd m);
                     dst = dst @ msg
                 in Some (finalizeFrame MaxPacketSize dst mark)
           | PProto msg \<Rightarrow>
               let (dst, mark) = appendSSHeader dst m (setMsgType 0 PbMsg);
                   cmdMark = length dst;
                   dst = AppendUint16 (NeWriter BigEndian) dst 0
               in (case pbMeta ss of
                     None \<Rightarrow> None
                   | Some meta \<Rightarrow>
                       (case Marshal P meta dst msg of
                          Inl err \<Rightarrow> Some (take mark dst, 0)
                        | Inr (dst, c) \<Rightarrow>
                            let dst = patch dst cmdMark (be_bytes 2 (ucast c :: u16))
                            in Some (finalizeFrame MaxPacketSize dst mark)))
           | PReq msg \<Rightarrow>
               let (dst, mark) = appendSSHeader dst m (setMsgType 0 RpcReq)
               in (case fst (EncodeRequest dst msg (rpcCodec ss)) of
                     (dst, Some e) \<Rightarrow> Some (take mark dst, 0)
                   | (dst, None) \<Rightarrow> Some (finalizeFrame MaxPacketSize dst mark))
           | PResp msg \<Rightarrow>
               let (dst, mark) = appendSSHeader dst m (setMsgType 0 RpcResp)
               in (case fst (EncodeResponse dst msg (rpcCodec ss)) of
                     (dst, Some e) \<Rightarrow> Some (take mark dst, 0)
                   | (dst, None) \<Rightarrow> Some (finalizeFrame MaxPacketSize dst mark))
           | POther \<Rightarrow> Some (dst, 0))
      | Relay o' \<Rightarrow> Some (dst @ rpayload o', length (rpayload o'))
      | OtherPacket \<Rightarrow> Some (dst, 0))"

definition isTarget :: "'v SSCodec \<Rightarrow> logic_addr \<Rightarrow> bool" where
  "isTarget ss t \<longleftrightarrow> selfAddr ss = t"

definition Decode ::
    "'m Proto \<Rightarrow> bytes \<Rightarrow> 'v SSCodec \<Rightarrow> bytes \<Rightarrow>
     ((go_error + ('m, 'v) packet) \<times> 'v SSCodec) option" where
  "Decode P pooled ss p =
     (let r0 = Reset (reader ss) p;
          (flag, r1) = GetByte r0;
          (t, r2) = GetUint32 r1;
          (f, r3) = GetUint32 r2
      in if isTarget ss t then
           (if getMsgType flag = BinMsg then
              let (c, r4) = GetUint16 r3
              in (case GetAll r4 of
                    None \<Rightarrow> None
                  | Some data \<Rightarrow>
                      Some (Inr (Msg (NewMessage t f (PBin data) [c])), ss\<lparr>reader := r4\<rparr>))
            else if getMsgType flag = PbMsg then
              let (c, r4) = GetUint16 r3
              in (case GetAll r4 of
                    None \<Rightarrow> None
                  | Some data \<Rightarrow>
                      (case pbMeta ss of
                         None \<Rightarrow> None
                       | Some meta \<Rightarrow>
                           (case Unmarshal P meta (ucast c) data of
                              Inl err \<Rightarrow> Some (Inl err, ss\<lparr>reader := r4\<rparr>)
                            | Inr msg \<Rightarrow>
                                Some (Inr (Msg (NewMessage t f (PProto msg) [c])), ss\<lparr>reader := r4\<rparr>))))
            else if getMsgType flag = RpcReq then
              (case GetAll r3 of
                 None \<Rightarrow> None
               | Some data \<Rightarrow>
                   (case DecodeRequest data (Some (rpcCodec ss)) of
                      Inl err \<Rightarrow> Some (Inl err, ss\<lparr>reader := r3\<rparr>)
                    | Inr req \<Rightarrow>
                        Some (Inr (Msg (NewMessage t f (PReq req) [])), ss\<lparr>reader := r3\<rparr>)))
            else if getMsgType flag = RpcResp then
              (case GetAll r3 of
                 None \<Rightarrow> None
               | Some data \<Rightarrow>
                   (case DecodeResponse data (Some (rpcCodec ss)) of
                      Inl err \<Rightarrow> Some (Inl err, ss\<lparr>reader := r3\<rparr>)
                    | Inr resp \<Rightarrow>
                        Some (Inr (Msg (NewMessage t f (PResp resp) [])), ss\<lparr>reader := r3\<rparr>)))
            else Some (Inl (GoError ''invaild packet type''), ss\<lparr>reader := r3\<rparr>))
         else Some (Inr (Relay (NewRelayMessage pooled t f p)), ss\<lparr>reader := r3\<rparr>))"

section \<open>The shape of a frame\<close>

definition frame :: "bytes \<Rightarrow> bytes" where
  "frame p = be_bytes 4 (of_nat (length p) :: u32) @ p"

definition ss_header :: "byte \<Rightarrow> ('m, 'v) Message \<Rightarrow> bytes" where
  "ss_header flag m = flag # be_bytes 4 (to m) @ be_bytes 4 (from' m)"

lemma length_frame [simp]: "length (frame p) = 4 + length p"
  by (simp add: frame_def)

lemma length_ss_header [simp]: "length (ss_header flag m) = 9"
  by (simp add: ss_header_def)

lemma appendSSHeader_eq:
  "appendSSHeader dst m flag = (dst @ [0, 0, 0, 0] @ ss_header flag m, length dst)"
  by (simp add: appendSSHeader_def wire_simps NeWriter_def ss_header_def)

lemma finalizeFrame_eq:
  "finalizeFrame mx (dst @ [0, 0, 0, 0] @ p) (length dst) =
     (if 4 + length p > mx then (dst, 0) else (dst @ frame p, 4 + length p))"
proof -
  have "patch (dst @ [0, 0, 0, 0] @ p) (length dst) (be_bytes 4 (of_nat (length p) :: u32)) =
      dst @ frame p"
    unfolding frame_def by (rule patch_mid) simp_all
  then show ?thesis by (simp add: finalizeFrame_def sizeLen_def)
qed

lemma setMsgType_getMsgType [simp]:
  "getMsgType (setMsgType 0 BinMsg) = BinMsg" "getMsgType (setMsgType 0 PbMsg) = PbMsg"
  "getMsgType (setMsgType 0 RpcReq) = RpcReq" "getMsgType (setMsgType 0 RpcResp) = RpcResp"
  by (simp_all add: getMsgType_def setMsgType_def msg_types)

lemma msg_types_distinct [simp]:
  "BinMsg \<noteq> PbMsg" "PbMsg \<noteq> BinMsg" "RpcReq \<noteq> BinMsg" "BinMsg \<noteq> RpcReq"
  "RpcReq \<noteq> PbMsg" "PbMsg \<noteq> RpcReq" "RpcResp \<noteq> BinMsg" "RpcResp \<noteq> PbMsg"
  "RpcResp \<noteq> RpcReq"
  by (simp_all add: msg_types)

section \<open>What the encoder appends\<close>

text \<open>The end of every branch: the frame with payload \<open>p\<close>, unless it is too large.\<close>

definition emit :: "nat \<Rightarrow> bytes \<Rightarrow> bytes \<Rightarrow> bytes \<times> nat" where
  "emit mx dst p = (if 4 + length p > mx then (dst, 0) else (dst @ frame p, 4 + length p))"

lemma emit_accepted: "emit mx dst p = (dst', n) \<Longrightarrow> 0 < n \<Longrightarrow>
    dst' = dst @ frame p \<and> n = length (frame p) \<and> n \<le> mx"
  by (simp add: emit_def split: if_splits)

lemma Encode_bin:
  assumes "payload m = PBin b"
  shows "Encode P mx ss dst (Msg m) = Some (if b = [] then (dst, 0)
    else emit mx dst (ss_header (setMsgType 0 BinMsg) m @ be_bytes 2 (cmd m) @ b))"
proof -
  have "finalizeFrame mx (dst @ [0, 0, 0, 0] @ ss_header f m @ be_bytes 2 (cmd m) @ b) (length dst) =
      emit mx dst (ss_header f m @ be_bytes 2 (cmd m) @ b)" for f
    unfolding emit_def by (rule finalizeFrame_eq)
  with assms show ?thesis
    by (simp add: Encode_def appendSSHeader_eq wire_simps NeWriter_def)
qed

lemma Encode_proto:
  assumes "payload m = PProto x" "pbMeta ss = Some mt" "proto_ok P pm"
    and "registered mt (TypeOf P x) pid"
  shows "Encode P mx ss dst (Msg m) = Some (case pm x of Inl err \<Rightarrow> (dst, 0)
    | Inr b \<Rightarrow> emit mx dst (ss_header (setMsgType 0 PbMsg) m @ be_bytes 2 (ucast pid :: u16) @ b))"
proof (cases "pm x")
  case (Inl e)
  then show ?thesis
    using assms by (simp add: Encode_def appendSSHeader_eq Marshal_registered wire_simps NeWriter_def)
next
  case (Inr b)
  let ?h = "ss_header (setMsgType 0 PbMsg) m" and ?c = "be_bytes 2 (ucast pid :: u16)"
  have "patch ((dst @ [0, 0, 0, 0] @ ?h) @ be_bytes 2 (0 :: u16) @ b)
      (length (dst @ [0, 0, 0, 0] @ ?h)) ?c = (dst @ [0, 0, 0, 0] @ ?h) @ ?c @ b"
    by (rule patch_mid) simp_all
  moreover have "finalizeFrame mx (dst @ [0, 0, 0, 0] @ ?h @ ?c @ b) (length dst) =
      emit mx dst (?h @ ?c @ b)"
    unfolding emit_def by (rule finalizeFrame_eq)
  ultimately show ?thesis
    using assms Inr by (simp add: Encode_def appendSSHeader_eq Marshal_registered wire_simps NeWriter_def)
qed

lemma Encode_request:
  assumes "payload m = PReq r" "codec_appends (rpcCodec ss) marshal"
  shows "Encode P mx ss dst (Msg m) = Some (case body_of marshal (Arg r) of Inl err \<Rightarrow> (dst, 0)
    | Inr b \<Rightarrow> emit mx dst (ss_header (setMsgType 0 RpcReq) m @ request_wire (cut_request r) b))"
proof -
  let ?h = "dst @ [0, 0, 0, 0] @ ss_header (setMsgType 0 RpcReq) m"
  obtain x where x: "fst (EncodeRequest ?h r (rpcCodec ss)) =
    (case body_of marshal (Arg r) of Inl err \<Rightarrow> (?h @ x, Some err)
     | Inr b \<Rightarrow> (?h @ request_wire (cut_request r) b, None))"
    using EncodeRequest_cut [OF assms(2)] by blast
  have "finalizeFrame mx (?h @ w) (length dst) =
      emit mx dst (ss_header (setMsgType 0 RpcReq) m @ w)" for w
    using finalizeFrame_eq [of mx dst "ss_header (setMsgType 0 RpcReq) m @ w"]
    by (simp add: emit_def)
  with assms x show ?thesis by (simp add: Encode_def appendSSHeader_eq split: sum.splits)
qed

lemma Encode_response:
  assumes "payload m = PResp r" "codec_appends (rpcCodec ss) marshal"
  shows "Encode P mx ss dst (Msg m) = Some (case body_of marshal (Ret r) of Inl err \<Rightarrow> (dst, 0)
    | Inr b \<Rightarrow> emit mx dst (ss_header (setMsgType 0 RpcResp) m @ response_wire (cut_response r) b))"
proof -
  let ?h = "dst @ [0, 0, 0, 0] @ ss_header (setMsgType 0 RpcResp) m"
  obtain x where x: "fst (EncodeResponse ?h r (rpcCodec ss)) =
    (case body_of marshal (Ret r) of Inl err \<Rightarrow> (?h @ x, Some err)
     | Inr b \<Rightarrow> (?h @ response_wire (cut_response r) b, None))"
    using EncodeResponse_cut [OF assms(2)] by blast
  have "finalizeFrame mx (?h @ w) (length dst) =
      emit mx dst (ss_header (setMsgType 0 RpcResp) m @ w)" for w
    using finalizeFrame_eq [of mx dst "ss_header (setMsgType 0 RpcResp) m @ w"]
    by (simp add: emit_def)
  with assms x show ?thesis by (simp add: Encode_def appendSSHeader_eq split: sum.splits)
qed

section \<open>What the decoder returns\<close>

definition codec_ok :: "'v SSCodec \<Rightarrow> bool" where
  "codec_ok ss \<longleftrightarrow> rendian (reader ss) = BigEndian"

lemma NewCodec_ok: "codec_ok (NewCodec ns self c)"
  by (simp add: codec_ok_def NewCodec_def NewReader_def)

lemma read_header:
  assumes "codec_ok ss"
  obtains r1 r2 r3 where
    "GetByte (Reset (reader ss) (ss_header flag m @ body)) = (flag, r1)"
    "GetUint32 r1 = (to m, r2)" "GetUint32 r2 = (from' m, r3)" "remaining r3 = body" "be_reader r3"
proof -
  let ?r = "Reset (reader ss) (ss_header flag m @ body)"
  have "be_reader ?r" "remaining ?r = flag # be_bytes 4 (to m) @ be_bytes 4 (from' m) @ body"
    using assms by (simp_all add: codec_ok_def Reset_be Reset_remaining ss_header_def)
  then show ?thesis
    using buf.read_flag_to_from [of ?r flag "to m" "from' m" body] that
    by (auto simp: unchecked_getters)
qed

lemma read_cmd:
  assumes "be_reader r" "remaining r = be_bytes 2 c @ body"
  obtains r' where "GetUint16 r = (c, r')" "remaining r' = body" "be_reader r'"
  using buf.get16 [OF assms] that by (auto simp: unchecked_getters)

lemma GetAll_be: "be_reader r \<Longrightarrow> GetAll r = Some (remaining r)"
  by (simp add: be_reader_def GetAll_remaining)

lemma Decode_bin:
  assumes "codec_ok ss" "selfAddr ss = to m" "getMsgType flag = BinMsg"
  shows "\<exists>ss'. Decode P pooled ss (ss_header flag m @ be_bytes 2 c @ b) =
    Some (Inr (Msg \<lparr>cmd = c, to = to m, from' = from' m, payload = PBin b\<rparr>), ss')"
proof -
  obtain r1 r2 r3 where r: "GetByte (Reset (reader ss) (ss_header flag m @ be_bytes 2 c @ b)) = (flag, r1)"
    "GetUint32 r1 = (to m, r2)" "GetUint32 r2 = (from' m, r3)" "remaining r3 = be_bytes 2 c @ b"
    "be_reader r3" using read_header [OF assms(1)] .
  obtain r4 where "GetUint16 r3 = (c, r4)" "remaining r4 = b" "be_reader r4"
    using read_cmd [OF r(5,4)] .
  with r assms show ?thesis
    by (simp add: Decode_def isTarget_def GetAll_be NewMessage_def)
qed

lemma Decode_proto:
  assumes "codec_ok ss" "selfAddr ss = to m" "getMsgType flag = PbMsg" "pbMeta ss = Some mt"
    and "Unmarshal P mt (ucast c) b = Inr x"
  shows "\<exists>ss'. Decode P pooled ss (ss_header flag m @ be_bytes 2 c @ b) =
    Some (Inr (Msg \<lparr>cmd = c, to = to m, from' = from' m, payload = PProto x\<rparr>), ss')"
proof -
  obtain r1 r2 r3 where r: "GetByte (Reset (reader ss) (ss_header flag m @ be_bytes 2 c @ b)) = (flag, r1)"
    "GetUint32 r1 = (to m, r2)" "GetUint32 r2 = (from' m, r3)" "remaining r3 = be_bytes 2 c @ b"
    "be_reader r3" using read_header [OF assms(1)] .
  obtain r4 where "GetUint16 r3 = (c, r4)" "remaining r4 = b" "be_reader r4"
    using read_cmd [OF r(5,4)] .
  with r assms show ?thesis
    by (simp add: Decode_def isTarget_def GetAll_be NewMessage_def)
qed

lemma Decode_request:
  assumes "codec_ok ss" "selfAddr ss = to m" "getMsgType flag = RpcReq"
    and "DecodeRequest b (Some (rpcCodec ss)) = Inr r"
  shows "\<exists>ss'. Decode P pooled ss (ss_header flag m @ b) =
    Some (Inr (Msg \<lparr>cmd = 0, to = to m, from' = from' m, payload = PReq r\<rparr>), ss')"
  by (rule read_header [OF assms(1), of flag m b])
     (use assms in \<open>simp add: Decode_def isTarget_def GetAll_be NewMessage_def\<close>)

lemma Decode_response:
  assumes "codec_ok ss" "selfAddr ss = to m" "getMsgType flag = RpcResp"
    and "DecodeResponse b (Some (rpcCodec ss)) = Inr r"
  shows "\<exists>ss'. Decode P pooled ss (ss_header flag m @ b) =
    Some (Inr (Msg \<lparr>cmd = 0, to = to m, from' = from' m, payload = PResp r\<rparr>), ss')"
  by (rule read_header [OF assms(1), of flag m b])
     (use assms in \<open>simp add: Decode_def isTarget_def GetAll_be NewMessage_def\<close>)

lemma NewRelayMessage_frame:
  "NewRelayMessage [] t f p = \<lparr>rto = t, rfrom = f, rpayload = frame p\<rparr>"
  by (simp add: NewRelayMessage_def wire_simps NeWriter_def frame_def)

lemma Decode_relay:
  assumes "codec_ok ss" "selfAddr ss \<noteq> to m"
  shows "\<exists>ss'. Decode P [] ss (ss_header flag m @ b) =
    Some (Inr (Relay \<lparr>rto = to m, rfrom = from' m, rpayload = frame (ss_header flag m @ b)\<rparr>), ss')"
  by (rule read_header [OF assms(1), of flag m b])
     (use assms in \<open>simp add: Decode_def isTarget_def NewRelayMessage_frame\<close>)

text \<open>
  What the receiver gets for a message \<open>m\<close>: the same addresses and body, the argument or
  result of an RPC message in its wire form, to be decoded with the receiver's codec. The
  command number travels with byte and protobuf bodies only.
\<close>

definition delivered ::
    "('v iface \<Rightarrow> go_error + bytes) \<Rightarrow> 'v Codec \<Rightarrow> ('m, 'v) Message \<Rightarrow> ('m, 'v) Message \<Rightarrow> bool" where
  "delivered marshal c m m' \<longleftrightarrow> to m' = to m \<and> from' m' = from' m \<and>
     (case payload m of
        PBin b \<Rightarrow> payload m' = PBin b \<and> cmd m' = cmd m
      | PProto x \<Rightarrow> payload m' = PProto x
      | PReq r \<Rightarrow> (\<exists>b. body_of marshal (Arg r) = Inr b \<and>
          payload m' = PReq (r\<lparr>Arg := IBytes b, reqCodec := Some c\<rparr>))
      | PResp r \<Rightarrow> (\<exists>b. body_of marshal (Ret r) = Inr b \<and>
          payload m' = PResp (r\<lparr>Ret := IBytes b, respCodec := Some c\<rparr>))
      | POther \<Rightarrow> False)"

text \<open>
  What the sender is asked for: a protobuf type registered with an id that fits the 16-bit
  command field, and an RPC error made with \<open>NewError\<close>.
\<close>

definition sendable :: "'m Proto \<Rightarrow> PbMeta \<Rightarrow> ('m, 'v) Message \<Rightarrow> bool" where
  "sendable P mt m \<longleftrightarrow>
     (case payload m of
        PProto x \<Rightarrow> (\<exists>pid. registered mt (TypeOf P x) pid \<and> unat pid < 65536)
      | PResp r \<Rightarrow> (\<forall>e. Err r = Some e \<longrightarrow> NewError (ecode e) (estr e) = Some e)
      | _ \<Rightarrow> True)"

text \<open>Encoder and decoder at work together, one lemma for each kind of body.\<close>

definition relay_request ::
    "('v iface \<Rightarrow> go_error + bytes) \<Rightarrow> ('m, 'v) Message \<Rightarrow> 'v RequestMsg option" where
  "relay_request marshal m =
     (case payload m of
        PReq r \<Rightarrow> (case body_of marshal (Arg r) of
                     Inl err \<Rightarrow> None
                   | Inr b \<Rightarrow> Some (r\<lparr>Arg := IBytes b, reqCodec := None\<rparr>))
      | _ \<Rightarrow> None)"

lemma GetRpcRequest_frame:
  "GetRpcRequest \<lparr>rto = t, rfrom = f, rpayload = frame (ss_header flag m @ body)\<rparr> =
     (if getMsgType flag = RpcReq
      then (case DecodeRequest body None of Inl err \<Rightarrow> None | Inr r \<Rightarrow> Some r) else None)"
proof -
  let ?p = "be_bytes 4 (of_nat (length (ss_header flag m @ body)) :: u32)"
  have "frame (ss_header flag m @ body) ! 4 = flag"
    using nth_append_length [of ?p flag] by (simp add: frame_def ss_header_def)
  moreover have "drop 13 (frame (ss_header flag m @ body)) = body"
    by (simp add: frame_def)
  ultimately show ?thesis by (simp add: GetRpcRequest_def minSize_def)
qed

definition carried ::
    "'m Proto \<Rightarrow> ('v iface \<Rightarrow> go_error + bytes) \<Rightarrow> 'v SSCodec \<Rightarrow> ('m, 'v) Message \<Rightarrow> bytes \<Rightarrow> bool" where
  "carried P marshal rs m p \<longleftrightarrow> (\<exists>flag body. p = ss_header flag m @ body) \<and>
     (\<forall>t f. GetRpcRequest \<lparr>rto = t, rfrom = f, rpayload = frame p\<rparr> = relay_request marshal m) \<and>
     (\<forall>pooled. \<exists>m' rs'. Decode P pooled rs p = Some (Inr (Msg m'), rs') \<and>
       delivered marshal (rpcCodec rs) m m')"

lemma carriedI:
  assumes "p = ss_header flag m @ body"
    and "\<And>pooled. \<exists>rs'. Decode P pooled rs p = Some (Inr (Msg m'), rs')"
    and "delivered marshal (rpcCodec rs) m m'"
    and "(if getMsgType flag = RpcReq
          then (case DecodeRequest body None of Inl err \<Rightarrow> None | Inr r \<Rightarrow> Some r) else None) =
         relay_request marshal m"
  shows "carried P marshal rs m p"
  unfolding carried_def using assms GetRpcRequest_frame by metis

lemma carried_bin:
  assumes "payload m = PBin b" "codec_ok rs" "selfAddr rs = to m"
  shows "carried P marshal rs m (ss_header (setMsgType 0 BinMsg) m @ be_bytes 2 (cmd m) @ b)"
  by (rule carriedI [OF refl Decode_bin])
     (use assms in \<open>simp_all add: delivered_def relay_request_def\<close>)

lemma ucast_u16_u32:
  assumes "unat (pid :: u32) < 65536"
  shows "(ucast (ucast pid :: u16) :: u32) = pid"
  using assms by (simp add: word_unat_eq_iff unsigned_ucast_eq unsigned_take_bit_eq take_bit_nat_eq_self)

lemma carried_proto:
  assumes "payload m = PProto x" "codec_ok rs" "selfAddr rs = to m" "pbMeta rs = Some mt"
    "proto_ok P pm" "meta_ok mt" "registered mt (TypeOf P x) pid" "unat pid < 65536" "pm x = Inr b"
  shows "carried P marshal rs m (ss_header (setMsgType 0 PbMsg) m @ be_bytes 2 (ucast pid :: u16) @ b)"
proof -
  have "Unmarshal P mt (ucast (ucast pid :: u16)) b = Inr x"
    using assms by (simp add: ucast_u16_u32 Unmarshal_registered)
  from Decode_proto [OF assms(2,3) _ assms(4) this] show ?thesis
    by (rule carriedI [OF refl])
       (use assms in \<open>simp_all add: delivered_def relay_request_def\<close>)
qed

lemma carried_request:
  assumes "payload m = PReq r" "codec_ok rs" "selfAddr rs = to m" "body_of marshal (Arg r) = Inr b"
    "length (request_wire (cut_request r) b) < 65536"
  shows "carried P marshal rs m (ss_header (setMsgType 0 RpcReq) m @ request_wire (cut_request r) b)"
proof -
  have "DecodeRequest (request_wire (cut_request r) b) (Some (rpcCodec rs)) =
      Inr (r\<lparr>Arg := IBytes b, reqCodec := Some (rpcCodec rs)\<rparr>)"
    "DecodeRequest (request_wire (cut_request r) b) None = Inr (r\<lparr>Arg := IBytes b, reqCodec := None\<rparr>)"
    using short_request_wire [OF assms(5)] DecodeRequest_wire [of r b "[]"] by simp_all
  note dec = this
  show ?thesis
    by (rule carriedI [OF refl Decode_request [OF assms(2,3) _ dec(1)]])
       (use assms dec in \<open>simp_all add: delivered_def relay_request_def\<close>)
qed

lemma carried_response:
  assumes "payload m = PResp r" "codec_ok rs" "selfAddr rs = to m" "body_of marshal (Ret r) = Inr b"
    "length (response_wire (cut_response r) b) < 65536"
    "\<forall>e. Err r = Some e \<longrightarrow> NewError (ecode e) (estr e) = Some e"
  shows "carried P marshal rs m (ss_header (setMsgType 0 RpcResp) m @ response_wire (cut_response r) b)"
proof -
  have "DecodeResponse (response_wire (cut_response r) b) (Some (rpcCodec rs)) =
      Inr (r\<lparr>Ret := IBytes b, respCodec := Some (rpcCodec rs)\<rparr>)"
    using short_response_wire [OF assms(5)] DecodeResponse_wire [of r b "[]"] assms(6) by simp
  note dec = this
  show ?thesis
    by (rule carriedI [OF refl Decode_response [OF assms(2,3) _ dec]])
       (use assms dec in \<open>simp_all add: delivered_def relay_request_def\<close>)
qed

lemma Encode_carried:
  assumes "codec_appends (rpcCodec ss) marshal" "proto_ok P pm" "meta_ok mt" "pbMeta ss = Some mt"
    and "sendable P mt m" "mx \<le> 65536"
    and "Encode P mx ss dst (Msg m) = Some (dst', n)" "0 < n"
    and "codec_ok rs" "selfAddr rs = to m" "pbMeta rs = Some mt"
  shows "\<exists>p. dst' = dst @ frame p \<and> n = length (frame p) \<and> n \<le> mx \<and> carried P marshal rs m p"
proof (cases "payload m")
  case (PBin b)
  then have e: "emit mx dst (ss_header (setMsgType 0 BinMsg) m @ be_bytes 2 (cmd m) @ b) = (dst', n)"
    using assms(7,8) Encode_bin [OF PBin, of P mx ss dst] by (simp split: if_splits)
  then show ?thesis
    using emit_accepted [OF e assms(8)] carried_bin [OF PBin assms(9,10)] by blast
next
  case (PProto x)
  with assms(5) obtain pid where pid: "registered mt (TypeOf P x) pid" "unat pid < 65536"
    by (auto simp: sendable_def)
  then obtain b where b: "pm x = Inr b" and
    e: "emit mx dst (ss_header (setMsgType 0 PbMsg) m @ be_bytes 2 (ucast pid :: u16) @ b) = (dst', n)"
    using assms(7,8) Encode_proto [OF PProto assms(4,2) pid(1), of mx dst] by (auto split: sum.splits)
  then show ?thesis
    using emit_accepted [OF e assms(8)] carried_proto [OF PProto assms(9-11,2,3) pid b] by blast
next
  case (PReq r)
  then obtain b where b: "body_of marshal (Arg r) = Inr b" and
    e: "emit mx dst (ss_header (setMsgType 0 RpcReq) m @ request_wire (cut_request r) b) = (dst', n)"
    using assms(7,8) Encode_request [OF PReq assms(1), of P mx dst] by (auto split: sum.splits)
  have "carried P marshal rs m (ss_header (setMsgType 0 RpcReq) m @ request_wire (cut_request r) b)"
    using emit_accepted [OF e assms(8)] assms(6) by (intro carried_request PReq assms b) simp
  then show ?thesis using emit_accepted [OF e assms(8)] by blast
next
  case (PResp r)
  then obtain b where b: "body_of marshal (Ret r) = Inr b" and
    e: "emit mx dst (ss_header (setMsgType 0 RpcResp) m @ response_wire (cut_response r) b) = (dst', n)"
    using assms(7,8) Encode_response [OF PResp assms(1), of P mx dst] by (auto split: sum.splits)
  have "carried P marshal rs m (ss_header (setMsgType 0 RpcResp) m @ response_wire (cut_response r) b)"
    using emit_accepted [OF e assms(8)] assms(5,6) PResp
    by (intro carried_response PResp assms b) (auto simp: sendable_def)
  then show ?thesis using emit_accepted [OF e assms(8)] by blast
next
  case POther
  then show ?thesis using assms(7,8) by (simp add: Encode_def)
qed

text \<open>The encoder only ever appends, and reports how much.\<close>

lemma emit_appends: "\<exists>w. emit mx dst p = (dst @ w, length w)"
  by (simp add: emit_def)

lemma Encode_proto_appends:
  assumes "payload m = PProto x" "pbMeta ss = Some mt" "proto_ok P pm"
  shows "\<exists>w. Encode P mx ss dst (Msg m) = Some (dst @ w, length w)"
proof (cases "nameToID mt (rt_String (TypeOf P x))")
  case None
  with assms show ?thesis
    by (simp add: Encode_def appendSSHeader_eq Marshal_def wire_simps NeWriter_def)
next
  case (Some pid)
  let ?h = "dst @ [0, 0, 0, 0] @ ss_header (setMsgType 0 PbMsg) m"
  show ?thesis
  proof (cases "pm x")
    case (Inl e)
    with assms Some show ?thesis
      by (simp add: Encode_def appendSSHeader_eq Marshal_def proto_ok_def wire_simps NeWriter_def)
  next
    case (Inr b)
    let ?c = "be_bytes 2 (ucast pid :: u16)"
    have "patch (?h @ be_bytes 2 (0 :: u16) @ b) (length ?h) ?c = ?h @ ?c @ b"
      by (rule patch_mid) simp_all
    with assms Some Inr
    have "Encode P mx ss dst (Msg m) =
        Some (finalizeFrame mx (dst @ [0, 0, 0, 0] @ ss_header (setMsgType 0 PbMsg) m @ ?c @ b) (length dst))"
      by (simp add: Encode_def appendSSHeader_eq Marshal_def proto_ok_def wire_simps NeWriter_def)
    then show ?thesis unfolding finalizeFrame_eq by simp
  qed
qed

lemma Encode_appends:
  assumes "codec_appends (rpcCodec ss) marshal" "proto_ok P pm" "pbMeta ss = Some mt"
  shows "\<exists>w. Encode P mx ss dst pkt = Some (dst @ w, length w)"
proof (cases pkt)
  case (Msg m)
  show ?thesis
  proof (cases "payload m")
    case (PBin b)
    then show ?thesis using Encode_bin [OF PBin] emit_appends Msg by (cases "b = []") auto
  next
    case (PProto x)
    then show ?thesis using Encode_proto_appends [OF PProto assms(3,2)] Msg by simp
  next
    case (PReq r)
    then show ?thesis using Encode_request [OF PReq assms(1)] emit_appends Msg
      by (cases "body_of marshal (Arg r)") auto
  next
    case (PResp r)
    then show ?thesis using Encode_response [OF PResp assms(1)] emit_appends Msg
      by (cases "body_of marshal (Ret r)") auto
  next
    case POther
    then show ?thesis using Msg by (simp add: Encode_def)
  qed
qed (simp_all add: Encode_def)

section \<open>Properties\<close>


definition echo_codec :: "logic_addr \<Rightarrow> bytes SSCodec" where
  "echo_codec self = \<lparr>selfAddr = self, rpcCodec = byte_codec, reader = NewReader BigEndian [],
     pbMeta = Some echo_meta\<rparr>"

definition echo_message :: "(bytes, bytes) Message" where
  "echo_message = \<lparr>cmd = 0, to = 5, from' = 6, payload = PReq \<lparr>Seq = 7, Method = ''echo'',
     Arg = IObj [1, 2], UserData = [3], Oneway = False, reqCodec = None\<rparr>\<rparr>"

lemma echo_codec_ok: "codec_ok (echo_codec a)"
  by (simp add: codec_ok_def echo_codec_def NewReader_def)

lemma echo_encoded:
  "\<exists>dst' n. Encode echo_proto 4096 (echo_codec 6) [] (Msg echo_message) = Some (dst', n) \<and> 0 < n"
  using Encode_request [of echo_message _ "echo_codec 6" byte_marshal echo_proto 4096 "[]"]
  by (simp add: echo_message_def echo_codec_def byte_codec_appends body_of_def byte_marshal_def
      emit_def cut_request_def request_wire_def)


text \<open>
  C10. A node on the way passes a message on unchanged: a node that is not the target
  decodes the frame into a relay message with the frame's target and source, and encoding
  that relay message appends exactly the bytes of the frame. \<open>GetRpcRequest\<close> finds the
  request in a relayed RPC request, and nothing in any other message. (\<open>poolbuff.Get\<close> is
  relied on to hand out an empty buffer.)
\<close>

theorem ss_relay_transparent:
  assumes "codec_appends (rpcCodec ss) marshal" "proto_ok P pm" "meta_ok mt" "pbMeta ss = Some mt"
    and "sendable P mt m" "MaxPacketSize \<le> 65536"
    and "Encode P MaxPacketSize ss dst (Msg m) = Some (dst', n)" "0 < n"
    and "codec_ok hs" "selfAddr hs \<noteq> to m" "pooled = []"
  shows "\<exists>p rm hs'. dst' = dst @ frame p \<and> Decode P pooled hs p = Some (Inr (Relay rm), hs') \<and>
    rto rm = to m \<and> rfrom rm = from' m \<and>
    Encode P MaxPacketSize hs' out (Relay rm) = Some (out @ frame p, n) \<and>
    GetRpcRequest rm = relay_request marshal m"
proof -
  let ?rs = "ss\<lparr>selfAddr := to m, reader := NewReader BigEndian []\<rparr>"
  have "codec_ok ?rs" by (simp add: codec_ok_def NewReader_def)
  then obtain p where p: "dst' = dst @ frame p" "n = length (frame p)" "carried P marshal ?rs m p"
    using Encode_carried [OF assms(1-8), of ?rs] assms(4) by auto
  then obtain flag body where body: "p = ss_header flag m @ body"
    by (auto simp: carried_def)
  with Decode_relay [OF assms(9,10)] obtain hs' where
    "Decode P [] hs p = Some (Inr (Relay \<lparr>rto = to m, rfrom = from' m, rpayload = frame p\<rparr>), hs')"
    by blast
  with p assms(11) show ?thesis by (auto simp: Encode_def carried_def)
qed

theorem ss_relay_transparent_witness:
  "\<exists>dst' n p rm hs'. Encode echo_proto 4096 (echo_codec 6) [] (Msg echo_message) = Some (dst', n) \<and>
    0 < n \<and> dst' = [] @ frame p \<and>
    Decode echo_proto [] (echo_codec 9) p = Some (Inr (Relay rm), hs') \<and>
    Encode echo_proto 4096 hs' [] (Relay rm) = Some ([] @ frame p, n) \<and>
    GetRpcRequest rm = relay_request byte_marshal echo_message"
proof -
  obtain dst' n where enc:
    "Encode echo_proto 4096 (echo_codec 6) [] (Msg echo_message) = Some (dst', n)" "0 < n"
    using echo_encoded by blast
  have "\<exists>p rm hs'. dst' = [] @ frame p \<and>
    Decode echo_proto [] (echo_codec 9) p = Some (Inr (Relay rm), hs') \<and>
    rto rm = to echo_message \<and> rfrom rm = from' echo_message \<and>
    Encode echo_proto 4096 hs' [] (Relay rm) = Some ([] @ frame p, n) \<and>
    GetRpcRequest rm = relay_request byte_marshal echo_message"
    by (rule ss_relay_transparent [OF _ echo_proto_ok echo_meta_ok(1) _ _ _ enc echo_codec_ok])
       (simp_all add: echo_codec_def byte_codec_appends sendable_def echo_message_def)
  with enc show ?thesis by blast
qed

text \<open>
  The encoder appends and nothing else: for every packet, of whatever kind, it returns
  the destination followed by as many bytes as it reports, so a message that is refused (an
  unregistered type, a codec error, a frame that is too large) leaves no partial frame
  behind.
\<close>

lemma ss_encode_appends:
  assumes "codec_appends (rpcCodec ss) marshal" "proto_ok P pm" "pbMeta ss = Some mt"
  shows "\<exists>w. Encode P MaxPacketSize ss dst pkt = Some (dst @ w, length w)"
  by (rule Encode_appends [OF assms])

end
