(* ===== verification/Msg_Manager.thy ===== *)
theory Msg_Manager
  imports Pb_Meta SS_Codec
begin

text \<open>
  The handlers of a node's messages and its pool of workers (\<open>msgManager\<close>, \<open>gopool\<close> and the
  two registration methods in \<open>cluster.go\<close>). Handlers are code of the user, of a type \<open>'h\<close>;
  a map entry can hold a nil handler. \<open>logger.Panicf\<close> panics, which is \<open>None\<close>.
\<close>

section \<open>Handlers\<close>

record 'h msgManager =
  protoMsgHandlers :: "u16 \<rightharpoonup> 'h option"
  binaryMsgHandlers :: "u16 \<rightharpoonup> 'h option"

definition new_msgManager :: "'h msgManager" where
  "new_msgManager = \<lparr>protoMsgHandlers = Map.empty, binaryMsgHandlers = Map.empty\<rparr>"

definition registerProto :: "u16 \<Rightarrow> 'h option \<Rightarrow> 'h msgManager \<Rightarrow> 'h msgManager option" where
  "registerProto c handler m =
     (if protoMsgHandlers m c \<noteq> None then None
      else Some (m\<lparr>protoMsgHandlers := (protoMsgHandlers m)(c \<mapsto> handler)\<rparr>))"

definition registerBinary :: "u16 \<Rightarrow> 'h option \<Rightarrow> 'h msgManager \<Rightarrow> 'h msgManager option" where
  "registerBinary c handler m =
     (if binaryMsgHandlers m c \<noteq> None then None
      else Some (m\<lparr>binaryMsgHandlers := (binaryMsgHandlers m)(c \<mapsto> handler)\<rparr>))"

text \<open>
  What a dispatch does: a handler is called (a panic in it is caught and logged), or one of
  two errors is logged.
\<close>

datatype 'h dispatched = Handled 'h | NilHandler | UnknownCmd

definition dispatch :: "(u16 \<rightharpoonup> 'h option) \<Rightarrow> u16 \<Rightarrow> 'h dispatched" where
  "dispatch hs c =
     (case hs c of
        Some None \<Rightarrow> NilHandler
      | Some (Some handler) \<Rightarrow> Handled handler
      | None \<Rightarrow> UnknownCmd)"

definition dispatchProto :: "'h msgManager \<Rightarrow> u16 \<Rightarrow> 'h dispatched" where
  "dispatchProto m c = dispatch (protoMsgHandlers m) c"

definition dispatchBinary :: "'h msgManager \<Rightarrow> u16 \<Rightarrow> 'h dispatched" where
  "dispatchBinary m c = dispatch (binaryMsgHandlers m) c"

text \<open>A message type without an id (\<open>cmd == 0\<close>) is ignored.\<close>

definition RegisterProtoHandler ::
    "'m Proto \<Rightarrow> (string \<rightharpoonup> PbMeta) \<Rightarrow> 'm \<Rightarrow> 'h option \<Rightarrow> 'h msgManager \<Rightarrow> 'h msgManager option" where
  "RegisterProtoHandler P nameSpace msg handler m =
     (if handler = None then None
      else
        let c = GetCmd P nameSpace Namespace msg
        in if c \<noteq> 0 then registerProto (ucast c) handler m else Some m)"

definition RegisterBinaryHandler :: "u16 \<Rightarrow> 'h option \<Rightarrow> 'h msgManager \<Rightarrow> 'h msgManager option" where
  "RegisterBinaryHandler c handler m = (if handler = None then None else registerBinary c handler m)"

section \<open>Workers\<close>

definition ErrBusy :: go_error where "ErrBusy = GoError ''busy''"

record 't gopool =
  taskqueue :: "'t list"
  pool_die :: bool

definition TaskQueueSize :: nat where "TaskQueueSize = 32"

definition Go :: "'t \<Rightarrow> 't gopool \<Rightarrow> go_error option \<times> 't gopool" where
  "Go fn p =
     (if length (taskqueue p) < TaskQueueSize then (None, p\<lparr>taskqueue := taskqueue p @ [fn]\<rparr>)
      else (Some ErrBusy, p))"

text \<open>One round of a worker: it runs the first task or, once \<open>die\<close> is closed, may return.\<close>

datatype 't round = Runs 't | Returns

definition loop :: "'t gopool \<Rightarrow> ('t round \<times> 't gopool) list" where
  "loop p =
     (case taskqueue p of [] \<Rightarrow> [] | v # vs \<Rightarrow> [(Runs v, p\<lparr>taskqueue := vs\<rparr>)]) @
     (if pool_die p then [(Returns, p)] else [])"

section \<open>Handlers never change\<close>

lemma registerProto_keeps:
  assumes "registerProto c handler m = Some m'"
  shows "protoMsgHandlers m' = (protoMsgHandlers m)(c \<mapsto> handler)" "protoMsgHandlers m c = None"
    "binaryMsgHandlers m' = binaryMsgHandlers m"
  using assms by (auto simp: registerProto_def split: if_splits)

text \<open>All the registrations a program may make, in order.\<close>

datatype ('m, 'h) registration = RegProto 'm "'h option" | RegBinary u16 "'h option"

fun register_all ::
    "'m Proto \<Rightarrow> (string \<rightharpoonup> PbMeta) \<Rightarrow> ('m, 'h) registration list \<Rightarrow> 'h msgManager \<Rightarrow> 'h msgManager option" where
  "register_all P ns [] m = Some m"
| "register_all P ns (RegProto x h # rs) m =
     (case RegisterProtoHandler P ns x h m of None \<Rightarrow> None | Some m \<Rightarrow> register_all P ns rs m)"
| "register_all P ns (RegBinary c h # rs) m =
     (case RegisterBinaryHandler c h m of None \<Rightarrow> None | Some m \<Rightarrow> register_all P ns rs m)"

definition manager_ok :: "'h msgManager \<Rightarrow> bool" where
  "manager_ok m \<longleftrightarrow> None \<notin> ran (protoMsgHandlers m) \<and> None \<notin> ran (binaryMsgHandlers m)"

lemma register_ok:
  assumes "manager_ok m"
  shows "RegisterProtoHandler P ns x h m = Some m' \<Longrightarrow> manager_ok m' \<and>
      protoMsgHandlers m \<subseteq>\<^sub>m protoMsgHandlers m' \<and> binaryMsgHandlers m \<subseteq>\<^sub>m binaryMsgHandlers m' \<and>
      (GetCmd P ns Namespace x \<noteq> 0 \<longrightarrow> protoMsgHandlers m' (ucast (GetCmd P ns Namespace x)) = Some h)"
    "RegisterBinaryHandler c h m = Some m' \<Longrightarrow> manager_ok m' \<and>
      protoMsgHandlers m \<subseteq>\<^sub>m protoMsgHandlers m' \<and> binaryMsgHandlers m \<subseteq>\<^sub>m binaryMsgHandlers m' \<and>
      binaryMsgHandlers m' c = Some h"
  using assms
  by (auto simp: RegisterProtoHandler_def RegisterBinaryHandler_def registerProto_def registerBinary_def
      manager_ok_def map_le_def Let_def split: if_splits)

lemma register_all_ok:
  assumes "register_all P ns rs m = Some m'" "manager_ok m"
  shows "manager_ok m' \<and> protoMsgHandlers m \<subseteq>\<^sub>m protoMsgHandlers m' \<and> binaryMsgHandlers m \<subseteq>\<^sub>m binaryMsgHandlers m'"
  using assms
proof (induction P ns rs m rule: register_all.induct)
  case (1 P ns m)
  then show ?case by simp
next
  case (2 P ns x h rs m)
  then obtain m1 where "RegisterProtoHandler P ns x h m = Some m1" "register_all P ns rs m1 = Some m'"
    by (auto split: option.splits)
  with 2 register_ok(1) [of m P ns x h m1] show ?case by (meson map_le_trans)
next
  case (3 P ns c h rs m)
  then obtain m1 where "RegisterBinaryHandler c h m = Some m1" "register_all P ns rs m1 = Some m'"
    by (auto split: option.splits)
  with 3 register_ok(2) [of m c h m1] show ?case by (meson map_le_trans)
qed

lemma map_le_Some: "f \<subseteq>\<^sub>m g \<Longrightarrow> f x = Some y \<Longrightarrow> g x = Some y"
  by (auto simp: map_le_def dom_def)

lemma register_all_handler:
  assumes "register_all P ns rs m = Some m'" "manager_ok m"
  shows "(RegProto x h \<in> set rs \<and> GetCmd P ns Namespace x \<noteq> 0 \<longrightarrow>
      protoMsgHandlers m' (ucast (GetCmd P ns Namespace x)) = Some h) \<and>
    (RegBinary c h \<in> set rs \<longrightarrow> binaryMsgHandlers m' c = Some h)"
  using assms
proof (induction P ns rs m rule: register_all.induct)
  case (1 P ns m)
  then show ?case by simp
next
  case (2 P ns x' h' rs m)
  then obtain m1 where m1: "RegisterProtoHandler P ns x' h' m = Some m1" "register_all P ns rs m1 = Some m'"
    by (auto split: option.splits)
  note ok = register_ok(1) [OF "2.prems"(2) m1(1)]
  with register_all_ok [OF m1(2)] have "protoMsgHandlers m1 \<subseteq>\<^sub>m protoMsgHandlers m'" by simp
  with ok "2.IH" [OF m1] show ?case by (auto intro: map_le_Some)
next
  case (3 P ns c' h' rs m)
  then obtain m1 where m1: "RegisterBinaryHandler c' h' m = Some m1" "register_all P ns rs m1 = Some m'"
    by (auto split: option.splits)
  note ok = register_ok(2) [OF "3.prems"(2) m1(1)]
  with register_all_ok [OF m1(2)] have "binaryMsgHandlers m1 \<subseteq>\<^sub>m binaryMsgHandlers m'" by simp
  with ok "3.IH" [OF m1] show ?case by (auto intro: map_le_Some)
qed

section \<open>Properties\<close>

text \<open>
  A registered handler is the one that is called: after any sequence of registrations
  that goes through, a message with the id of a registered protobuf type, or with a
  registered binary command, is given to the handler of that registration, and a nil
  handler is never met.
\<close>

lemma registered_handler_called:
  assumes "register_all P ns rs new_msgManager = Some m"
  shows "(RegProto x (Some h) \<in> set rs \<and> GetCmd P ns Namespace x \<noteq> 0 \<longrightarrow>
      dispatchProto m (ucast (GetCmd P ns Namespace x)) = Handled h) \<and>
    (RegBinary c (Some h) \<in> set rs \<longrightarrow> dispatchBinary m c = Handled h) \<and>
    dispatchProto m d \<noteq> NilHandler \<and> dispatchBinary m d \<noteq> NilHandler"
proof -
  have new: "manager_ok new_msgManager" by (simp add: manager_ok_def new_msgManager_def)
  have ok: "manager_ok m" using register_all_ok [OF assms new] by simp
  from register_all_handler [OF assms new, of x "Some h" c] ok show ?thesis
    by (auto simp: dispatchProto_def dispatchBinary_def dispatch_def manager_ok_def ran_def split: option.splits)
qed

end
