(* ===== verification/Crypto.thy ===== *)
theory Crypto
  imports Prelude
begin

text \<open>
  Keys and ciphers (\<open>pkg/crypto/aes.go\<close>). The block cipher AES is a pair of parameters, the
  encryption and decryption of one block under a key, and so is the sealing of AES-GCM; the
  rest, with CBC mode, is modelled. Random bytes are parameters.
\<close>

section \<open>Keys\<close>

definition minKeySize :: nat where "minKeySize = 32"

definition fixKey :: "bytes \<Rightarrow> bytes" where
  "fixKey key =
     (if length key > 32 then take 32 key
      else
        let size = (if length key < 16 then 16 else if length key < 24 then 24 else 32);
            padding = size - length key mod size;
            padtext = replicate padding (of_nat padding)
        in key @ padtext)"

text \<open>\<open>v\<close> is the value of the environment variable, empty when it is not set.\<close>

definition LoadKey :: "bytes \<Rightarrow> bytes \<Rightarrow> bytes" where
  "LoadKey v def =
     (let raw = (if v \<noteq> [] then v else def)
      in if length raw \<ge> minKeySize then (if length raw > 32 then take 32 raw else raw)
         else raw @ replicate (minKeySize - length raw) 0)"

text \<open>\<open>aes.NewCipher\<close> accepts keys of 16, 24 and 32 bytes.\<close>

definition BlockSize :: nat where "BlockSize = 16"

definition NewCipher :: "bytes \<Rightarrow> go_error option" where
  "NewCipher key =
     (if length key \<in> {16, 24, 32} then None
      else Some (GoError (''crypto/aes: invalid key size '' @ show_nat (length key))))"

section \<open>CBC mode\<close>

definition paddingData :: "bytes \<Rightarrow> nat \<Rightarrow> bytes" where
  "paddingData ciphertext blockSize =
     (let ret = be_bytes 4 (of_nat (length ciphertext) :: u32);
          ret = ret @ ciphertext;
          padding = blockSize - length ret mod blockSize;
          padtext = replicate padding (of_nat padding)
      in ret @ padtext)"

definition xor_bytes :: "bytes \<Rightarrow> bytes \<Rightarrow> bytes" where
  "xor_bytes = map2 (XOR)"

text \<open>\<open>CryptBlocks\<close> of the two CBC modes, on a multiple of 16 bytes; \<open>E\<close> and \<open>D\<close> work on one block.\<close>

fun cbc_encrypt :: "(bytes \<Rightarrow> bytes) \<Rightarrow> nat \<Rightarrow> bytes \<Rightarrow> bytes \<Rightarrow> bytes" where
  "cbc_encrypt E 0 iv p = []"
| "cbc_encrypt E (Suc n) iv p =
     (let c = E (xor_bytes (take 16 p) iv) in c @ cbc_encrypt E n c (drop 16 p))"

fun cbc_decrypt :: "(bytes \<Rightarrow> bytes) \<Rightarrow> nat \<Rightarrow> bytes \<Rightarrow> bytes \<Rightarrow> bytes" where
  "cbc_decrypt D 0 iv c = []"
| "cbc_decrypt D (Suc n) iv c = xor_bytes (D (take 16 c)) iv @ cbc_decrypt D n (take 16 c) (drop 16 c)"

text \<open>
  \<open>iv\<close> is what the random source returns. A failure of the random source is not modelled:
  \<open>crypto/rand\<close> does not return one.
\<close>

definition AESCBCEncrypt ::
    "(bytes \<Rightarrow> bytes \<Rightarrow> bytes) \<Rightarrow> bytes \<Rightarrow> bytes \<Rightarrow> bytes \<Rightarrow> go_error + bytes" where
  "AESCBCEncrypt E iv keybyte plainbyte =
     (let key = fixKey keybyte;
          p = paddingData plainbyte BlockSize
      in (case NewCipher key of
            Some err \<Rightarrow> Inl err
          | None \<Rightarrow> Inr (iv @ cbc_encrypt (E key) (length p div BlockSize) iv p)))"

text \<open>The length field is not checked: a slice beyond the text panics (\<open>None\<close>).\<close>

definition AESCBCDecrypter ::
    "(bytes \<Rightarrow> bytes \<Rightarrow> bytes) \<Rightarrow> bytes \<Rightarrow> bytes \<Rightarrow> (go_error + bytes) option" where
  "AESCBCDecrypter D keybyte cipherbyte =
     (let key = fixKey keybyte
      in (case NewCipher key of
            Some err \<Rightarrow> Some (Inl err)
          | None \<Rightarrow>
              if length cipherbyte < BlockSize then Some (Inl (GoError ''ciphertext too short''))
              else
                let iv = take BlockSize cipherbyte;
                    c = drop BlockSize cipherbyte
                in if length c mod BlockSize \<noteq> 0
                   then Some (Inl (GoError ''ciphertext is not a multiple of the block size''))
                   else
                     let p = cbc_decrypt (D key) (length c div BlockSize) iv c
                     in if length p < 4 then None
                        else
                          let size = unat (of_be (take 4 p) :: u32)
                          in if 4 + size > length p then None else Some (Inr (take size (drop 4 p)))))"

section \<open>GCM\<close>

definition NonceSize :: nat where "NonceSize = 12"

definition AESEncrypt ::
    "(bytes \<Rightarrow> bytes \<Rightarrow> bytes \<Rightarrow> bytes) \<Rightarrow> bytes \<Rightarrow> bytes \<Rightarrow> bytes \<Rightarrow> go_error + bytes" where
  "AESEncrypt Seal nonce key plain =
     (case NewCipher key of
        Some err \<Rightarrow> Inl err
      | None \<Rightarrow> Inr (nonce @ Seal key nonce plain))"

definition AESDecrypt ::
    "(bytes \<Rightarrow> bytes \<Rightarrow> bytes \<Rightarrow> go_error + bytes) \<Rightarrow> bytes \<Rightarrow> bytes \<Rightarrow> go_error + bytes" where
  "AESDecrypt Open key cipherB =
     (case NewCipher key of
        Some err \<Rightarrow> Inl err
      | None \<Rightarrow>
          if length cipherB < NonceSize then Inl (GoError ''ciphertext too short'')
          else Open key (take NonceSize cipherB) (drop NonceSize cipherB))"

section \<open>What is relied on\<close>

text \<open>The block cipher works on blocks and can be inverted; opening gives back what was sealed.\<close>

definition block_ok :: "(bytes \<Rightarrow> bytes \<Rightarrow> bytes) \<Rightarrow> (bytes \<Rightarrow> bytes \<Rightarrow> bytes) \<Rightarrow> bool" where
  "block_ok E D \<longleftrightarrow> (\<forall>key b. length b = 16 \<longrightarrow> length (E key b) = 16 \<and> D key (E key b) = b)"

definition gcm_ok ::
    "(bytes \<Rightarrow> bytes \<Rightarrow> bytes \<Rightarrow> bytes) \<Rightarrow> (bytes \<Rightarrow> bytes \<Rightarrow> bytes \<Rightarrow> go_error + bytes) \<Rightarrow> bool" where
  "gcm_ok Seal Open \<longleftrightarrow> (\<forall>key nonce p. Open key nonce (Seal key nonce p) = Inr p \<and>
     length (Seal key nonce p) = length p + 16)"

section \<open>Lengths and inverses\<close>

lemma length_fixKey:
  "length (fixKey key) =
     (if length key = 32 then 64 else if length key < 16 then 16 else if length key < 24 then 24 else 32)"
  by (auto simp: fixKey_def Let_def)

lemma NewCipher_fixKey: "NewCipher (fixKey key) = None \<longleftrightarrow> length key \<noteq> 32"
  by (auto simp: NewCipher_def length_fixKey)

lemma length_LoadKey: "length (LoadKey v def) = 32"
  by (simp add: LoadKey_def minKeySize_def Let_def)

lemma NewCipher_LoadKey [simp]: "NewCipher (LoadKey v def) = None"
  by (simp add: NewCipher_def length_LoadKey)

lemma xor_bytes_inverse: "length a = length b \<Longrightarrow> xor_bytes (xor_bytes a b) b = a"
  unfolding xor_bytes_def
  by (induction a b rule: list_induct2) (auto simp: xor.assoc)

lemma length_xor_bytes [simp]: "length (xor_bytes a b) = min (length a) (length b)"
  by (simp add: xor_bytes_def)

lemma length_cbc_encrypt:
  assumes "block_ok E D" "length iv = 16" "length p = n * 16"
  shows "length (cbc_encrypt (E key) n iv p) = n * 16"
  using assms(2,3)
proof (induction n arbitrary: iv p)
  case (Suc n)
  from Suc.prems assms(1) have "length (E key (xor_bytes (take 16 p) iv)) = 16" by (simp add: block_ok_def)
  with Suc show ?case by (simp add: Let_def)
qed simp

lemma cbc_inverse:
  assumes "block_ok E D" "length iv = 16" "length p = n * 16"
  shows "cbc_decrypt (D key) n iv (cbc_encrypt (E key) n iv p) = p"
  using assms(2,3)
proof (induction n arbitrary: iv p)
  case (Suc n)
  let ?c = "E key (xor_bytes (take 16 p) iv)"
  have len: "length (take 16 p) = 16" using Suc.prems by simp
  with Suc.prems assms(1) have c: "length ?c = 16" "D key ?c = xor_bytes (take 16 p) iv" by (simp_all add: block_ok_def)
  have "cbc_decrypt (D key) n ?c (cbc_encrypt (E key) n ?c (drop 16 p)) = drop 16 p"
    using Suc.IH [OF c(1)] Suc.prems by simp
  with c len Suc.prems show ?case by (simp add: Let_def xor_bytes_inverse)
qed simp

lemma paddingData_shape:
  "\<exists>pad. paddingData p 16 = be_bytes 4 (of_nat (length p) :: u32) @ p @ pad \<and> length (paddingData p 16) mod 16 = 0"
proof -
  have "(n + (16 - n mod 16)) mod 16 = 0" for n :: nat by presburger
  from this [of "4 + length p"] show ?thesis by (simp add: paddingData_def Let_def add.assoc)
qed

section \<open>Properties\<close>

text \<open>
  CBC encryption round-trips, except with the strongest keys: a text below 4 GiB that
  was encrypted decrypts to itself for every key length but 32. A 32-byte key is padded to
  64 bytes by \<open>fixKey\<close>, so encryption and decryption with it always fail.
\<close>

lemma cbc_roundtrip:
  assumes "block_ok E D" "length iv = 16" "length p < 2 ^ 32"
  shows "(length key \<noteq> 32 \<longrightarrow>
      (\<exists>c. AESCBCEncrypt E iv key p = Inr c \<and> AESCBCDecrypter D key c = Some (Inr p))) \<and>
    (length key = 32 \<longrightarrow> (\<exists>e. AESCBCEncrypt E iv key p = Inl e) \<and> (\<exists>e. AESCBCDecrypter D key c = Some (Inl e)))"
proof (cases "length key = 32")
  case True
  then obtain e where e: "NewCipher (fixKey key) = Some e" using NewCipher_fixKey [of key] by auto
  then have "AESCBCEncrypt E iv key p = Inl e" "AESCBCDecrypter D key c = Some (Inl e)"
    unfolding AESCBCEncrypt_def AESCBCDecrypter_def Let_def by simp_all
  with True show ?thesis by simp
next
  case False
  let ?p = "paddingData p 16"
  let ?c = "cbc_encrypt (E (fixKey key)) (length ?p div 16) iv ?p"
  obtain pad where pad: "?p = be_bytes 4 (of_nat (length p) :: u32) @ p @ pad" "length ?p mod 16 = 0"
    using paddingData_shape [of p] by (elim exE conjE) (rule that)
  from pad(2) have n: "length ?p = length ?p div 16 * 16" using div_mult_mod_eq [of "length ?p" 16] by simp
  note c = length_cbc_encrypt [OF assms(1,2) n] cbc_inverse [OF assms(1,2) n]
  have size: "unat (of_nat (length p) :: u32) = length p"
    using assms(3) by (simp add: unat_of_nat take_bit_nat_eq_self)
  have key: "NewCipher (fixKey key) = None" using False by (simp add: NewCipher_fixKey)
  have c16: "length ?c mod 16 = 0" "length ?c div 16 = length ?p div 16" using c(1) [of "fixKey key"] pad(2) n by simp_all
  have "AESCBCDecrypter D key (iv @ ?c) = Some (Inr p)"
    using key c16 c(2) assms(2) pad(1) size by (simp add: AESCBCDecrypter_def BlockSize_def)
  moreover have "AESCBCEncrypt E iv key p = Inr (iv @ ?c)"
    using key by (simp add: AESCBCEncrypt_def BlockSize_def Let_def)
  ultimately show ?thesis using False by simp
qed

end
