(* ===== verification/Node_Conn.thy ===== *)
theory Node_Conn
  imports Prelude "HOL-Library.Sublist"
begin

text \<open>
  The connection to one peer (\<open>node\<close> in \<open>node.go\<close>, and the part of \<open>onNewConnection\<close> in
  \<open>cluster.go\<close> that decides about an incoming connection): messages wait in \<open>pendingMsg\<close>
  until a connection is established by dialling the peer or by accepting its connection.

  The state has the node's mutex, its socket and its queue, and what is under way: how many
  dials are running or scheduled, and which sockets have not called their close callback
  yet. Sockets are numbered in the order they are made. Every operation that takes the
  mutex is one step and is the list of its possible outcomes, empty when it blocks on the
  mutex. Parameters: \<open>MaxPendingMsgSize\<close>, the current time \<open>now\<close>, which contexts are done,
  and the results of the network operations.

  A time is an integer; the zero \<open>time.Time\<close> is 0 and lies before every current time.
\<close>

section \<open>State\<close>

definition ErrPendingQueueFull :: go_error where
  "ErrPendingQueueFull = GoError ''pending queue full''"
definition ErrDuplicateConn :: go_error where
  "ErrDuplicateConn = GoError ''duplicate node connection''"
definition ErrSimultaneous :: go_error where
  "ErrSimultaneous = GoError ''connectting simultaneously''"

record 'm pendingMessage =
  message :: 'm
  deadline :: int
  ctx :: "nat option"

record 'm peer =
  mutex :: bool
  sock :: "nat option"
  pendingMsg :: "'m pendingMessage list"
  dialing :: nat
  live :: "nat list"
  nextSock :: nat

text \<open>
  What an operation does besides changing the state: a message is put into the queue, a
  message is given to a socket while the queue is drained or directly by a sender, a socket
  is told to close.
\<close>

datatype 'm peer_event = Queued 'm | Flushed nat 'm | Direct nat 'm | Closing nat

definition new_peer :: "'m peer" where
  "new_peer = \<lparr>mutex = False, sock = None, pendingMsg = [], dialing = 0, live = [], nextSock = 0\<rparr>"

type_synonym ('m, 'r) outcomes = "('r \<times> 'm peer_event list \<times> 'm peer) list"

section \<open>Operations\<close>

definition removed :: "int \<Rightarrow> (nat \<Rightarrow> bool) \<Rightarrow> bool \<Rightarrow> 'm pendingMessage \<Rightarrow> bool" where
  "removed now done removeZero m \<longleftrightarrow>
     (case ctx m of
        Some c \<Rightarrow> done c
      | None \<Rightarrow> (deadline m = 0 \<and> removeZero) \<or> now > deadline m)"

definition removeFailedMsg :: "int \<Rightarrow> (nat \<Rightarrow> bool) \<Rightarrow> bool \<Rightarrow> 'm peer \<Rightarrow> 'm peer" where
  "removeFailedMsg now done removeZero n =
     n\<lparr>pendingMsg := filter (\<lambda>m. \<not> removed now done removeZero m) (pendingMsg n)\<rparr>"

text \<open>\<open>PushBack\<close>, and a dial when the queue was empty.\<close>

definition enqueue :: "'m pendingMessage \<Rightarrow> 'm peer \<Rightarrow> 'm peer" where
  "enqueue m n =
     (let n = n\<lparr>pendingMsg := pendingMsg n @ [m]\<rparr>
      in if length (pendingMsg n) = 1 then n\<lparr>dialing := dialing n + 1\<rparr> else n)"

text \<open>
  \<open>sendMessage\<close>. With a socket the message goes to \<open>socket.Send\<close>, whose result is that of
  the call and is not known here. On the two paths that return \<open>ErrPendingQueueFull\<close> the
  mutex is not released.
\<close>

definition sendMessage ::
    "nat \<Rightarrow> int \<Rightarrow> (nat \<Rightarrow> bool) \<Rightarrow> 'm \<Rightarrow> int \<Rightarrow> 'm peer \<Rightarrow> ('m, go_error option) outcomes" where
  "sendMessage MaxPendingMsgSize now done msg dl n =
     (if mutex n then []
      else (case sock n of
              Some s \<Rightarrow> [(None, [Direct s msg], n)]
            | None \<Rightarrow>
                (if length (pendingMsg n) \<ge> MaxPendingMsgSize then
                   if dl = 0 then [(Some ErrPendingQueueFull, [], n\<lparr>mutex := True\<rparr>)]
                   else
                     let n = removeFailedMsg now done True n
                     in if length (pendingMsg n) \<ge> MaxPendingMsgSize
                        then [(Some ErrPendingQueueFull, [], n\<lparr>mutex := True\<rparr>)]
                        else [(None, [Queued msg], enqueue \<lparr>message = msg, deadline = dl, ctx = None\<rparr> n)]
                 else [(None, [Queued msg], enqueue \<lparr>message = msg, deadline = dl, ctx = None\<rparr> n)])))"

definition sendMessageWithContext ::
    "nat \<Rightarrow> int \<Rightarrow> (nat \<Rightarrow> bool) \<Rightarrow> 'm \<Rightarrow> nat \<Rightarrow> 'm peer \<Rightarrow> ('m, go_error option) outcomes" where
  "sendMessageWithContext MaxPendingMsgSize now done msg c n =
     (if mutex n then []
      else (case sock n of
              Some s \<Rightarrow> [(None, [Direct s msg], n)]
            | None \<Rightarrow>
                (let n = (if length (pendingMsg n) \<ge> MaxPendingMsgSize
                          then removeFailedMsg now done True n else n)
                 in if length (pendingMsg n) \<ge> MaxPendingMsgSize
                    then [(Some ErrPendingQueueFull, [], n\<lparr>mutex := True\<rparr>)]
                    else [(None, [Queued msg], enqueue \<lparr>message = msg, deadline = 0, ctx = Some c\<rparr> n)])))"

text \<open>
  \<open>onEstablish\<close> makes the socket and gives it the queued messages that are not too late.
  The caller holds the mutex.
\<close>

definition in_time :: "int \<Rightarrow> (nat \<Rightarrow> bool) \<Rightarrow> 'm pendingMessage \<Rightarrow> bool" where
  "in_time now done m \<longleftrightarrow>
     (case ctx m of Some c \<Rightarrow> \<not> done c | None \<Rightarrow> deadline m = 0 \<or> now < deadline m)"

definition onEstablish :: "int \<Rightarrow> (nat \<Rightarrow> bool) \<Rightarrow> 'm peer \<Rightarrow> 'm peer_event list \<times> 'm peer" where
  "onEstablish now done n =
     (let s = nextSock n
      in (map (\<lambda>m. Flushed s (message m)) (filter (in_time now done) (pendingMsg n)),
          n\<lparr>sock := Some s, nextSock := Suc s, live := live n @ [s], pendingMsg := []\<rparr>))"

text \<open>The two ends of a dial, which is no longer running, unless it is scheduled again.\<close>

definition dialError :: "int \<Rightarrow> (nat \<Rightarrow> bool) \<Rightarrow> 'm peer \<Rightarrow> ('m, unit) outcomes" where
  "dialError now done n =
     (if mutex n then []
      else
        let n = n\<lparr>dialing := dialing n - 1\<rparr>
        in if sock n = None then
             let n = removeFailedMsg now done False n
             in if length (pendingMsg n) > 0 then [((), [], n\<lparr>dialing := dialing n + 1\<rparr>)] else [((), [], n)]
           else [((), [], n)])"

definition dialOK :: "int \<Rightarrow> (nat \<Rightarrow> bool) \<Rightarrow> 'm peer \<Rightarrow> ('m, unit) outcomes" where
  "dialOK now done n =
     (if mutex n then []
      else
        let n = n\<lparr>dialing := dialing n - 1\<rparr>
        in if sock n \<noteq> None then [((), [], n)] else [((), onEstablish now done n)])"

text \<open>
  The end of \<open>dial\<close>, with what dialling and the handshake gave, and whether the local node
  has been stopped.
\<close>

definition dial :: "bool \<Rightarrow> bool \<Rightarrow> int \<Rightarrow> (nat \<Rightarrow> bool) \<Rightarrow> 'm peer \<Rightarrow> ('m, unit) outcomes" where
  "dial selfDie ok now done n =
     (if dialing n = 0 then []
      else if selfDie then [((), [], n\<lparr>dialing := dialing n - 1\<rparr>)]
      else if ok then dialOK now done n
      else dialError now done n)"

text \<open>
  The decision about an incoming connection, after the handshake was checked. \<open>self\<close> and
  \<open>other\<close> are the logical addresses, \<open>writeErr\<close> the result of writing the answer.
\<close>

definition acceptConn ::
    "u32 \<Rightarrow> u32 \<Rightarrow> go_error option \<Rightarrow> int \<Rightarrow> (nat \<Rightarrow> bool) \<Rightarrow> 'm peer \<Rightarrow> ('m, go_error option) outcomes" where
  "acceptConn self other writeErr now done n =
     (if mutex n then []
      else if length (pendingMsg n) \<noteq> 0 \<and> self < other then [(Some ErrSimultaneous, [], n)]
      else if length (pendingMsg n) = 0 \<and> sock n \<noteq> None then [(Some ErrDuplicateConn, [], n)]
      else (case writeErr of
              Some e \<Rightarrow> [(Some e, [], n)]
            | None \<Rightarrow> [(None, onEstablish now done n)]))"

text \<open>The close callback that \<open>onEstablish\<close> gives to socket \<open>s\<close>.\<close>

definition closeCallback :: "nat \<Rightarrow> 'm peer \<Rightarrow> ('m, unit) outcomes" where
  "closeCallback s n =
     (if mutex n \<or> s \<notin> set (live n) then []
      else [((), [], n\<lparr>sock := None, live := filter (\<lambda>x. x \<noteq> s) (live n)\<rparr>)])"

definition closeSocket :: "'m peer \<Rightarrow> ('m, unit) outcomes" where
  "closeSocket n =
     (if mutex n then []
      else (case sock n of
              None \<Rightarrow> [((), [], n)]
            | Some s \<Rightarrow> [((), [Closing s], n\<lparr>sock := None\<rparr>)]))"

section \<open>Runs\<close>

inductive peer_step :: "nat \<Rightarrow> bool \<Rightarrow> 'm peer \<Rightarrow> 'm peer_event list \<Rightarrow> 'm peer \<Rightarrow> bool"
  for mx selfDie where
  send: "(r, evs, n') \<in> set (sendMessage mx now done msg dl n) \<Longrightarrow> peer_step mx selfDie n evs n'"
| send_ctx: "(r, evs, n') \<in> set (sendMessageWithContext mx now done msg c n) \<Longrightarrow> peer_step mx selfDie n evs n'"
| dial: "(r, evs, n') \<in> set (dial selfDie ok now done n) \<Longrightarrow> peer_step mx selfDie n evs n'"
| accept: "(r, evs, n') \<in> set (acceptConn self other we now done n) \<Longrightarrow> peer_step mx selfDie n evs n'"
| callback: "(r, evs, n') \<in> set (closeCallback s n) \<Longrightarrow> peer_step mx selfDie n evs n'"
| close: "(r, evs, n') \<in> set (closeSocket n) \<Longrightarrow> peer_step mx selfDie n evs n'"

inductive peer_run :: "nat \<Rightarrow> bool \<Rightarrow> 'm peer_event list \<Rightarrow> 'm peer \<Rightarrow> bool"
  for mx selfDie where
  start: "peer_run mx selfDie [] new_peer"
| step: "peer_run mx selfDie tr n \<Longrightarrow> peer_step mx selfDie n evs n' \<Longrightarrow> peer_run mx selfDie (tr @ evs) n'"

definition queued :: "'m peer_event list \<Rightarrow> 'm list" where
  "queued tr = concat (map (\<lambda>e. case e of Queued m \<Rightarrow> [m] | _ \<Rightarrow> []) tr)"

definition flushed :: "'m peer_event list \<Rightarrow> 'm list" where
  "flushed tr = concat (map (\<lambda>e. case e of Flushed s m \<Rightarrow> [m] | _ \<Rightarrow> []) tr)"

lemma peer_trace_simps [simp]:
  "queued [] = []" "flushed [] = []"
  "queued (e # tr) = (case e of Queued m \<Rightarrow> [m] | _ \<Rightarrow> []) @ queued tr"
  "flushed (e # tr) = (case e of Flushed s m \<Rightarrow> [m] | _ \<Rightarrow> []) @ flushed tr"
  "queued (tr @ tr') = queued tr @ queued tr'" "flushed (tr @ tr') = flushed tr @ flushed tr'"
  by (simp_all add: queued_def flushed_def)

lemma trace_flush [simp]:
  "queued (map (\<lambda>m. Flushed s (message m)) ms) = []"
  "flushed (map (\<lambda>m. Flushed s (message m)) ms) = map message ms"
  by (induction ms) auto

section \<open>The queue and the connection\<close>

definition peer_inv :: "nat \<Rightarrow> 'm peer_event list \<Rightarrow> 'm peer \<Rightarrow> bool" where
  "peer_inv mx tr n \<longleftrightarrow>
     (pendingMsg n \<noteq> [] \<longrightarrow> sock n = None \<and> dialing n > 0) \<and>
     length (pendingMsg n) \<le> mx \<and>
     subseq (flushed tr @ map message (pendingMsg n)) (queued tr)"

lemma subseq_filter_map: "subseq (map f (filter P xs)) (map f xs)"
  by (simp add: subseq_map subseq_filter_left)

lemma subseq_drop_tail:
  assumes "subseq (xs @ map f ys) zs"
  shows "subseq (xs @ map f (filter P ys)) zs"
  using assms subseq_filter_map [of f P ys] by (metis list_emb_append_mono subseq_order.trans subseq_order.refl)

lemma subseq_snoc_both: "subseq xs ys \<Longrightarrow> subseq (xs @ [a]) (ys @ [a])"
  by (simp add: list_emb_append_mono)

lemma removeFailedMsg_inv:
  "peer_inv mx tr n \<Longrightarrow> peer_inv mx tr (removeFailedMsg now done z n)"
  unfolding peer_inv_def removeFailedMsg_def
  by (auto simp: subseq_drop_tail intro: le_trans [OF length_filter_le] filter_False)

lemma enqueue_inv:
  assumes "peer_inv mx tr n" "length (pendingMsg n) < mx" "sock n = None"
  shows "peer_inv mx (tr @ [Queued (message m)]) (enqueue m n)"
  using assms subseq_snoc_both [of "flushed tr @ map message (pendingMsg n)" "queued tr" "message m"]
  by (cases "pendingMsg n") (auto simp: peer_inv_def enqueue_def Let_def)

lemma mutex_inv [simp]: "peer_inv mx tr (n\<lparr>mutex := b\<rparr>) = peer_inv mx tr n"
  by (simp add: peer_inv_def)

lemma onEstablish_inv:
  assumes "peer_inv mx tr n" "onEstablish now done n = (evs, n')"
  shows "peer_inv mx (tr @ evs) n'"
  using assms subseq_drop_tail [of "flushed tr" message "pendingMsg n" "queued tr" "in_time now done"]
  by (auto simp: peer_inv_def onEstablish_def Let_def)

lemma removeFailedMsg_sock [simp]: "sock (removeFailedMsg now done z n) = sock n"
  "mutex (removeFailedMsg now done z n) = mutex n" "dialing (removeFailedMsg now done z n) = dialing n"
  by (simp_all add: removeFailedMsg_def)

lemma sendMessage_inv:
  assumes "peer_inv mx tr n" "(r, evs, n') \<in> set (sendMessage mx now done msg dl n)"
  shows "peer_inv mx (tr @ evs) n'"
  using assms enqueue_inv [of mx tr _ "\<lparr>message = msg, deadline = dl, ctx = None\<rparr>"]
    removeFailedMsg_inv [of mx tr n now "done" True]
  by (auto simp: sendMessage_def Let_def split: if_splits option.splits)
     (auto simp: peer_inv_def)

lemma sendMessageWithContext_inv:
  assumes "peer_inv mx tr n" "(r, evs, n') \<in> set (sendMessageWithContext mx now done msg c n)"
  shows "peer_inv mx (tr @ evs) n'"
  using assms enqueue_inv [of mx tr _ "\<lparr>message = msg, deadline = 0, ctx = Some c\<rparr>"]
    removeFailedMsg_inv [of mx tr n now "done" True]
  by (auto simp: sendMessageWithContext_def Let_def split: if_splits option.splits)
     (auto simp: peer_inv_def)

lemma dial_inv:
  assumes "peer_inv mx tr n" "(r, evs, n') \<in> set (dial False ok now done n)"
  shows "peer_inv mx (tr @ evs) n'"
proof -
  have run: "\<not> mutex n" "dialing n > 0"
    using assms(2) by (auto simp: dial_def dialOK_def dialError_def split: if_splits)
  let ?n = "n\<lparr>dialing := dialing n - 1\<rparr>"
  let ?f = "removeFailedMsg now done False ?n"
  show ?thesis
  proof (cases "sock n")
    case None
    have fail: "peer_inv mx tr (if pendingMsg ?f \<noteq> [] then ?f\<lparr>dialing := dialing ?f + 1\<rparr> else ?f)"
      using removeFailedMsg_inv [OF assms(1), of now "done" False] None run(2)
      by (auto simp: peer_inv_def removeFailedMsg_def)
    have "peer_inv mx (tr @ evs') m" if "onEstablish now done ?n = (evs', m)" for evs' m
      using onEstablish_inv [OF assms(1), of now "done"] that
      by (auto simp: onEstablish_def Let_def peer_inv_def)
    with fail assms(2) None run show ?thesis
      by (auto simp: dial_def dialOK_def dialError_def Let_def split: if_splits)
  next
    case (Some x)
    with assms run show ?thesis
      by (auto simp: dial_def dialOK_def dialError_def peer_inv_def Let_def split: if_splits)
  qed
qed

lemma acceptConn_inv:
  assumes "peer_inv mx tr n" "(r, evs, n') \<in> set (acceptConn self other we now done n)"
  shows "peer_inv mx (tr @ evs) n'"
  using assms onEstablish_inv [OF assms(1), of now "done"]
  by (auto simp: acceptConn_def split: if_splits option.splits)

lemma peer_close_inv:
  assumes "peer_inv mx tr n"
  shows "(r, evs, n') \<in> set (closeCallback s n) \<Longrightarrow> peer_inv mx (tr @ evs) n'"
    "(r, evs, n') \<in> set (closeSocket n) \<Longrightarrow> peer_inv mx (tr @ evs) n'"
  using assms by (auto simp: peer_inv_def closeCallback_def closeSocket_def split: if_splits option.splits)

lemma peer_inv_step:
  assumes "peer_inv mx tr n" "peer_step mx False n evs n'"
  shows "peer_inv mx (tr @ evs) n'"
  using assms(2)
proof cases
qed (blast intro: assms(1) sendMessage_inv sendMessageWithContext_inv dial_inv acceptConn_inv peer_close_inv)+

lemma peer_inv_run: "peer_run mx False tr n \<Longrightarrow> peer_inv mx tr n"
proof (induction rule: peer_run.induct)
  case start
  then show ?case by (simp add: peer_inv_def new_peer_def)
next
  case (step tr n evs n')
  then show ?case using peer_inv_step by blast
qed

section \<open>A mutex that is not released\<close>

lemma stuck_step:
  assumes "peer_step mx selfDie n evs n'" "mutex n"
  shows "evs = [] \<and> mutex n' \<and> pendingMsg n' = pendingMsg n \<and> sock n' = sock n"
  using assms(1)
proof cases
qed (use assms(2) in \<open>auto simp: sendMessage_def sendMessageWithContext_def dial_def dialOK_def dialError_def
    acceptConn_def closeCallback_def closeSocket_def split: if_splits\<close>)

inductive peer_steps :: "nat \<Rightarrow> bool \<Rightarrow> 'm peer \<Rightarrow> 'm peer_event list \<Rightarrow> 'm peer \<Rightarrow> bool"
  for mx selfDie where
  none: "peer_steps mx selfDie n [] n"
| more: "peer_steps mx selfDie n tr n' \<Longrightarrow> peer_step mx selfDie n' evs n'' \<Longrightarrow>
    peer_steps mx selfDie n (tr @ evs) n''"

lemma stuck_steps:
  assumes "peer_steps mx selfDie n tr n'" "mutex n"
  shows "tr = [] \<and> mutex n' \<and> pendingMsg n' = pendingMsg n \<and> sock n' = sock n"
  using assms
proof (induction rule: peer_steps.induct)
  case (none n)
  then show ?case by simp
next
  case (more n tr n' evs n'')
  then show ?case using stuck_step [OF more.hyps(2)] by auto
qed

section \<open>Properties\<close>

text \<open>
  C9. No message waits in vain and none overtakes another: in every run of a node that is
  not stopped, a message in the queue means that there is no socket and that a dial is
  running or scheduled, so the queue will be looked at again; the queue holds at most
  \<open>MaxPendingMsgSize\<close> messages; and the messages given to sockets from the queue, followed
  by those still waiting, are a subsequence of the messages that were queued: in order,
  none twice.
\<close>

theorem pending_queue_invariant:
  assumes "peer_run MaxPendingMsgSize False tr n"
  shows "(pendingMsg n \<noteq> [] \<longrightarrow> sock n = None \<and> dialing n > 0) \<and>
    length (pendingMsg n) \<le> MaxPendingMsgSize \<and>
    subseq (flushed tr @ map message (pendingMsg n)) (queued tr)"
  using peer_inv_run [OF assms] by (simp add: peer_inv_def)

definition demo_peer :: "nat peer" where
  "demo_peer = \<lparr>mutex = False, sock = None, pendingMsg = [\<lparr>message = 7, deadline = 50, ctx = None\<rparr>],
     dialing = 1, live = [], nextSock = 0\<rparr>"

lemma demo_queued: "peer_run 1 False [Queued 7] demo_peer"
proof -
  have "peer_step 1 False new_peer [Queued 7] demo_peer"
    by (rule peer_step.send [of None _ _ _ 10 "\<lambda>_. False" 7 50])
       (simp add: sendMessage_def new_peer_def enqueue_def demo_peer_def)
  from peer_run.step [OF peer_run.start this] show ?thesis by simp
qed

theorem pending_queue_invariant_witness:
  "pendingMsg demo_peer \<noteq> [] \<and> sock demo_peer = None \<and> dialing demo_peer > 0 \<and>
   subseq (flushed [Queued 7] @ map message (pendingMsg demo_peer)) (queued [Queued 7])"
proof -
  have "pendingMsg demo_peer \<noteq> []" by (simp add: demo_peer_def)
  with pending_queue_invariant [OF demo_queued] show ?thesis by blast
qed

text \<open>
  The queue is drained completely by a new connection: when a dial succeeds and there
  is no socket yet, every queued message that is not too late is given to the new socket in
  order, the others are dropped, and the queue is empty.
\<close>

lemma dial_drains_queue:
  assumes "\<not> mutex n" "sock n = None" "dialing n > 0"
  shows "\<exists>n'. dial False True now done n =
      [((), map (\<lambda>m. Flushed (nextSock n) (message m)) (filter (in_time now done) (pendingMsg n)), n')] \<and>
    pendingMsg n' = [] \<and> sock n' = Some (nextSock n) \<and> \<not> mutex n'"
  using assms by (simp add: dial_def dialOK_def onEstablish_def Let_def)

text \<open>
  C16. A full queue disables the connection for good: when \<open>sendMessage\<close> finds the queue
  full and the message has no deadline, it returns \<open>ErrPendingQueueFull\<close> with the node's
  mutex still locked, and from then on no step, of a sender, a dial, an incoming connection
  or a closing socket, sends or queues anything or changes the queue or the socket.
\<close>

theorem full_queue_locks_up:
  assumes "\<not> mutex n" "sock n = None" "MaxPendingMsgSize \<le> length (pendingMsg n)"
  shows "\<exists>n'. sendMessage MaxPendingMsgSize now done msg 0 n = [(Some ErrPendingQueueFull, [], n')] \<and>
    (\<forall>tr n''. peer_steps MaxPendingMsgSize selfDie n' tr n'' \<longrightarrow>
       tr = [] \<and> pendingMsg n'' = pendingMsg n \<and> sock n'' = None)"
proof -
  have "sendMessage MaxPendingMsgSize now done msg 0 n = [(Some ErrPendingQueueFull, [], n\<lparr>mutex := True\<rparr>)]"
    using assms by (simp add: sendMessage_def)
  moreover have "tr = [] \<and> pendingMsg n'' = pendingMsg n \<and> sock n'' = None"
    if "peer_steps MaxPendingMsgSize selfDie (n\<lparr>mutex := True\<rparr>) tr n''" for tr n''
    using stuck_steps [OF that] assms(2) by simp
  ultimately show ?thesis by blast
qed

theorem full_queue_locks_up_witness:
  "peer_run 1 False [Queued 7] demo_peer \<and>
   (\<exists>n'. sendMessage 1 20 (\<lambda>_. False) 8 0 demo_peer = [(Some ErrPendingQueueFull, [], n')] \<and>
     (\<forall>tr n''. peer_steps 1 False n' tr n'' \<longrightarrow> tr = [] \<and> pendingMsg n'' = pendingMsg demo_peer \<and> sock n'' = None))"
  by (rule conjI [OF demo_queued], rule full_queue_locks_up) (simp_all add: demo_peer_def)

text \<open>
  The flag \<open>removeZero\<close> has no effect: a message without a deadline is removed by
  \<open>removeFailedMsg\<close> also when it is called with \<open>false\<close>, because the zero time lies before
  the current time. So a single failed dial drops every waiting message without a deadline.
\<close>

lemma removeZero_irrelevant:
  assumes "now > 0"
  shows "removeFailedMsg now done removeZero n = removeFailedMsg now done (\<not> removeZero) n \<and>
    (\<forall>m. deadline m = 0 \<and> ctx m = None \<longrightarrow> m \<notin> set (pendingMsg (removeFailedMsg now done False n)))"
proof -
  have "removed now done removeZero m = removed now done (\<not> removeZero) m" for m :: "'a pendingMessage"
    using assms by (auto simp: removed_def split: option.split)
  then show ?thesis using assms by (auto simp: removeFailedMsg_def removed_def)
qed

text \<open>
  When two nodes dial each other at the same time, one connection survives: of the two
  incoming connections, the node with the smaller logical address refuses the other's and
  the node with the larger address accepts, which empties its queue onto that connection.
\<close>

lemma simultaneous_connect_one_wins:
  assumes "self < other" "\<not> mutex a" "\<not> mutex b" "pendingMsg a \<noteq> []" "pendingMsg b \<noteq> []"
  shows "acceptConn self other None now done a = [(Some ErrSimultaneous, [], a)] \<and>
    (\<exists>evs b'. acceptConn other self None now done b = [(None, evs, b')] \<and> sock b' = Some (nextSock b) \<and>
      pendingMsg b' = [] \<and> flushed evs = map message (filter (in_time now done) (pendingMsg b)))"
  using assms by (auto simp: acceptConn_def onEstablish_def Let_def)

text \<open>
  A late close callback forgets a new connection: the callback clears the node's socket
  without looking whose callback it is. There is a run in which the first socket is told to
  close, a second one is established, and then the first one's callback leaves the node
  without a socket although the second was never told to close.
\<close>

lemma stale_callback_forgets_socket:
  "\<exists>tr (n :: nat peer). peer_run 1024 False tr n \<and> sock n = None \<and> live n = [1] \<and> Closing 1 \<notin> set tr"
proof -
  define m where "m k = \<lparr>message = k, deadline = 50, ctx = None\<rparr>" for k :: nat
  define st where "st so p d l k = \<lparr>mutex = False, sock = so, pendingMsg = p, dialing = d, live = l, nextSock = k\<rparr>"
    for so and p :: "nat pendingMessage list" and d l k
  have q: "peer_step 1024 False (st None [] 0 l k) [Queued x] (st None [m x] 1 l k)" for l k x
    by (rule peer_step.send [of None _ _ _ 10 "\<lambda>_. False" x 50])
       (simp add: sendMessage_def enqueue_def st_def m_def)
  have d: "peer_step 1024 False (st None [m x] 1 l k) [Flushed k x] (st (Some k) [] 0 (l @ [k]) (Suc k))" for l k x
    by (rule peer_step.dial [of "()" _ _ False True 20 "\<lambda>_. False"])
       (simp add: dial_def dialOK_def onEstablish_def in_time_def st_def m_def)
  have c: "peer_step 1024 False (st (Some 0) [] 0 [0] 1) [Closing 0] (st None [] 0 [0] 1)"
    by (rule peer_step.close [of "()"]) (simp add: closeSocket_def st_def)
  have b: "peer_step 1024 False (st (Some 1) [] 0 [0, 1] 2) [] (st None [] 0 [1] 2)"
    by (rule peer_step.callback [of "()" _ _ 0]) (simp add: closeCallback_def st_def)
  have "peer_run 1024 False [] (st None [] 0 [] 0)"
    using peer_run.start [of 1024 False] by (simp add: new_peer_def st_def)
  from peer_run.step [OF this q [of "[]" 0 7]] have "peer_run 1024 False [Queued 7] (st None [m 7] 1 [] 0)" by simp
  from peer_run.step [OF this d] have "peer_run 1024 False [Queued 7, Flushed 0 7] (st (Some 0) [] 0 [0] 1)" by simp
  from peer_run.step [OF this c]
  have "peer_run 1024 False [Queued 7, Flushed 0 7, Closing 0] (st None [] 0 [0] 1)" by simp
  from peer_run.step [OF peer_run.step [OF this q [of "[0]" 1 8]] d]
  have "peer_run 1024 False [Queued 7, Flushed 0 7, Closing 0, Queued 8, Flushed 1 8] (st (Some 1) [] 0 [0, 1] 2)"
    by (simp add: numeral_2_eq_2)
  from peer_run.step [OF this b]
  have "peer_run 1024 False [Queued 7, Flushed 0 7, Closing 0, Queued 8, Flushed 1 8] (st None [] 0 [1] 2)" by simp
  then show ?thesis by (intro exI conjI) (auto simp: st_def)
qed

end
