(* ===== verification/Handshake.thy ===== *)
theory Handshake
  imports Crypto Node_Cache Node_Conn
begin

text \<open>
  The handshake with which a dialling node introduces itself (\<open>node.handshake\<close> in \<open>node.go\<close>)
  and the checks of the accepting node (\<open>onNewConnection\<close> in \<open>cluster.go\<close>), which end with
  the decision of \<^const>\<open>acceptConn\<close> or with a stream session.

  Parameters: the JSON package on the struct \<open>Handshake\<close>, the sealing of AES-GCM with its
  random nonce, the results of writing to the connection, and what \<open>smux.Server\<close> returns.
  The bytes that arrive before the read deadline are an argument.
\<close>

section \<open>Both sides\<close>

record Handshake =
  hLogicAddr :: u32
  hNetAddr :: string
  hIsStream :: bool

definition maxHandshakePayload :: nat where "maxHandshakePayload = 1024"

definition ErrInvaildNode :: go_error where "ErrInvaildNode = GoError ''invaild node''"
definition ErrNetAddrMismatch :: go_error where "ErrNetAddrMismatch = GoError ''net addr mismatch''"
definition ErrHandshakeTooBig :: go_error where "ErrHandshakeTooBig = GoError ''handshake payload too large''"

text \<open>\<open>io.ReadFull\<close>: the bytes and the rest of the input, or the error of a connection that ends or times out.\<close>

definition ReadFull :: "nat \<Rightarrow> go_error \<Rightarrow> bytes \<Rightarrow> go_error + (bytes \<times> bytes)" where
  "ReadFull n readErr input = (if n \<le> length input then Inr (take n input, drop n input) else Inl readErr)"

text \<open>The dialling side: the error and the bytes it writes. \<open>answer\<close> is what comes back.\<close>

definition handshake ::
    "(Handshake \<Rightarrow> go_error + bytes) \<Rightarrow> (bytes \<Rightarrow> bytes \<Rightarrow> bytes \<Rightarrow> bytes) \<Rightarrow> bytes \<Rightarrow> bytes \<Rightarrow>
     Addr \<Rightarrow> bool \<Rightarrow> go_error option \<Rightarrow> go_error \<Rightarrow> bytes \<Rightarrow> go_error option \<times> bytes" where
  "handshake json_Marshal Seal nonce secretKey self isStream writeErr readErr answer =
     (case json_Marshal \<lparr>hLogicAddr = logicAddr self, hNetAddr = tcp_String (netAddr self), hIsStream = isStream\<rparr> of
        Inl err \<Rightarrow> (Some err, [])
      | Inr j \<Rightarrow>
          (case AESEncrypt Seal nonce secretKey j of
             Inl err \<Rightarrow> (Some err, [])
           | Inr j \<Rightarrow>
               let b = be_bytes 4 (of_nat (length j) :: u32) @ j
               in (case writeErr of
                     Some err \<Rightarrow> (Some err, b)
                   | None \<Rightarrow>
                       (case ReadFull 4 readErr answer of
                          Inl err \<Rightarrow> (Some err, b)
                        | Inr _ \<Rightarrow> (None, b)))))"

text \<open>The accepting side up to the check of the sender's addresses: the node and the kind of connection.\<close>

definition check_handshake ::
    "(bytes \<Rightarrow> Handshake \<Rightarrow> go_error + Handshake) \<Rightarrow> (bytes \<Rightarrow> bytes \<Rightarrow> bytes \<Rightarrow> go_error + bytes) \<Rightarrow>
     bytes \<Rightarrow> nodeCache \<Rightarrow> node list \<Rightarrow> go_error \<Rightarrow> bytes \<Rightarrow> go_error + (ptr \<times> bool)" where
  "check_handshake json_Unmarshal Open secretKey cache heap readErr input =
     (case ReadFull 4 readErr input of Inl err \<Rightarrow> Inl err | Inr (buff, input) \<Rightarrow>
      let datasize = unat (of_be buff :: u32)
      in if datasize > maxHandshakePayload then Inl ErrHandshakeTooBig
         else (case ReadFull datasize readErr input of Inl err \<Rightarrow> Inl err | Inr (buff, _) \<Rightarrow>
              (case AESDecrypt Open secretKey buff of Inl err \<Rightarrow> Inl err | Inr buff \<Rightarrow>
              (case json_Unmarshal buff \<lparr>hLogicAddr = 0, hNetAddr = [], hIsStream = False\<rparr> of
                 Inl err \<Rightarrow> Inl err
               | Inr hs \<Rightarrow>
                   (case cache_getNodeByLogicAddr cache (hLogicAddr hs) of
                      None \<Rightarrow> Inl ErrInvaildNode
                    | Some n \<Rightarrow>
                        if tcp_String (netAddr (addr (heap ! n))) \<noteq> hNetAddr hs then Inl ErrNetAddrMismatch
                        else Inr (n, hIsStream hs))))))"

text \<open>
  The whole of \<open>onNewConnection\<close>. \<open>conns\<close> are the connections of the cached nodes,
  \<open>hasStream\<close> says whether a stream handler was set, and the last component of an outcome
  whether a stream session was started.
\<close>

definition onNewConnection ::
    "(bytes \<Rightarrow> Handshake \<Rightarrow> go_error + Handshake) \<Rightarrow> (bytes \<Rightarrow> bytes \<Rightarrow> bytes \<Rightarrow> go_error + bytes) \<Rightarrow>
     bytes \<Rightarrow> logic_addr \<Rightarrow> nodeCache \<Rightarrow> node list \<Rightarrow> bool \<Rightarrow> go_error option \<Rightarrow> go_error option \<Rightarrow>
     int \<Rightarrow> (nat \<Rightarrow> bool) \<Rightarrow> go_error \<Rightarrow> bytes \<Rightarrow> (ptr \<Rightarrow> 'm peer) \<Rightarrow>
     (go_error option \<times> 'm peer_event list \<times> (ptr \<Rightarrow> 'm peer) \<times> bool) list" where
  "onNewConnection json_Unmarshal Open secretKey self cache heap hasStream writeErr smuxErr now done readErr input conns =
     (case check_handshake json_Unmarshal Open secretKey cache heap readErr input of
        Inl err \<Rightarrow> [(Some err, [], conns, False)]
      | Inr (n, True) \<Rightarrow>
          if \<not> hasStream then [(Some (GoError ''onNewStream not set''), [], conns, False)]
          else (case writeErr of
                  Some err \<Rightarrow> [(Some err, [], conns, False)]
                | None \<Rightarrow>
                    (case smuxErr of
                       Some err \<Rightarrow> [(Some err, [], conns, False)]
                     | None \<Rightarrow> [(None, [], conns, True)]))
      | Inr (n, False) \<Rightarrow>
          map (\<lambda>(err, evs, p). (err, evs, conns(n := p), False))
            (acceptConn self (logicAddr (addr (heap ! n))) writeErr now done (conns n)))"

section \<open>Properties\<close>

text \<open>The law of the JSON package on this struct.\<close>

definition hs_json_ok ::
    "(Handshake \<Rightarrow> go_error + bytes) \<Rightarrow> (bytes \<Rightarrow> Handshake \<Rightarrow> go_error + Handshake) \<Rightarrow> bool" where
  "hs_json_ok json_Marshal json_Unmarshal \<longleftrightarrow>
     (\<forall>h z. \<exists>b. json_Marshal h = Inr b \<and> json_Unmarshal b z = Inr h)"

lemma check_handshake_written:
  assumes "hs_json_ok json_Marshal json_Unmarshal" "gcm_ok Seal Open"
    and "length nonce = NonceSize" "NewCipher secretKey = None"
    and "handshake json_Marshal Seal nonce secretKey self isStream writeErr readErr answer = (res, b)"
    and "length b \<le> 4 + maxHandshakePayload"
  shows "check_handshake json_Unmarshal Open secretKey cache heap readErr' (b @ rest) =
    (case cache_getNodeByLogicAddr cache (logicAddr self) of
       None \<Rightarrow> Inl ErrInvaildNode
     | Some n \<Rightarrow> if tcp_String (netAddr (addr (heap ! n))) \<noteq> tcp_String (netAddr self)
         then Inl ErrNetAddrMismatch else Inr (n, isStream))"
proof -
  let ?h = "\<lparr>hLogicAddr = logicAddr self, hNetAddr = tcp_String (netAddr self), hIsStream = isStream\<rparr>"
  obtain j where j: "json_Marshal ?h = Inr j"
    "json_Unmarshal j \<lparr>hLogicAddr = 0, hNetAddr = [], hIsStream = False\<rparr> = Inr ?h"
    using assms(1) unfolding hs_json_ok_def by blast
  let ?e = "nonce @ Seal secretKey nonce j"
  have b: "b = be_bytes 4 (of_nat (length ?e) :: u32) @ ?e"
    using assms(4,5) j(1) by (auto simp: handshake_def AESEncrypt_def Let_def split: option.splits sum.splits)
  have size: "length ?e \<le> 1024" using assms(6) b by (simp add: maxHandshakePayload_def)
  have "unat (of_nat n :: u32) = n" if "n \<le> 1024" for n
    using that by (simp add: unat_of_nat take_bit_nat_eq_self)
  from this [OF size] have "unat (of_nat (length ?e) :: u32) = length ?e" .
  moreover have "AESDecrypt Open secretKey ?e = Inr j"
    using assms(2-4) by (simp add: AESDecrypt_def gcm_ok_def)
  ultimately show ?thesis using j(2) b size
    by (simp add: check_handshake_def ReadFull_def maxHandshakePayload_def split: option.split)
qed

lemma handshake_too_big:
  assumes "length hdr = 4" "unat (of_be hdr :: u32) > maxHandshakePayload"
  shows "onNewConnection json_Unmarshal Open key self cache heap hasStream writeErr smuxErr now done readErr
      (hdr @ rest) conns = [(Some ErrHandshakeTooBig, [], conns, False)]"
  using assms by (simp add: onNewConnection_def check_handshake_def ReadFull_def)


text \<open>A JSON form and a seal that satisfy the laws.\<close>

definition demo_hs_Marshal :: "Handshake \<Rightarrow> go_error + bytes" where
  "demo_hs_Marshal h = Inr ((if hIsStream h then 1 else 0) # be_bytes 4 (hLogicAddr h) @ bytes_of_string (hNetAddr h))"

definition demo_hs_Unmarshal :: "bytes \<Rightarrow> Handshake \<Rightarrow> go_error + Handshake" where
  "demo_hs_Unmarshal b z = Inr \<lparr>hLogicAddr = of_be (take 4 (tl b)), hNetAddr = string_of_bytes (drop 5 b), hIsStream = (hd b = 1)\<rparr>"

lemma demo_hs_ok: "hs_json_ok demo_hs_Marshal demo_hs_Unmarshal"
  by (simp add: hs_json_ok_def demo_hs_Marshal_def demo_hs_Unmarshal_def)

lemma demo_gcm_ok: "gcm_ok (\<lambda>k n p. replicate 16 0 @ p) (\<lambda>k n c. Inr (drop 16 c))"
  by (simp add: gcm_ok_def)


end
