(* ===== verification/Frame_Reader.thy ===== *)
theory Frame_Reader
  imports SS_Codec
begin

text \<open>
  The receiving side of a connection (\<open>frameReader.recv\<close> in \<open>socket/socket.go\<close>): it cuts
  the byte stream of a TCP connection into the payloads of length-prefixed frames, however
  the bytes are split over the reads.

  The connection is the list of what its reads still have to give, in order: data, or an
  error. A read takes at most as many bytes as the slice it is given has room for. A read
  with nothing left blocks. The loop is a \<open>partial_function\<close> whose result \<open>None\<close> means that
  the call does not return.
\<close>

section \<open>The connection\<close>

datatype conn_event = Data bytes | Fail go_error

fun conn_read :: "nat \<Rightarrow> conn_event list \<Rightarrow> (bytes \<times> go_error option \<times> conn_event list) option" where
  "conn_read k [] = None"
| "conn_read k (Fail e # es) = Some ([], Some e, es)"
| "conn_read k (Data c # es) =
     Some (take k c, None, if length c \<le> k then es else Data (drop k c) # es)"

section \<open>Cutting frames off a connection\<close>

datatype frame_result = NeedMore | Bad go_error | Got bytes bytes

text \<open>The bytes a connection gives before its first error, and that error.\<close>

fun stream :: "conn_event list \<Rightarrow> bytes" where
  "stream [] = []"
| "stream (Data c # es) = c @ stream es"
| "stream (Fail e # es) = []"

fun first_error :: "conn_event list \<Rightarrow> go_error option" where
  "first_error [] = None"
| "first_error (Data c # es) = first_error es"
| "first_error (Fail e # es) = Some e"

text \<open>What is left to read gets smaller with every read into a slice that has room.\<close>

fun weight :: "conn_event list \<Rightarrow> nat" where
  "weight [] = 0"
| "weight (Data c # es) = Suc (length c + weight es)"
| "weight (Fail e # es) = Suc (weight es)"

lemma conn_read_progress:
  assumes "conn_read k conn = Some (data, None, conn')" "0 < k"
  shows "weight conn' < weight conn \<and> length data \<le> k \<and> stream conn = data @ stream conn' \<and>
    first_error conn = first_error conn'"
  using assms by (induction k conn rule: conn_read.induct) auto

lemma conn_read_error:
  assumes "conn_read k conn = Some (data, Some e, conn')"
  shows "data = [] \<and> stream conn = [] \<and> first_error conn = Some e"
  using assms by (induction k conn rule: conn_read.induct) auto

lemma conn_read_blocked: "conn_read k conn = None \<Longrightarrow> conn = []"
  by (cases "(k, conn)" rule: conn_read.cases) auto

text \<open>
  The contract of a receive loop. A reader holds some bytes and has a limit; \<open>cut\<close> says what
  its limit makes of a byte stream, and \<open>unpk\<close> does one round on the bytes it holds: it
  gives a result, or makes room for more, which \<open>fill\<close> puts there.
\<close>

definition recv_meets ::
    "('f \<Rightarrow> bool) \<Rightarrow> ('f \<Rightarrow> bytes) \<Rightarrow> ('f \<Rightarrow> 'l) \<Rightarrow> 'f \<Rightarrow> conn_event list \<Rightarrow> frame_result \<Rightarrow>
     ((go_error + bytes) \<times> 'f \<times> conn_event list) option \<Rightarrow> bool" where
  "recv_meets ok held lim f conn spec res \<longleftrightarrow>
     (case spec of
        Got p rest \<Rightarrow> \<exists>f' conn'. res = Some (Inr p, f', conn') \<and> ok f' \<and>
          lim f' = lim f \<and> held f' @ stream conn' = rest \<and> first_error conn' = first_error conn
      | Bad e \<Rightarrow> \<exists>f' conn'. res = Some (Inl e, f', conn')
      | NeedMore \<Rightarrow> (case first_error conn of
          None \<Rightarrow> res = None
        | Some e \<Rightarrow> \<exists>f' conn'. res = Some (Inl e, f', conn')))"

lemma recv_meets_cong:
  "recv_meets ok held lim f' conn' spec res \<Longrightarrow> lim f' = lim f \<Longrightarrow> first_error conn' = first_error conn \<Longrightarrow>
   recv_meets ok held lim f conn spec res"
  by (cases spec) (simp_all add: recv_meets_def)

text \<open>Receiving a number of payloads.\<close>

fun recv_n :: "('f \<Rightarrow> conn_event list \<Rightarrow> ((go_error + bytes) \<times> 'f \<times> conn_event list) option) \<Rightarrow>
    nat \<Rightarrow> 'f \<Rightarrow> conn_event list \<Rightarrow> (bytes list \<times> 'f \<times> conn_event list) option" where
  "recv_n receive 0 f conn = Some ([], f, conn)"
| "recv_n receive (Suc k) f conn =
     (case receive f conn of
        Some (Inr p, f1, conn1) \<Rightarrow>
          (case recv_n receive k f1 conn1 of
             Some (ps, f2, conn2) \<Rightarrow> Some (p # ps, f2, conn2)
           | None \<Rightarrow> None)
      | _ \<Rightarrow> None)"

locale frame_loop =
  fixes unpk :: "'f \<Rightarrow> (go_error + bytes) option \<times> 'f"
    and room :: "'f \<Rightarrow> nat"
    and fill :: "bytes \<Rightarrow> 'f \<Rightarrow> 'f"
    and held :: "'f \<Rightarrow> bytes"
    and ok :: "'f \<Rightarrow> bool"
    and lim :: "'f \<Rightarrow> 'l"
    and cut :: "'l \<Rightarrow> bytes \<Rightarrow> frame_result"
    and receive :: "'f \<Rightarrow> conn_event list \<Rightarrow> ((go_error + bytes) \<times> 'f \<times> conn_event list) option"
  assumes unpk_done: "ok f \<Longrightarrow> unpk f = (Some res, f') \<Longrightarrow>
      (case cut (lim f) (held f) of
         NeedMore \<Rightarrow> False
       | Bad e \<Rightarrow> res = Inl e
       | Got p rest \<Rightarrow> res = Inr p \<and> held f' = rest \<and> ok f' \<and> lim f' = lim f)"
    and unpk_more: "ok f \<Longrightarrow> unpk f = (None, f') \<Longrightarrow>
      cut (lim f) (held f) = NeedMore \<and> held f' = held f \<and> lim f' = lim f \<and> 0 < room f'"
    and filled: "ok f \<Longrightarrow> unpk f = (None, f') \<Longrightarrow> length data \<le> room f' \<Longrightarrow>
      ok (fill data f') \<and> held (fill data f') = held f' @ data \<and> lim (fill data f') = lim f'"
    and cut_Got: "cut l s = Got p r \<Longrightarrow> cut l (s @ t) = Got p (r @ t)"
    and cut_Bad: "cut l s = Bad e \<Longrightarrow> cut l (s @ t) = Bad e"
    and receive: "receive f conn =
      (case unpk f of
         (Some res, f1) \<Rightarrow> Some (res, f1, conn)
       | (None, f1) \<Rightarrow>
           (case conn_read (room f1) conn of
              None \<Rightarrow> None
            | Some (data, Some e, conn') \<Rightarrow> Some (Inl e, fill data f1, conn')
            | Some (data, None, conn') \<Rightarrow> receive (fill data f1) conn'))"
begin

lemma receive_correct:
  "ok f \<Longrightarrow> recv_meets ok held lim f conn (cut (lim f) (held f @ stream conn)) (receive f conn)"
proof (induction "weight conn" arbitrary: f conn rule: less_induct)
  case less
  obtain r f1 where u: "unpk f = (r, f1)" by (rule prod.exhaust)
  show ?case
  proof (cases r)
    case (Some res)
    with u have "receive f conn = Some (res, f1, conn)" by (subst receive) simp
    with unpk_done [OF less.prems, of res f1] u Some show ?thesis
      unfolding recv_meets_def by (auto simp: cut_Got cut_Bad split: frame_result.splits)
  next
    case None
    have m: "cut (lim f) (held f) = NeedMore" "held f1 = held f" "lim f1 = lim f" "0 < room f1"
      using unpk_more [OF less.prems, of f1] u None by auto
    consider "conn_read (room f1) conn = None"
      | (err) data e conn' where "conn_read (room f1) conn = Some (data, Some e, conn')"
      | (more) data conn' where "conn_read (room f1) conn = Some (data, None, conn')"
      by (metis option.exhaust prod_cases3)
    then show ?thesis
    proof cases
      case 1
      then have "receive f conn = None" using u None by (subst receive) simp
      then show ?thesis using conn_read_blocked [OF 1] m by (simp add: recv_meets_def)
    next
      case err
      then have "receive f conn = Some (Inl e, fill data f1, conn')" using u None by (subst receive) simp
      then show ?thesis using conn_read_error [OF err] m by (simp add: recv_meets_def)
    next
      case more
      note rd = conn_read_progress [OF more m(4)]
      have f2: "ok (fill data f1)" "held (fill data f1) = held f @ data" "lim (fill data f1) = lim f"
        using filled [OF less.prems, of f1 data] u None rd m by auto
      have "receive f conn = receive (fill data f1) conn'" using more u None by (subst receive) simp
      moreover have "recv_meets ok held lim (fill data f1) conn'
          (cut (lim (fill data f1)) (held (fill data f1) @ stream conn')) (receive (fill data f1) conn')"
        using less.hyps f2(1) rd by simp
      ultimately show ?thesis using f2 rd by (auto elim: recv_meets_cong)
    qed
  qed
qed

lemma receive_n_frames:
  assumes "ok f" "held f @ stream conn = concat (map frame ps) @ rest"
    and "\<And>p t. p \<in> set ps \<Longrightarrow> cut (lim f) (frame p @ t) = Got p t"
  shows "\<exists>f' conn'. recv_n receive (length ps) f conn = Some (ps, f', conn') \<and> ok f' \<and>
    held f' @ stream conn' = rest \<and> lim f' = lim f"
  using assms
proof (induction ps arbitrary: f conn)
  case Nil
  then show ?case by simp
next
  case (Cons p ps)
  have "cut (lim f) (held f @ stream conn) = Got p (concat (map frame ps) @ rest)"
    using Cons.prems(2,3) by simp
  then obtain f1 conn1 where 1: "receive f conn = Some (Inr p, f1, conn1)" "ok f1"
    "lim f1 = lim f" "held f1 @ stream conn1 = concat (map frame ps) @ rest"
    using receive_correct [OF Cons.prems(1), of conn] by (auto simp: recv_meets_def)
  then show ?case using Cons.IH [of f1 conn1] Cons.prems(3) by auto
qed

end

section \<open>The reader\<close>

definition headLen :: nat where "headLen = 4"

record frameReader =
  fbuf :: bytes
  fw :: nat
  fr :: nat
  maxSize :: nat

text \<open>The reader as \<open>recvloop\<close> makes it.\<close>

definition new_frameReader :: "nat \<Rightarrow> frameReader" where
  "new_frameReader MaxPacketSize = \<lparr>fbuf = replicate 4096 0, fw = 0, fr = 0, maxSize = MaxPacketSize\<rparr>"

text \<open>The bytes received and not yet handed out, \<open>fr.buf[fr.r:fr.w]\<close>.\<close>

definition pending :: "frameReader \<Rightarrow> bytes" where
  "pending f = take (fw f - fr f) (drop (fr f) (fbuf f))"

text \<open>
  The part of the loop before the read: return a payload or an error, or make room for
  more data. The buffer's length is also its capacity, since it is only ever made by
  \<open>make([]byte, n)\<close>.
\<close>

definition unpack :: "frameReader \<Rightarrow> (go_error + bytes) option \<times> frameReader" where
  "unpack f =
     (let unpackSize = fw f - fr f
      in if unpackSize \<ge> headLen then
           let payload = unat (of_be (take 4 (drop (fr f) (fbuf f))) :: u32);
               totalSize = payload + headLen
           in if payload = 0 then (Some (Inl (GoError ''zero payload'')), f)
              else if totalSize > maxSize f
                then (Some (Inl (GoError (''packet too large:'' @ show_nat totalSize))), f)
              else if totalSize \<le> unpackSize then
                let r = fr f + headLen;
                    pkt = take payload (drop r (fbuf f));
                    r = r + payload;
                    f = (if r = fw f then f\<lparr>fr := 0, fw := 0\<rparr> else f\<lparr>fr := r\<rparr>)
                in (Some (Inr pkt), f)
              else
                let b = (if totalSize > length (fbuf f) then patch (replicate totalSize 0) 0 (pending f)
                         else if fr f > 0 then patch (fbuf f) 0 (pending f)
                         else fbuf f)
                in (None, f\<lparr>fbuf := b, fw := fw f - fr f, fr := 0\<rparr>)
         else if fr f > 0 then
           (None, f\<lparr>fbuf := patch (fbuf f) 0 (pending f), fw := fw f - fr f, fr := 0\<rparr>)
         else (None, f))"

text \<open>
  The whole call. \<open>SetReadDeadline\<close> fails when the connection is closed; its error is
  returned like that of \<open>Read\<close>, so both are the event \<open>Fail\<close>.
\<close>

partial_function (option) recv ::
    "frameReader \<Rightarrow> conn_event list \<Rightarrow> ((go_error + bytes) \<times> frameReader \<times> conn_event list) option" where
  "recv f conn =
     (case unpack f of
        (Some res, f1) \<Rightarrow> Some (res, f1, conn)
      | (None, f1) \<Rightarrow>
          (case conn_read (length (fbuf f1) - fw f1) conn of
             None \<Rightarrow> None
           | Some (data, err, conn') \<Rightarrow>
               let f2 = f1\<lparr>fbuf := patch (fbuf f1) (fw f1) data, fw := fw f1 + length data\<rparr>
               in (case err of
                     Some e \<Rightarrow> Some (Inl e, f2, conn')
                   | None \<Rightarrow> recv f2 conn')))"

section \<open>The specification: cutting a frame off a byte stream\<close>

definition parse_frame :: "nat \<Rightarrow> bytes \<Rightarrow> frame_result" where
  "parse_frame mx s =
     (if length s < 4 then NeedMore
      else
        let n = unat (of_be (take 4 s) :: u32)
        in if n = 0 then Bad (GoError ''zero payload'')
           else if n + 4 > mx then Bad (GoError (''packet too large:'' @ show_nat (n + 4)))
           else if n + 4 \<le> length s then Got (take n (drop 4 s)) (drop (n + 4) s)
           else NeedMore)"

definition reader_inv :: "frameReader \<Rightarrow> bool" where
  "reader_inv f \<longleftrightarrow> fr f \<le> fw f \<and> fw f \<le> length (fbuf f) \<and> 4 \<le> length (fbuf f)"

lemma new_frameReader_inv: "reader_inv (new_frameReader mx)"
  by (simp add: reader_inv_def new_frameReader_def)

lemma length_pending: "reader_inv f \<Longrightarrow> length (pending f) = fw f - fr f"
  by (auto simp: reader_inv_def pending_def min_def)

lemma pending_unmoved: "fr f = 0 \<Longrightarrow> f\<lparr>fr := 0\<rparr> = f"
  by simp

lemma pending_moved:
  "length p \<le> length b \<Longrightarrow> pending (f\<lparr>fbuf := patch b 0 p, fw := length p, fr := 0\<rparr>) = p"
  by (simp add: pending_def patch_def)

lemma take4_pending:
  "reader_inv f \<Longrightarrow> 4 \<le> fw f - fr f \<Longrightarrow> take 4 (drop (fr f) (fbuf f)) = take 4 (pending f)"
  by (simp add: pending_def)

text \<open>
  One round of the loop against the specification: a complete frame or a bad header is
  reported, and otherwise nothing is lost and there is room to read.
\<close>

lemma pending_slice:
  "n + m \<le> fw f - fr f \<Longrightarrow> take n (drop m (pending f)) = take n (drop (fr f + m) (fbuf f))"
  by (auto simp: pending_def drop_take min_def add.commute)

lemma pending_advance: "pending (f\<lparr>fr := fr f + k\<rparr>) = drop k (pending f)"
  by (simp add: pending_def drop_take add.commute)

lemma pending_reset: "pending (f\<lparr>fr := 0, fw := 0\<rparr>) = []"
  by (simp add: pending_def)

lemma unpack_done:
  assumes "reader_inv f" "unpack f = (Some res, f')"
  shows "(case parse_frame (maxSize f) (pending f) of
            NeedMore \<Rightarrow> False
          | Bad e \<Rightarrow> res = Inl e
          | Got p rest \<Rightarrow> res = Inr p \<and> pending f' = rest \<and> reader_inv f' \<and> maxSize f' = maxSize f)"
proof -
  define n where "n = unat (of_be (take 4 (pending f)) :: u32)"
  have len: "length (pending f) = fw f - fr f" by (rule length_pending [OF assms(1)])
  have size: "4 \<le> fw f - fr f"
    using assms(2) by (auto simp: unpack_def Let_def headLen_def split: if_splits)
  then have head: "unat (of_be (take 4 (drop (fr f) (fbuf f))) :: u32) = n"
    by (simp add: n_def take4_pending [OF assms(1)])
  consider "n = 0" | "n \<noteq> 0" "maxSize f < n + 4" | "n \<noteq> 0" "n + 4 \<le> maxSize f" by linarith
  then show ?thesis
  proof cases
    case 3
    then have fits: "n + 4 \<le> fw f - fr f" and res: "res = Inr (take n (drop (fr f + 4) (fbuf f)))"
      and f': "f' = (if fr f + 4 + n = fw f then f\<lparr>fr := 0, fw := 0\<rparr> else f\<lparr>fr := fr f + (4 + n)\<rparr>)"
      using assms(2) size by (auto simp: unpack_def Let_def headLen_def head add.assoc split: if_splits)
    have "pending f' = drop (n + 4) (pending f)"
      using f' fits len pending_reset [of f] pending_advance [of f "4 + n"]
      by (auto simp: add.commute [of 4])
    moreover have "reader_inv f'" "maxSize f' = maxSize f"
      using f' fits assms(1) by (auto simp: reader_inv_def)
    ultimately show ?thesis
      using 3 fits len size res pending_slice [OF fits] by (simp add: parse_frame_def Let_def n_def)
  qed (use assms(2) size len head in
      \<open>auto simp: unpack_def Let_def headLen_def parse_frame_def n_def\<close>)
qed

lemma unpack_more:
  assumes "reader_inv f" "unpack f = (None, f')"
  shows "parse_frame (maxSize f) (pending f) = NeedMore \<and> pending f' = pending f \<and>
    reader_inv f' \<and> fr f' = 0 \<and> fw f' < length (fbuf f') \<and> maxSize f' = maxSize f"
proof -
  note len = length_pending [OF assms(1)]
  have moved: "pending (f\<lparr>fbuf := patch b 0 (pending f), fw := fw f - fr f, fr := 0\<rparr>) = pending f"
    if "fw f - fr f \<le> length b" for b
    using pending_moved [of "pending f" b f] that len by simp
  show ?thesis
    using assms len moved [of "fbuf f"] moved [of "replicate _ 0"] take4_pending [OF assms(1)]
    by (auto simp: unpack_def Let_def headLen_def parse_frame_def reader_inv_def length_patch
        pending_unmoved split: if_splits)
qed

lemma parse_frame_append:
  "parse_frame mx s = Got p r \<Longrightarrow> parse_frame mx (s @ t) = Got p (r @ t)"
  "parse_frame mx s = Bad e \<Longrightarrow> parse_frame mx (s @ t) = Bad e"
  by (auto simp: parse_frame_def Let_def split: if_splits)

lemma parse_frame_frame:
  assumes "p \<noteq> []" "4 + length p \<le> mx" "length p < 2 ^ 32"
  shows "parse_frame mx (frame p @ t) = Got p t"
proof -
  have "unat (of_nat (length p) :: u32) = length p" using assms by (simp add: unat_of_nat)
  with assms show ?thesis by (auto simp: parse_frame_def Let_def frame_def)
qed

lemma pending_filled:
  assumes "reader_inv f" "fr f = 0" "length data \<le> length (fbuf f) - fw f"
  shows "pending (f\<lparr>fbuf := patch (fbuf f) (fw f) data, fw := fw f + length data\<rparr>) = pending f @ data"
    "reader_inv (f\<lparr>fbuf := patch (fbuf f) (fw f) data, fw := fw f + length data\<rparr>)"
  using assms by (auto simp: pending_def patch_def reader_inv_def)

interpretation frames: frame_loop unpack "\<lambda>f. length (fbuf f) - fw f"
  "\<lambda>data f. f\<lparr>fbuf := patch (fbuf f) (fw f) data, fw := fw f + length data\<rparr>"
  pending reader_inv maxSize parse_frame recv
proof
  show "recv f conn =
      (case unpack f of
         (Some res, f1) \<Rightarrow> Some (res, f1, conn)
       | (None, f1) \<Rightarrow>
           (case conn_read (length (fbuf f1) - fw f1) conn of
              None \<Rightarrow> None
            | Some (data, Some e, conn') \<Rightarrow>
                Some (Inl e, f1\<lparr>fbuf := patch (fbuf f1) (fw f1) data, fw := fw f1 + length data\<rparr>, conn')
            | Some (data, None, conn') \<Rightarrow>
                recv (f1\<lparr>fbuf := patch (fbuf f1) (fw f1) data, fw := fw f1 + length data\<rparr>) conn'))" for f conn
    by (subst recv.simps) (auto simp: Let_def split: option.split prod.split)
  fix f f' and data :: bytes
  assume f: "reader_inv f" "unpack f = (None, f')"
  note m = unpack_more [OF f]
  show "parse_frame (maxSize f) (pending f) = NeedMore \<and> pending f' = pending f \<and> maxSize f' = maxSize f \<and>
      0 < length (fbuf f') - fw f'"
    using m by simp
  assume "length data \<le> length (fbuf f') - fw f'"
  then show "reader_inv (f'\<lparr>fbuf := patch (fbuf f') (fw f') data, fw := fw f' + length data\<rparr>) \<and>
      pending (f'\<lparr>fbuf := patch (fbuf f') (fw f') data, fw := fw f' + length data\<rparr>) = pending f' @ data \<and>
      maxSize (f'\<lparr>fbuf := patch (fbuf f') (fw f') data, fw := fw f' + length data\<rparr>) = maxSize f'"
    using pending_filled [of f' data] m by simp
qed (use unpack_done parse_frame_append in blast)+

lemmas recv_correct = frames.receive_correct
lemmas recv_n_frames = frames.receive_n_frames

text \<open>Whatever is cut off is a frame.\<close>

lemma parse_frame_Got:
  assumes "parse_frame mx s = Got p rest"
  shows "s = frame p @ rest \<and> p \<noteq> [] \<and> 4 + length p \<le> mx"
proof -
  define n where "n = unat (of_be (take 4 s) :: u32)"
  have g: "4 \<le> length s" "n \<noteq> 0" "n + 4 \<le> mx" "n + 4 \<le> length s"
    "p = take n (drop 4 s)" "rest = drop (n + 4) s"
    using assms by (auto simp: parse_frame_def Let_def n_def split: if_splits)
  then have "length p = n" by simp
  then have "be_bytes 4 (of_nat (length p) :: u32) = take 4 s"
    using be_bytes_of_be [of "take 4 s", where 'a = 32] g(1) by (simp add: n_def)
  moreover have "s = take 4 s @ take n (drop 4 s) @ drop (n + 4) s"
    by (metis append_take_drop_id drop_drop)
  ultimately show ?thesis using g \<open>length p = n\<close> by (auto simp: frame_def)
qed

section \<open>Properties\<close>

text \<open>
  C12. \<open>recv\<close> cuts frames off the byte stream, however the stream is split into reads: from
  any state of the reader it returns the payload of the first frame and keeps the rest; a
  frame that is announced empty or larger than the limit is an error; when the connection
  fails before a frame is complete, that error is returned; and it keeps waiting only when
  the connection gives neither a complete frame nor an error. The loop ends, because each
  read has room for at least one byte.
\<close>

theorem recv_refines_parse_frame:
  assumes "reader_inv f"
  shows "(case parse_frame (maxSize f) (pending f @ stream conn) of
      Got p rest \<Rightarrow> \<exists>f' conn'. recv f conn = Some (Inr p, f', conn') \<and> reader_inv f' \<and>
        pending f' @ stream conn' = rest \<and> pending f @ stream conn = frame p @ rest
    | Bad e \<Rightarrow> \<exists>f' conn'. recv f conn = Some (Inl e, f', conn')
    | NeedMore \<Rightarrow> (case first_error conn of
        None \<Rightarrow> recv f conn = None
      | Some e \<Rightarrow> \<exists>f' conn'. recv f conn = Some (Inl e, f', conn')))"
proof (cases "parse_frame (maxSize f) (pending f @ stream conn)")
  case (Got p rest)
  from recv_correct [OF assms, of conn] Got parse_frame_Got [OF Got] show ?thesis
    unfolding recv_meets_def by auto
qed (use recv_correct [OF assms, of conn] in \<open>simp_all add: recv_meets_def\<close>)

theorem recv_refines_parse_frame_witness:
  "\<exists>f' conn'. recv (new_frameReader 4096) [Data [0, 0], Data [0, 2, 7], Data [8, 0]] =
      Some (Inr [7, 8], f', conn') \<and> pending f' @ stream conn' = [0]"
proof -
  have "pending (new_frameReader 4096) = []" "maxSize (new_frameReader 4096) = 4096"
    by (simp_all add: new_frameReader_def pending_def)
  moreover have "parse_frame 4096 [0, 0, 0, 2, 7, 8, 0] = Got [7, 8] [0]"
    by (simp add: parse_frame_def of_be_def)
  ultimately show ?thesis
    using recv_refines_parse_frame [OF new_frameReader_inv, of 4096 "[Data [0, 0], Data [0, 2, 7], Data [8, 0]]"]
    by auto
qed

end
