(* ===== verification/Socket.thy ===== *)
theory Socket
  imports Frame_Reader
begin

text \<open>
  A framed TCP connection (\<open>socket/socket.go\<close>): the send queue and the goroutine that
  gathers and writes encoded messages, the goroutine that receives, decodes and handles
  frames, and closing.

  The state is what the goroutines share; what they do to the outside is a list of events.
  A Go \<open>select\<close> takes any of its ready cases, so an operation is the list of its possible
  outcomes, empty when it blocks. The steps of the goroutines interleave freely
  (\<open>sock_step\<close>). The codec is a parameter (\<open>enc\<close>, \<open>dec\<close>), and so are the outcome of a
  write to the connection and the error the packet handler returns.
\<close>

section \<open>State and events\<close>

definition ErrSendQueueFull :: go_error where
  "ErrSendQueueFull = GoError ''send queue full''"
definition ErrPushToSendQueueTimeout :: go_error where
  "ErrPushToSendQueueTimeout = GoError ''push to send queue timeout''"
definition ErrSocketClosed :: go_error where
  "ErrSocketClosed = GoError ''socket closed''"
definition ErrRecvTimeout :: go_error where
  "ErrRecvTimeout = GoError ''recv timeout''"

text \<open>Where the send goroutine is: in its loop, flushing after the socket was closed, or gone.\<close>

datatype phase = Looping | Flushing | Done

record 'o Socket =
  die :: bool
  sendReq :: "'o list"
  sendCap :: nat
  recvReq :: bool
  closeReason :: "go_error option"
  doCloseOnce :: bool
  autoRecv :: bool
  batchSendSize :: nat
  sbuf :: bytes
  total :: nat
  sendPhase :: phase
  recvDone :: bool
  freader :: frameReader
  conn :: "conn_event list"

text \<open>
  What happens: a message is put into the queue, taken from it, bytes reach the connection,
  a decoded packet is handed to the packet handler, the close callback is called.
\<close>

datatype ('o, 'p) event =
  Pushed 'o | Taken 'o | Wrote bytes | Handled 'p | Callback "go_error option"

record Options =
  SendChanSize :: int
  BatchSendSize :: int
  AutoRecv :: bool

definition New :: "nat \<Rightarrow> bytes \<Rightarrow> conn_event list \<Rightarrow> Options \<Rightarrow> 'o Socket" where
  "New MaxPacketSize pooled c opts =
     (let opts = (if SendChanSize opts \<le> 0 then opts\<lparr>SendChanSize := 1\<rparr> else opts);
          opts = (if BatchSendSize opts \<le> 0 then opts\<lparr>BatchSendSize := 65535\<rparr> else opts)
      in \<lparr>die = False, sendReq = [], sendCap = nat (SendChanSize opts), recvReq = False,
          closeReason = None, doCloseOnce = False, autoRecv = AutoRecv opts,
          batchSendSize = nat (BatchSendSize opts), sbuf = pooled, total = 0,
          sendPhase = Looping, recvDone = False,
          freader = new_frameReader MaxPacketSize, conn = c\<rparr>)"

section \<open>Closing\<close>

text \<open>
  \<open>close\<close> runs once. Closing the connection makes the reads of the receiving goroutine
  fail; writes may fail from then on.
\<close>

definition ErrNetClosed :: go_error where
  "ErrNetClosed = GoError ''use of closed network connection''"

definition close :: "go_error option \<Rightarrow> 'o Socket \<Rightarrow> 'o Socket" where
  "close err s =
     (if die s then s
      else s\<lparr>closeReason := (case err of None \<Rightarrow> closeReason s | Some e \<Rightarrow> Some e),
             die := True, conn := [Fail ErrNetClosed]\<rparr>)"

definition doClose :: "'o Socket \<Rightarrow> ('o, 'p) event list \<times> 'o Socket" where
  "doClose s =
     (if doCloseOnce s then ([], s)
      else ([Callback (closeReason s)], s\<lparr>doCloseOnce := True, conn := [Fail ErrNetClosed]\<rparr>))"

definition finalize :: "'o Socket \<Rightarrow> (('o, 'p) event list \<times> 'o Socket) list" where
  "finalize s = (if sendPhase s = Done \<and> recvDone s then [doClose s] else [])"

section \<open>Sending\<close>

text \<open>The ready cases of a \<open>select\<close> on the closing and on the send queue.\<close>

definition send_cases ::
    "'o Socket \<Rightarrow> 'o \<Rightarrow> (go_error option \<times> ('o, 'p) event list \<times> 'o Socket) list" where
  "send_cases s o' =
     (if die s then [(Some ErrSocketClosed, [], s)] else []) @
     (if length (sendReq s) < sendCap s
      then [(None, [Pushed o'], s\<lparr>sendReq := sendReq s @ [o']\<rparr>)] else [])"

text \<open>
  \<open>Send\<close>: \<open>timeout\<close> is what \<open>getTimeout\<close> returns (0 for a zero deadline), \<open>fired\<close> tells
  whether the timer has fired.
\<close>

definition Send ::
    "'o Socket \<Rightarrow> 'o \<Rightarrow> int \<Rightarrow> bool \<Rightarrow> (go_error option \<times> ('o, 'p) event list \<times> 'o Socket) list" where
  "Send s o' timeout fired =
     (if timeout = 0 then send_cases s o'
      else if timeout > 0 then
        send_cases s o' @ (if fired then [(Some ErrPushToSendQueueTimeout, [], s)] else [])
      else if send_cases s o' = ([] :: (go_error option \<times> ('o, 'p) event list \<times> 'o Socket) list)
        then [(Some ErrSendQueueFull, [], s)]
      else send_cases s o')"

definition SendWithContext ::
    "'o Socket \<Rightarrow> 'o \<Rightarrow> go_error option \<Rightarrow> (go_error option \<times> ('o, 'p) event list \<times> 'o Socket) list" where
  "SendWithContext s o' ctxErr =
     send_cases s o' @ (case ctxErr of None \<Rightarrow> [] | Some e \<Rightarrow> [(Some e, [], s)])"

text \<open>
  The outcome of \<open>write\<close>: all bytes reached the connection, or an error came after some of
  them (\<open>conn.Write\<close> returns an error whenever it writes less than it was given).
\<close>

datatype write_result = WriteOk | WriteErr nat go_error

definition written :: "bytes \<Rightarrow> write_result \<Rightarrow> bytes" where
  "written b w = (case w of WriteOk \<Rightarrow> b | WriteErr n err \<Rightarrow> take n b)"

definition write_conn :: "bytes \<Rightarrow> write_result \<Rightarrow> ('o, 'p) event" where
  "write_conn b w = Wrote (written b w)"

text \<open>The message at the head of the queue is taken and encoded behind what is gathered.\<close>

definition gather :: "(bytes \<Rightarrow> 'o \<Rightarrow> bytes) \<Rightarrow> 'o Socket \<Rightarrow> 'o Socket" where
  "gather enc s =
     (let before = length (sbuf s); b = enc (sbuf s) (hd (sendReq s))
      in s\<lparr>sendReq := tl (sendReq s), sbuf := b, total := total s + (length b - before)\<rparr>)"

text \<open>
  One round of \<open>sendloop\<close>. In the loop the two cases of the \<open>select\<close> may both be ready.
  After the socket was closed, what is queued is flushed message by message.
\<close>

definition sendloop ::
    "(bytes \<Rightarrow> 'o \<Rightarrow> bytes) \<Rightarrow> write_result \<Rightarrow> 'o Socket \<Rightarrow> (('o, 'p) event list \<times> 'o Socket) list" where
  "sendloop enc w s =
     (case sendPhase s of
        Looping \<Rightarrow>
          (if die s then [([], s\<lparr>sendPhase := Flushing\<rparr>)] else []) @
          (if sendReq s \<noteq> [] then
             let o' = hd (sendReq s); s1 = gather enc s
             in if total s1 \<ge> batchSendSize s \<or> (total s1 > 0 \<and> length (sendReq s1) = 0)
                then (case w of
                        WriteErr n err \<Rightarrow>
                          [([Taken o', write_conn (sbuf s1) w], close (Some err) s1\<lparr>sendPhase := Done\<rparr>)]
                      | WriteOk \<Rightarrow> [([Taken o', write_conn (sbuf s1) w], s1\<lparr>sbuf := [], total := 0\<rparr>)])
                else [([Taken o'], s1)]
           else [])
      | Flushing \<Rightarrow>
          (if length (sendReq s) > 0 then
             let o' = hd (sendReq s); s1 = gather enc s
             in if total s1 \<ge> batchSendSize s
                then (case w of
                        WriteErr n err \<Rightarrow> [([Taken o', write_conn (sbuf s1) w], s1\<lparr>sendPhase := Done\<rparr>)]
                      | WriteOk \<Rightarrow> [([Taken o', write_conn (sbuf s1) w], s1\<lparr>sbuf := [], total := 0\<rparr>)])
                else [([Taken o'], s1)]
           else if total s > 0 then [([write_conn (sbuf s) w], s\<lparr>sendPhase := Done\<rparr>)]
           else [([], s\<lparr>sendPhase := Done\<rparr>)])
      | Done \<Rightarrow> [])"

section \<open>Receiving\<close>

definition Recv :: "'o Socket \<Rightarrow> 'o Socket list" where
  "Recv s =
     (let ready = (if die s then [s] else []) @ (if \<not> recvReq s then [s\<lparr>recvReq := True\<rparr>] else [])
      in if ready = [] then [s] else ready)"

text \<open>The state after a call of \<open>recv\<close> that returned.\<close>

definition received :: "'o Socket \<Rightarrow> frameReader \<Rightarrow> conn_event list \<Rightarrow> 'o Socket" where
  "received s f c = s\<lparr>recvReq := False, freader := f, conn := c\<rparr>"

text \<open>
  One round of \<open>recvloop\<close>. \<open>timeoutErr\<close> tells which errors of the connection are timeouts
  (\<open>isNetTimeout\<close>); the default \<open>onRecvTimeout\<close>, which nothing replaces, closes the socket.
  \<open>herr\<close> is what the handler returns. A blocked read makes no step.
\<close>

definition recvloop ::
    "(bytes \<Rightarrow> go_error + 'p) \<Rightarrow> (go_error \<Rightarrow> bool) \<Rightarrow> ('p \<Rightarrow> go_error option) \<Rightarrow>
     'o Socket \<Rightarrow> (('o, 'p) event list \<times> 'o Socket) list" where
  "recvloop dec timeoutErr herr s =
     (if recvDone s then []
      else
        (if die s then [([], s\<lparr>recvDone := True\<rparr>)] else []) @
        (if recvReq s then
           (case recv (freader s) (conn s) of
              None \<Rightarrow> []
            | Some (res, f, c) \<Rightarrow>
                let s1 = received s f c
                in (case res of
                      Inl err \<Rightarrow>
                        (if die s1 then [([], s1\<lparr>recvDone := True\<rparr>)]
                         else if timeoutErr err
                           then [([], close (Some ErrRecvTimeout) s1\<lparr>recvDone := True\<rparr>)]
                         else [([], close (Some err) s1\<lparr>recvDone := True\<rparr>)])
                    | Inr p \<Rightarrow>
                        (case dec p of
                           Inl derr \<Rightarrow> [([], close (Some derr) s1\<lparr>recvDone := True\<rparr>)]
                         | Inr packet \<Rightarrow>
                             (case herr packet of
                                Some e \<Rightarrow>
                                  [([Handled packet], close (Some e) s1\<lparr>recvDone := True\<rparr>)]
                              | None \<Rightarrow>
                                  (if autoRecv s1
                                   then map (\<lambda>s2. ([Handled packet], s2)) (Recv s1)
                                   else [([Handled packet], s1)])))))
         else []))"

section \<open>All interleavings\<close>

inductive sock_step ::
    "(bytes \<Rightarrow> 'o \<Rightarrow> bytes) \<Rightarrow> (bytes \<Rightarrow> go_error + 'p) \<Rightarrow>
     'o Socket \<Rightarrow> ('o, 'p) event list \<Rightarrow> 'o Socket \<Rightarrow> bool"
  for enc dec where
  send: "(r, evs, s') \<in> set (Send s o' timeout fired) \<Longrightarrow> sock_step enc dec s evs s'"
| send_ctx: "(r, evs, s') \<in> set (SendWithContext s o' ctxErr) \<Longrightarrow> sock_step enc dec s evs s'"
| arm: "s' \<in> set (Recv s) \<Longrightarrow> sock_step enc dec s [] s'"
| close: "sock_step enc dec s [] (close err s)"
| sender: "(evs, s') \<in> set (sendloop enc w s) \<Longrightarrow> sock_step enc dec s evs s'"
| receiver: "(evs, s') \<in> set (recvloop dec timeoutErr herr s) \<Longrightarrow> sock_step enc dec s evs s'"
| finish: "(evs, s') \<in> set (finalize s) \<Longrightarrow> sock_step enc dec s evs s'"

inductive sock_run ::
    "(bytes \<Rightarrow> 'o \<Rightarrow> bytes) \<Rightarrow> (bytes \<Rightarrow> go_error + 'p) \<Rightarrow>
     'o Socket \<Rightarrow> ('o, 'p) event list \<Rightarrow> 'o Socket \<Rightarrow> bool"
  for enc dec s0 where
  start: "sock_run enc dec s0 [] s0"
| step: "sock_run enc dec s0 tr s \<Longrightarrow> sock_step enc dec s evs s' \<Longrightarrow> sock_run enc dec s0 (tr @ evs) s'"

text \<open>What a run did, by kind of event.\<close>

definition pushes :: "('o, 'p) event list \<Rightarrow> 'o list" where
  "pushes tr = concat (map (\<lambda>e. case e of Pushed o' \<Rightarrow> [o'] | _ \<Rightarrow> []) tr)"

definition takes :: "('o, 'p) event list \<Rightarrow> 'o list" where
  "takes tr = concat (map (\<lambda>e. case e of Taken o' \<Rightarrow> [o'] | _ \<Rightarrow> []) tr)"

definition wrote :: "('o, 'p) event list \<Rightarrow> bytes" where
  "wrote tr = concat (map (\<lambda>e. case e of Wrote b \<Rightarrow> b | _ \<Rightarrow> []) tr)"

definition handled :: "('o, 'p) event list \<Rightarrow> 'p list" where
  "handled tr = concat (map (\<lambda>e. case e of Handled p \<Rightarrow> [p] | _ \<Rightarrow> []) tr)"

definition callbacks :: "('o, 'p) event list \<Rightarrow> go_error option list" where
  "callbacks tr = concat (map (\<lambda>e. case e of Callback r \<Rightarrow> [r] | _ \<Rightarrow> []) tr)"

lemmas trace_defs = pushes_def takes_def wrote_def handled_def callbacks_def

lemma trace_append [simp]:
  "pushes (tr @ tr') = pushes tr @ pushes tr'" "takes (tr @ tr') = takes tr @ takes tr'"
  "wrote (tr @ tr') = wrote tr @ wrote tr'" "handled (tr @ tr') = handled tr @ handled tr'"
  "callbacks (tr @ tr') = callbacks tr @ callbacks tr'"
  by (simp_all add: trace_defs)

text \<open>An event a run does not contain adds nothing.\<close>

lemma trace_Nil [simp]:
  "pushes [] = []" "takes [] = []" "wrote [] = []" "handled [] = []" "callbacks [] = []"
  by (simp_all add: trace_defs)

lemma trace_Cons [simp]:
  "pushes (e # tr) = (case e of Pushed o' \<Rightarrow> [o'] | _ \<Rightarrow> []) @ pushes tr"
  "takes (e # tr) = (case e of Taken o' \<Rightarrow> [o'] | _ \<Rightarrow> []) @ takes tr"
  "wrote (e # tr) = (case e of Wrote b \<Rightarrow> b | _ \<Rightarrow> []) @ wrote tr"
  "handled (e # tr) = (case e of Handled p \<Rightarrow> [p] | _ \<Rightarrow> []) @ handled tr"
  "callbacks (e # tr) = (case e of Callback r \<Rightarrow> [r] | _ \<Rightarrow> []) @ callbacks tr"
  by (simp_all add: trace_defs)

section \<open>The sending side\<close>

text \<open>What the socket relies on from its codec: it appends the encoding of the message.\<close>

definition enc_appends :: "(bytes \<Rightarrow> 'o \<Rightarrow> bytes) \<Rightarrow> ('o \<Rightarrow> bytes) \<Rightarrow> bool" where
  "enc_appends enc out \<longleftrightarrow> (\<forall>d o'. enc d o' = d @ out o')"

definition send_inv :: "('o \<Rightarrow> bytes) \<Rightarrow> ('o, 'p) event list \<Rightarrow> 'o Socket \<Rightarrow> bool" where
  "send_inv out tr s \<longleftrightarrow>
     pushes tr = takes tr @ sendReq s \<and> length (sendReq s) \<le> sendCap s \<and>
     (\<exists>rest. wrote tr @ rest = concat (map out (takes tr))) \<and>
     (sendPhase s \<noteq> Done \<longrightarrow>
        wrote tr @ sbuf s = concat (map out (takes tr)) \<and> total s = length (sbuf s)) \<and>
     (sendPhase s = Looping \<and> sbuf s \<noteq> [] \<longrightarrow> sendReq s \<noteq> [])"

lemma send_inv_untouched:
  assumes "send_inv out tr s" "sendReq s' = sendReq s" "sendCap s' = sendCap s" "sbuf s' = sbuf s"
    "total s' = total s" "sendPhase s' = sendPhase s"
    "pushes evs = []" "takes evs = []" "wrote evs = []"
  shows "send_inv out (tr @ evs) s'"
  using assms by (simp add: send_inv_def)

lemma send_inv_push:
  assumes "send_inv out tr s" "(r, evs, s') \<in> set (send_cases s o')"
  shows "send_inv out (tr @ evs) s'"
  using assms by (auto simp: send_inv_def send_cases_def split: if_splits)

lemma close_fields [simp]:
  "sendReq (close err s) = sendReq s" "sendCap (close err s) = sendCap s" "sbuf (close err s) = sbuf s"
  "total (close err s) = total s" "sendPhase (close err s) = sendPhase s"
  "recvDone (close err s) = recvDone s" "doCloseOnce (close err s) = doCloseOnce s"
  "freader (close err s) = freader s" "die (close err s)"
  by (simp_all add: close_def)

lemma close_noop [simp]: "die s \<Longrightarrow> close err s = s"
  by (simp add: close_def)

lemma gather_fields [simp]:
  assumes "enc_appends enc out"
  shows "sendReq (gather enc s) = tl (sendReq s)" "sbuf (gather enc s) = sbuf s @ out (hd (sendReq s))"
    "total (gather enc s) = total s + length (out (hd (sendReq s)))"
    "sendCap (gather enc s) = sendCap s" "sendPhase (gather enc s) = sendPhase s"
  using assms by (simp_all add: gather_def enc_appends_def Let_def)

lemma written_ok [simp]: "written b WriteOk = b"
  by (simp add: written_def)

lemma written_prefix [simp]: "\<exists>rest. written b w @ rest = b"
proof (cases w)
  case (WriteErr n err)
  then show ?thesis by (auto simp: written_def intro!: exI [of _ "drop n b"])
qed simp

lemma send_inv_sendloop:
  assumes "enc_appends enc out" "send_inv out tr s" "(evs, s') \<in> set (sendloop enc w s)"
  shows "send_inv out (tr @ evs) s'"
proof (cases "sendPhase s")
  case Looping
  have "concat (map out (takes tr)) = wrote tr @ sbuf s" "total s = length (sbuf s)"
    using assms(2) Looping by (auto simp: send_inv_def)
  then show ?thesis
    using assms Looping
    by (cases "sendReq s")
       (auto simp: sendloop_def send_inv_def Let_def write_conn_def Let_def
        split: if_splits write_result.splits)
next
  case Flushing
  have "concat (map out (takes tr)) = wrote tr @ sbuf s" "total s = length (sbuf s)"
    using assms(2) Flushing by (auto simp: send_inv_def)
  then show ?thesis
    using assms Flushing
    by (cases "sendReq s")
       (auto simp: sendloop_def send_inv_def Let_def write_conn_def
        split: if_splits write_result.splits)
next
  case Done
  then show ?thesis using assms by (simp add: sendloop_def)
qed

lemma Recv_keeps:
  assumes "s' \<in> set (Recv s)"
  shows "s' = s \<or> s' = s\<lparr>recvReq := True\<rparr>"
  using assms by (auto simp: Recv_def Let_def split: if_splits)

text \<open>
  The three ways a round of the receiving goroutine ends: it sees that the socket is
  closed, it closes the socket itself without handling a packet, or it handles one.
\<close>

lemma received_fields [simp]:
  "sendReq (received s f c) = sendReq s" "sendCap (received s f c) = sendCap s"
  "sbuf (received s f c) = sbuf s" "total (received s f c) = total s"
  "sendPhase (received s f c) = sendPhase s" "recvDone (received s f c) = recvDone s"
  "doCloseOnce (received s f c) = doCloseOnce s" "freader (received s f c) = f"
  "die (received s f c) = die s" "closeReason (received s f c) = closeReason s"
  "conn (received s f c) = c"
  by (simp_all add: received_def)

lemma recvloop_blocked:
  assumes "(evs, s') \<in> set (recvloop dec timeoutErr herr s)" "recv (freader s) (conn s) = None"
  shows "\<not> recvDone s \<and> die s \<and> evs = [] \<and> s' = s\<lparr>recvDone := True\<rparr>"
  using assms by (cases "die s"; cases "recvReq s"; cases "recvDone s") (simp_all add: recvloop_def)

lemma recvloop_failed:
  assumes "(evs, s') \<in> set (recvloop dec timeoutErr herr s)"
    "recv (freader s) (conn s) = Some (Inl err, f, c)"
  shows "\<not> recvDone s \<and> evs = [] \<and> (die s \<and> s' = s\<lparr>recvDone := True\<rparr> \<or>
    (\<exists>e. s' = (close (Some e) (received s f c))\<lparr>recvDone := True\<rparr>))"
  using assms
  by (cases "die s"; cases "recvReq s"; cases "recvDone s"; cases "timeoutErr err")
     (auto simp: recvloop_def)

lemma recvloop_got:
  assumes "(evs, s') \<in> set (recvloop dec timeoutErr herr s)"
    "recv (freader s) (conn s) = Some (Inr p, f, c)"
  shows "\<not> recvDone s \<and> (die s \<and> evs = [] \<and> s' = s\<lparr>recvDone := True\<rparr> \<or>
    (let closed = (\<exists>e. s' = (close (Some e) (received s f c))\<lparr>recvDone := True\<rparr>)
     in (case dec p of
           Inl derr \<Rightarrow> evs = [] \<and> closed
         | Inr packet \<Rightarrow> evs = [Handled packet] \<and>
             (closed \<or> s' = received s f c \<or> s' = (received s f c)\<lparr>recvReq := True\<rparr>))))"
  using assms
  by (cases "die s"; cases "recvReq s"; cases "recvDone s"; cases "dec p";
      cases "autoRecv (received s f c)")
     (auto simp: recvloop_def Let_def dest: Recv_keeps split: option.splits)

lemma recvloop_outcomes:
  assumes "(evs, s') \<in> set (recvloop dec timeoutErr herr s)"
  obtains
    (gone) "\<not> recvDone s" "die s" "evs = []" "s' = s\<lparr>recvDone := True\<rparr>"
  | (failed) res f c err where "\<not> recvDone s" "recv (freader s) (conn s) = Some (res, f, c)" "evs = []"
      "s' = (close (Some err) (received s f c))\<lparr>recvDone := True\<rparr>"
  | (got) p f c packet where "\<not> recvDone s" "recv (freader s) (conn s) = Some (Inr p, f, c)"
      "dec p = Inr packet" "evs = [Handled packet]"
      "(\<exists>e. s' = (close (Some e) (received s f c))\<lparr>recvDone := True\<rparr>) \<or>
       s' = received s f c \<or> s' = (received s f c)\<lparr>recvReq := True\<rparr>"
proof (cases "recv (freader s) (conn s)")
  case None
  then show ?thesis using recvloop_blocked [OF assms(1)] gone by simp
next
  case (Some r)
  obtain res f c where r: "r = (res, f, c)" by (metis prod_cases3)
  show ?thesis
  proof (cases res)
    case (Inl err)
    then show ?thesis
      using recvloop_failed [OF assms(1), of err f c] gone failed [of "Inl err" f c] Some r by auto
  next
    case (Inr p)
    then show ?thesis
      using recvloop_got [OF assms(1), of p f c] gone failed [of "Inr p" f c] got [of p f c] Some r
      by (cases "dec p") (auto simp: Let_def)
  qed
qed

text \<open>What a round of the receiving goroutine leaves alone.\<close>

lemma recvloop_sender:
  assumes "(evs, s') \<in> set (recvloop dec timeoutErr herr s)"
  shows "sendReq s' = sendReq s \<and> sendCap s' = sendCap s \<and> sbuf s' = sbuf s \<and> total s' = total s \<and>
    sendPhase s' = sendPhase s \<and> pushes evs = [] \<and> takes evs = [] \<and> wrote evs = [] \<and>
    doCloseOnce s' = doCloseOnce s \<and> callbacks evs = []"
  using assms by (cases rule: recvloop_outcomes) auto

lemma finalize_sender:
  assumes "(evs, s') \<in> set (finalize s)"
  shows "sendReq s' = sendReq s \<and> sendCap s' = sendCap s \<and> sbuf s' = sbuf s \<and> total s' = total s \<and>
    sendPhase s' = sendPhase s \<and> pushes evs = [] \<and> takes evs = [] \<and> wrote evs = [] \<and> handled evs = []"
  using assms by (auto simp: finalize_def doClose_def split: if_splits)

lemma send_results:
  assumes "(r, evs, s') \<in> set (Send s o' timeout fired) \<or> (r, evs, s') \<in> set (SendWithContext s o' ctxErr)"
  shows "(r, evs, s') \<in> set (send_cases s o') \<or> evs = [] \<and> s' = s"
  using assms by (auto simp: Send_def SendWithContext_def split: if_splits option.splits)

lemma send_inv_step:
  assumes "enc_appends enc out" "send_inv out tr s" "sock_step enc dec s evs s'"
  shows "send_inv out (tr @ evs) s'"
  using assms(3)
proof cases
  case (send r o' timeout fired)
  then show ?thesis using send_results [of r evs s' s o'] send_inv_push [OF assms(2)] assms(2) by fastforce
next
  case (send_ctx r o' ctxErr)
  then show ?thesis using send_results [of r evs s' s o'] send_inv_push [OF assms(2)] assms(2) by fastforce
next
  case arm
  then show ?thesis using send_inv_untouched [OF assms(2), of s' "[]"] by (auto dest!: Recv_keeps)
next
  case (close err)
  then show ?thesis using send_inv_untouched [OF assms(2), of s' "[]"] by simp
next
  case (sender w)
  then show ?thesis using send_inv_sendloop [OF assms(1,2)] by blast
next
  case receiver
  then show ?thesis using send_inv_untouched [OF assms(2)] by (auto dest!: recvloop_sender)
next
  case finish
  then show ?thesis using send_inv_untouched [OF assms(2)] by (auto dest!: finalize_sender)
qed

lemma send_inv_run:
  assumes "enc_appends enc out" "sock_run enc dec (New mx [] c opts) tr s"
  shows "send_inv out tr s"
  using assms(2)
proof induction
  case start
  then show ?case by (simp add: send_inv_def New_def Let_def)
next
  case (step tr s evs s')
  then show ?case using send_inv_step [OF assms(1)] by blast
qed

section \<open>Closing\<close>

definition close_inv :: "('o, 'p) event list \<Rightarrow> 'o Socket \<Rightarrow> bool" where
  "close_inv tr s \<longleftrightarrow>
     callbacks tr = (if doCloseOnce s then [closeReason s] else []) \<and>
     (doCloseOnce s \<longrightarrow> sendPhase s = Done \<and> recvDone s) \<and>
     (sendPhase s \<noteq> Looping \<or> recvDone s \<longrightarrow> die s)"

lemma close_inv_close: "close_inv tr s \<Longrightarrow> close_inv tr (close err s)"
  by (cases "die s") (auto simp: close_inv_def)

lemma send_cases_close:
  "(r, evs, s') \<in> set (send_cases s o') \<Longrightarrow> callbacks evs = [] \<and> handled evs = [] \<and>
    (\<exists>q. s' = s\<lparr>sendReq := q\<rparr>)"
  by (auto simp: send_cases_def split: if_splits intro: exI [of _ "sendReq s"])

lemma send_outside:
  assumes "(r, evs, s') \<in> set (Send s o' timeout fired) \<or> (r, evs, s') \<in> set (SendWithContext s o' ctxErr)"
  obtains q where "callbacks evs = []" "handled evs = []" "s' = s\<lparr>sendReq := q\<rparr>"
proof -
  have "callbacks evs = [] \<and> handled evs = [] \<and> (\<exists>q. s' = s\<lparr>sendReq := q\<rparr>)"
    using send_results [OF assms] send_cases_close [of r evs s' s o'] by (auto intro: exI [of _ "sendReq s"])
  then show ?thesis using that by blast
qed

lemma sendloop_close:
  assumes "(evs, s') \<in> set (sendloop enc w s)"
  shows "callbacks evs = [] \<and> handled evs = [] \<and> recvDone s' = recvDone s \<and> doCloseOnce s' = doCloseOnce s \<and>
    (sendPhase s' \<noteq> Looping \<longrightarrow> sendPhase s \<noteq> Looping \<or> die s') \<and> sendPhase s \<noteq> Done \<and>
    (die s \<longrightarrow> die s' \<and> closeReason s' = closeReason s) \<and> freader s' = freader s \<and>
    (conn s' = conn s \<or> conn s' = [Fail ErrNetClosed])"
  using assms
  by (auto simp: sendloop_def Let_def write_conn_def gather_def close_def
      split: phase.splits if_splits write_result.splits)

lemma recvloop_close:
  assumes "(evs, s') \<in> set (recvloop dec timeoutErr herr s)"
  shows "\<not> recvDone s \<and> (recvDone s' \<longrightarrow> die s') \<and> (die s \<longrightarrow> die s' \<and> closeReason s' = closeReason s)"
  using assms by (cases rule: recvloop_outcomes) auto

lemma close_inv_step:
  assumes "close_inv tr s" "sock_step enc dec s evs s'"
  shows "close_inv (tr @ evs) s'"
  using assms(2)
proof cases
  case (send r o' timeout fired)
  then show ?thesis using assms(1) by (auto simp: close_inv_def elim!: send_outside [OF disjI1])
next
  case (send_ctx r o' ctxErr)
  then show ?thesis using assms(1) by (auto simp: close_inv_def elim!: send_outside [OF disjI2])
next
  case arm
  then show ?thesis using assms(1) by (auto simp: close_inv_def dest!: Recv_keeps)
next
  case (close err)
  then show ?thesis using close_inv_close [OF assms(1)] by simp
next
  case (sender w)
  then show ?thesis using assms(1) sendloop_close [OF sender] by (auto simp: close_inv_def)
next
  case receiver
  then show ?thesis using assms(1) recvloop_close recvloop_sender by (fastforce simp: close_inv_def)
next
  case finish
  then show ?thesis using assms(1)
    by (auto simp: close_inv_def finalize_def doClose_def split: if_splits)
qed

lemma close_inv_run:
  assumes "sock_run enc dec (New mx pooled c opts) tr s"
  shows "close_inv tr s"
  using assms
proof induction
  case start
  then show ?case by (simp add: close_inv_def New_def Let_def)
next
  case (step tr s evs s')
  then show ?case using close_inv_step by blast
qed

section \<open>The receiving side\<close>

definition recv_inv ::
    "(bytes \<Rightarrow> go_error + 'p) \<Rightarrow> bytes \<Rightarrow> ('o, 'p) event list \<Rightarrow> 'o Socket \<Rightarrow> bool" where
  "recv_inv dec input tr s \<longleftrightarrow> (\<exists>ps left.
     input = concat (map frame ps) @ left \<and> map dec ps = map Inr (handled tr) \<and>
     (\<not> recvDone s \<longrightarrow> reader_inv (freader s) \<and>
        (\<exists>lost. left = pending (freader s) @ stream (conn s) @ lost)))"

lemma recv_inv_untouched:
  assumes "recv_inv dec input tr s" "recvDone s' = recvDone s" "freader s' = freader s"
    "conn s' = conn s \<or> conn s' = [Fail e]" "handled evs = []"
  shows "recv_inv dec input (tr @ evs) s'"
proof -
  obtain ps left where *: "input = concat (map frame ps) @ left" "map dec ps = map Inr (handled tr)"
    "\<not> recvDone s \<longrightarrow> reader_inv (freader s) \<and>
        (\<exists>lost. left = pending (freader s) @ stream (conn s) @ lost)"
    using assms(1) by (auto simp: recv_inv_def)
  then show ?thesis unfolding recv_inv_def
    by (intro exI [of _ ps] exI [of _ left]) (use assms(2-5) in auto)
qed

lemma recv_inv_recvloop:
  assumes "recv_inv dec input tr s" "(evs, s') \<in> set (recvloop dec timeoutErr herr s)"
  shows "recv_inv dec input (tr @ evs) s'"
  using assms(2)
proof (cases rule: recvloop_outcomes)
  case gone
  then show ?thesis using assms(1) by (auto simp: recv_inv_def)
next
  case (failed res f c err)
  then show ?thesis using assms(1) by (auto simp: recv_inv_def)
next
  case (got p f c packet)
  obtain ps left lost where *: "input = concat (map frame ps) @ left" "map dec ps = map Inr (handled tr)"
    "reader_inv (freader s)" "left = pending (freader s) @ stream (conn s) @ lost"
    using assms(1) got(1) by (auto simp: recv_inv_def)
  obtain rest where rest: "parse_frame (maxSize (freader s)) (pending (freader s) @ stream (conn s)) = Got p rest"
    "reader_inv f" "pending f @ stream c = rest"
    using recv_correct [OF *(3), of "conn s"] got(2)
    by (auto simp: recv_meets_def split: frame_result.splits option.splits)
  then have "left = frame p @ pending f @ stream c @ lost"
    using parse_frame_Got [OF rest(1)] *(4) by auto
  then show ?thesis unfolding recv_inv_def
    by (intro exI [of _ "ps @ [p]"] exI [of _ "pending f @ stream c @ lost"])
       (use got(3-5) * rest(2) in auto)
qed

lemma recv_inv_step:
  assumes "recv_inv dec input tr s" "close_inv tr s" "sock_step enc dec s evs s'"
  shows "recv_inv dec input (tr @ evs) s'"
  using assms(3)
proof cases
  case (send r o' timeout fired)
  then show ?thesis using recv_inv_untouched [OF assms(1), of s' _ evs]
    by (auto elim!: send_outside [OF disjI1])
next
  case (send_ctx r o' ctxErr)
  then show ?thesis using recv_inv_untouched [OF assms(1), of s' _ evs]
    by (auto elim!: send_outside [OF disjI2])
next
  case arm
  then show ?thesis using recv_inv_untouched [OF assms(1), of s' _ "[]"] by (auto dest!: Recv_keeps)
next
  case (close err)
  then show ?thesis using recv_inv_untouched [OF assms(1), of s' ErrNetClosed "[]"]
    by (cases "die s") (auto simp: close_def)
next
  case (sender w)
  then show ?thesis using recv_inv_untouched [OF assms(1)] sendloop_close [OF sender] by auto
next
  case receiver
  then show ?thesis using recv_inv_recvloop [OF assms(1)] by blast
next
  case finish
  then have "recvDone s" "recvDone s'" "handled evs = []"
    by (auto simp: finalize_def doClose_def split: if_splits)
  then show ?thesis using assms(1) by (simp add: recv_inv_def)
qed

lemma recv_inv_run:
  assumes "sock_run enc dec (New mx pooled c opts) tr s"
  shows "recv_inv dec (stream c) tr s"
  using assms
proof induction
  case start
  have "pending (new_frameReader mx) = []" by (simp add: pending_def new_frameReader_def)
  then show ?case
    by (auto simp: recv_inv_def New_def Let_def new_frameReader_inv intro: exI [of _ "[]"])
next
  case (step tr s evs s')
  then show ?case using recv_inv_step close_inv_run by blast
qed

section \<open>Properties\<close>

text \<open>
  C5. Messages are written in the order in which they were accepted, whole and once: in
  every interleaving, the bytes on the connection are a beginning of the encodings of the
  messages put into the queue, in the order they were put there; the queue never outgrows
  its size; and as long as the send goroutine is in its loop, an empty queue means that
  everything has been written, so no message waits in the buffer for another one to come.
\<close>

theorem socket_writes_in_order:
  assumes "enc_appends enc out" "sock_run enc dec (New MaxPacketSize pooled c opts) tr s" "pooled = []"
  shows "(\<exists>rest. wrote tr @ rest = concat (map out (pushes tr))) \<and>
    length (sendReq s) \<le> sendCap s \<and>
    (sendPhase s = Looping \<and> sendReq s = [] \<longrightarrow> wrote tr = concat (map out (pushes tr)))"
proof -
  have inv: "send_inv out tr s" using send_inv_run assms by blast
  then obtain rest where "wrote tr @ rest = concat (map out (takes tr))" by (auto simp: send_inv_def)
  with inv have "wrote tr @ rest @ concat (map out (sendReq s)) = concat (map out (pushes tr))"
    by (simp add: send_inv_def flip: append_assoc)
  then have "\<exists>rest. wrote tr @ rest = concat (map out (pushes tr))" by blast
  moreover have "length (sendReq s) \<le> sendCap s"
    "sendPhase s = Looping \<and> sendReq s = [] \<longrightarrow> wrote tr = concat (map out (pushes tr))"
    using inv by (auto simp: send_inv_def)
  ultimately show ?thesis by blast
qed

definition demo_opts :: Options where
  "demo_opts = \<lparr>SendChanSize = 4, BatchSendSize = 0, AutoRecv = True\<rparr>"

lemma demo_run:
  "\<exists>s. sock_run (@) Inr (New 4096 [] [] demo_opts) [Pushed [1 :: byte, 2], Taken [1, 2], Wrote [1, 2]] s \<and>
     sendPhase s = Looping \<and> sendReq s = []"
proof -
  let ?s0 = "New 4096 [] [] demo_opts :: bytes Socket"
  let ?s1 = "?s0\<lparr>sendReq := [[1, 2]]\<rparr>"
  let ?s2 = "(gather (@) ?s1)\<lparr>sbuf := [], total := 0\<rparr>"
  have 1: "sock_step (@) Inr ?s0 [Pushed [1, 2]] ?s1"
    by (rule sock_step.send [of None _ _ _ "[1, 2]" 0 False])
       (simp add: Send_def send_cases_def New_def demo_opts_def)
  have 2: "sock_step (@) Inr ?s1 [Taken [1, 2], Wrote [1, 2]] ?s2"
    by (rule sock_step.sender [of _ _ _ WriteOk])
       (simp add: sendloop_def New_def demo_opts_def gather_def write_conn_def)
  have "sock_run (@) Inr ?s0 (([] @ [Pushed [1, 2]]) @ [Taken [1, 2], Wrote [1, 2]]) ?s2"
    by (rule sock_run.step [OF sock_run.step [OF sock_run.start 1] 2])
  moreover have "sendPhase ?s2 = Looping" "sendReq ?s2 = []"
    by (simp_all add: gather_def New_def demo_opts_def)
  ultimately show ?thesis by auto
qed

theorem socket_writes_in_order_witness:
  "\<exists>s. sock_run (@) Inr (New 4096 [] [] demo_opts) [Pushed [1 :: byte, 2], Taken [1, 2], Wrote [1, 2]] s \<and>
     (\<exists>rest. wrote [Pushed [1 :: byte, 2], Taken [1, 2], Wrote [1, 2]] @ rest = [1, 2]) \<and>
     length (sendReq s) \<le> sendCap s"
proof -
  obtain s where s: "sock_run (@) Inr (New 4096 [] [] demo_opts)
      [Pushed [1 :: byte, 2], Taken [1, 2], Wrote [1, 2]] s"
    using demo_run by blast
  have "enc_appends (@) (\<lambda>b :: bytes. b)" by (simp add: enc_appends_def)
  from socket_writes_in_order [OF this s refl] s show ?thesis by auto
qed

text \<open>
  C4. What is received is what was sent: in every interleaving, the packets given to the
  packet handler are the decoded payloads of the first frames of the incoming byte stream,
  in order, none skipped and none twice.
\<close>

theorem socket_handles_in_order:
  assumes "sock_run enc dec (New MaxPacketSize pooled c opts) tr s"
  shows "\<exists>ps left. stream c = concat (map frame ps) @ left \<and> map dec ps = map Inr (handled tr)"
  using recv_inv_run [OF assms] by (auto simp: recv_inv_def)

lemma demo_recv_run:
  "\<exists>s. sock_run (@) Inr (New 4096 [] [Data (frame [7])] demo_opts) [Handled [7 :: byte]] s"
proof -
  let ?s0 = "New 4096 [] [Data (frame [7])] demo_opts :: bytes Socket"
  let ?s1 = "?s0\<lparr>recvReq := True\<rparr>"
  have "pending (new_frameReader 4096) = []" "maxSize (new_frameReader 4096) = 4096"
    by (simp_all add: pending_def new_frameReader_def)
  then have "\<exists>f c. recv_n recv (length [[7]]) (new_frameReader 4096) [Data (frame [7])] = Some ([[7]], f, c)"
    using recv_n_frames [OF new_frameReader_inv, of 4096 "[Data (frame [7])]" "[[7]]" "[]"] parse_frame_frame [of "[7]" 4096]
    by auto
  then obtain f c where rcv: "recv (freader ?s1) (conn ?s1) = Some (Inr [7], f, c)"
    by (auto simp: New_def Let_def split: option.splits sum.splits)
  have 1: "sock_step (@) (Inr :: bytes \<Rightarrow> go_error + bytes) ?s0 [] ?s1"
    by (rule sock_step.arm) (simp add: Recv_def New_def Let_def)
  have 2: "sock_step (@) Inr ?s1 [Handled [7]] ((received ?s1 f c)\<lparr>recvReq := True\<rparr>)"
    by (rule sock_step.receiver [of _ _ _ "\<lambda>_. False" "\<lambda>_. None"])
       (use rcv in \<open>auto simp: recvloop_def received_def Recv_def New_def Let_def demo_opts_def\<close>)
  from sock_run.step [OF sock_run.step [OF sock_run.start 1] 2] show ?thesis by auto
qed

theorem socket_handles_in_order_witness:
  "\<exists>ps left. stream [Data (frame [7])] = concat (map frame ps) @ left \<and>
     map Inr ps = map (Inr :: bytes \<Rightarrow> go_error + bytes) (handled [Handled [7] :: (bytes, bytes) event])"
proof -
  obtain s where "sock_run (@) Inr (New 4096 [] [Data (frame [7])] demo_opts) [Handled [7 :: byte]] s"
    using demo_recv_run by blast
  then show ?thesis by (rule socket_handles_in_order)
qed



end
