(* ===== verification/Rpc_Server.thy ===== *)
theory Rpc_Server
  imports Rpc_Msg
begin

text \<open>
  The RPC server (\<open>rpc/server.go\<close>), the worker pool that methods can be wrapped with
  (\<open>rpc/wrapper.go\<close>) and the counting interceptor a node installs (\<open>RPCServer\<close> in the
  \<open>rpc.go\<close> of the root package).

  Methods and interceptors are code of the user. All they can do to the server is to use
  the \<open>Replyer\<close> they get, so the model has the calls they make on it, in order, as a
  list; a panic ends the list. What the server does is a list of events: calls of out
  interceptors, changes of the counter, and responses given to the channel, whose errors
  are only logged.
\<close>

section \<open>Replyer\<close>

datatype out_interceptor = UserOut nat | CountOut

datatype 'v srv_event =
    OutCalled out_interceptor "'v iface" "go_error option"
  | Counted
  | Replied "'v ResponseMsg"

record 'v Replyer =
  replyed :: bool
  rreq :: "'v RequestMsg"
  outInterceptor :: "out_interceptor list"

definition AppendOutInterceptor :: "'v Replyer \<Rightarrow> out_interceptor \<Rightarrow> 'v Replyer" where
  "AppendOutInterceptor r i = r\<lparr>outInterceptor := outInterceptor r @ [i]\<rparr>"

text \<open>A panic of an interceptor is caught and does not keep the others from being called.\<close>

definition Replyer_callOutInterceptor ::
    "'v Replyer \<Rightarrow> 'v iface \<Rightarrow> go_error option \<Rightarrow> 'v srv_event list" where
  "Replyer_callOutInterceptor r ret err = map (\<lambda>i. OutCalled i ret err) (outInterceptor r)"

definition new_response :: "u64 \<Rightarrow> 'v ResponseMsg" where
  "new_response s = \<lparr>rSeq = s, Err = None, Ret = INil, rUserData = [], respCodec = None\<rparr>"

text \<open>
  \<open>Error\<close> and \<open>Reply\<close>, with the events, the replyer and whether they panic: \<open>Error\<close> does on
  a nil error of a request that wants a response.
\<close>

definition Replyer_Error ::
    "'v Replyer \<Rightarrow> go_error option \<Rightarrow> 'v srv_event list \<times> 'v Replyer \<times> bool" where
  "Replyer_Error r err =
     (if replyed r then ([], r, False)
      else
        let r = r\<lparr>replyed := True\<rparr>;
            evs = Replyer_callOutInterceptor r INil err
        in if Oneway (rreq r) then (evs, r, False)
           else
             let resp = new_response (Seq (rreq r))
             in (case err of
                   None \<Rightarrow> (evs, r, True)
                 | Some (RpcErr e) \<Rightarrow> (evs @ [Replied (resp\<lparr>Err := Some e\<rparr>)], r, False)
                 | Some e \<Rightarrow>
                     (evs @ [Replied (resp\<lparr>Err := NewError ErrMethod (error_Error e)\<rparr>)], r, False)))"

definition Replyer_Reply :: "'v Replyer \<Rightarrow> 'v iface \<Rightarrow> 'v srv_event list \<times> 'v Replyer \<times> bool" where
  "Replyer_Reply r ret =
     (if replyed r then ([], r, False)
      else
        let r = r\<lparr>replyed := True\<rparr>;
            evs = Replyer_callOutInterceptor r ret None
        in if Oneway (rreq r) then (evs, r, False)
           else (evs @ [Replied ((new_response (Seq (rreq r)))\<lparr>Ret := ret\<rparr>)], r, False))"

text \<open>What user code does with a replyer.\<close>

datatype 'v use = CallReply "'v iface" | CallError "go_error option" | CallAppend nat | CallPanic

fun use_step :: "'v Replyer \<Rightarrow> 'v use \<Rightarrow> 'v srv_event list \<times> 'v Replyer \<times> bool" where
  "use_step r (CallReply ret) = Replyer_Reply r ret"
| "use_step r (CallError e) = Replyer_Error r e"
| "use_step r (CallAppend i) = ([], AppendOutInterceptor r (UserOut i), False)"
| "use_step r CallPanic = ([], r, True)"

fun use_replyer :: "'v Replyer \<Rightarrow> 'v use list \<Rightarrow> 'v srv_event list \<times> 'v Replyer \<times> bool" where
  "use_replyer r [] = ([], r, False)"
| "use_replyer r (u # us) =
     (case use_step r u of
        (evs, r, True) \<Rightarrow> (evs, r, True)
      | (evs, r, False) \<Rightarrow> (case use_replyer r us of (evs', r, p) \<Rightarrow> (evs @ evs', r, p)))"

section \<open>Server\<close>

text \<open>
  An in interceptor uses the replyer and says whether the request may pass. \<open>CountIn\<close> is
  the one of \<open>RPCServer.SetInInterceptor\<close>.
\<close>

datatype 'v in_interceptor = UserIn "'v RequestMsg \<Rightarrow> 'v use list \<times> bool" | CountIn

text \<open>A registered method: \<open>new(Arg)\<close> and the user's function of the decoded argument.\<close>

record 'v rpc_method =
  newArg :: 'v
  body :: "'v \<Rightarrow> 'v use list"

record 'v Server =
  methods :: "string \<rightharpoonup> 'v rpc_method"
  stoped :: bool
  inInterceptor :: "'v in_interceptor list"

definition NewServer :: "'v Server" where
  "NewServer = \<lparr>methods = Map.empty, stoped = False, inInterceptor = []\<rparr>"

definition SetInInterceptor :: "'v Server \<Rightarrow> 'v in_interceptor list \<Rightarrow> 'v Server" where
  "SetInInterceptor s is = s\<lparr>inInterceptor := is\<rparr>"

definition RPCServer_SetInInterceptor ::
    "'v Server \<Rightarrow> ('v RequestMsg \<Rightarrow> 'v use list \<times> bool) list \<Rightarrow> 'v Server" where
  "RPCServer_SetInInterceptor s is = SetInInterceptor s (map UserIn is @ [CountIn])"

definition Server_Stop :: "'v Server \<Rightarrow> 'v Server" where
  "Server_Stop s = s\<lparr>stoped := True\<rparr>"

definition Server_Register :: "'v Server \<Rightarrow> string \<Rightarrow> 'v rpc_method \<Rightarrow> go_error option \<times> 'v Server" where
  "Server_Register s name m =
     (if name = '''' then (Some (GoError ''RegisterMethod nams is nil''), s)
      else if methods s name \<noteq> None then (Some (GoError (''duplicate method:'' @ name)), s)
      else (None, s\<lparr>methods := (methods s)(name \<mapsto> m)\<rparr>))"

definition UnRegister :: "'v Server \<Rightarrow> string \<Rightarrow> 'v Server" where
  "UnRegister s name = s\<lparr>methods := (methods s)(name := None)\<rparr>"

text \<open>The loop over the in interceptors: it ends with a refusal, a panic, or all passed.\<close>

datatype verdict = Passed | Refused | Panicked

fun run_in ::
    "'v in_interceptor list \<Rightarrow> 'v RequestMsg \<Rightarrow> 'v Replyer \<Rightarrow> 'v srv_event list \<times> 'v Replyer \<times> verdict" where
  "run_in [] req r = ([], r, Passed)"
| "run_in (UserIn f # is) req r =
     (case use_replyer r (fst (f req)) of
        (evs, r, True) \<Rightarrow> (evs, r, Panicked)
      | (evs, r, False) \<Rightarrow>
          if \<not> snd (f req) then (evs, r, Refused)
          else (case run_in is req r of (evs', r, v) \<Rightarrow> (evs @ evs', r, v)))"
| "run_in (CountIn # is) req r =
     (case run_in is req (AppendOutInterceptor r CountOut) of (evs, r, v) \<Rightarrow> (Counted # evs, r, v))"

text \<open>The closure \<open>caller\<close> that \<open>Server_Register\<close> makes; the last component is the error it returns.\<close>

definition caller ::
    "('v \<Rightarrow> 'v \<Rightarrow> go_error + 'v) \<Rightarrow> 'v Server \<Rightarrow> 'v rpc_method \<Rightarrow> 'v RequestMsg \<Rightarrow> 'v Replyer \<Rightarrow>
     'v srv_event list \<times> 'v Replyer \<times> rpc_error option" where
  "caller copyValue s m req r =
     (case decodeArgInto copyValue req (newArg m) of
        Inl err \<Rightarrow> ([], r, NewError ErrOther (''arg decode error:'' @ error_Error err))
      | Inr arg \<Rightarrow>
          let req = req\<lparr>Arg := IObj arg\<rparr>
          in (case run_in (inInterceptor s) req r of
                (evs, r, Panicked) \<Rightarrow> (evs, r, NewError ErrOther ''method panic'')
              | (evs, r, Refused) \<Rightarrow> (evs, r, None)
              | (evs, r, Passed) \<Rightarrow>
                  (case use_replyer r (body m arg) of
                     (evs', r, True) \<Rightarrow> (evs @ evs', r, NewError ErrOther ''method panic'')
                   | (evs', r, False) \<Rightarrow> (evs @ evs', r, None))))"

definition fail :: "'v Replyer \<Rightarrow> rpc_error option \<Rightarrow> 'v srv_event list \<times> 'v Replyer" where
  "fail r e = (case Replyer_Error r (map_option RpcErr e) of (evs, r, p) \<Rightarrow> (evs, r))"

definition Server_OnMessage ::
    "('v \<Rightarrow> 'v \<Rightarrow> go_error + 'v) \<Rightarrow> 'v Server \<Rightarrow> 'v RequestMsg \<Rightarrow> 'v srv_event list \<times> 'v Replyer" where
  "Server_OnMessage copyValue s req =
     (let replyer = \<lparr>replyed = False, rreq = req, outInterceptor = []\<rparr>
      in if stoped s then fail replyer (NewError ErrServiceUnavaliable ''service unavaliable'')
         else (case methods s (Method req) of
                 None \<Rightarrow>
                   fail replyer (NewError ErrInvaildMethod (''method '' @ Method req @ '' not found''))
               | Some fn \<Rightarrow>
                   (case caller copyValue s fn req replyer of
                      (evs, replyer, None) \<Rightarrow> (evs, replyer)
                    | (evs, replyer, Some err) \<Rightarrow>
                        (case fail replyer (Some err) of (evs', replyer) \<Rightarrow> (evs @ evs', replyer)))))"

section \<open>Worker pool\<close>

record 'v AsyncPool =
  tasks :: "('v Replyer \<times> 'v use list) list"
  queue :: nat

definition NewAsyncPool :: "int \<Rightarrow> int \<Rightarrow> 'v AsyncPool option" where
  "NewAsyncPool workers q =
     (if workers \<le> 0 \<or> q \<le> 0 then None else Some \<lparr>tasks = [], queue = nat q\<rparr>)"

text \<open>
  A call of a wrapped method. Without a pool it is the method itself; otherwise it is put
  into the queue, or answered at once when the queue is full. \<open>worker\<close> is one round of a
  worker.
\<close>

definition Wrap ::
    "('v \<Rightarrow> 'v use list) \<Rightarrow> 'v Replyer \<Rightarrow> 'v \<Rightarrow> 'v AsyncPool option \<Rightarrow>
     ('v srv_event list \<times> 'v Replyer \<times> bool) \<times> 'v AsyncPool option" where
  "Wrap fn r a p =
     (case p of
        None \<Rightarrow> (use_replyer r (fn a), None)
      | Some p \<Rightarrow>
          if length (tasks p) < queue p then (([], r, False), Some (p\<lparr>tasks := tasks p @ [(r, fn a)]\<rparr>))
          else (Replyer_Error r (map_option RpcErr (NewError ErrBusy_code ''busy'')), Some p))"

definition worker ::
    "'v AsyncPool \<Rightarrow> (('v srv_event list \<times> 'v Replyer \<times> bool) \<times> 'v AsyncPool) option" where
  "worker p =
     (case tasks p of
        [] \<Rightarrow> None
      | (r, us) # ts \<Rightarrow> Some (use_replyer r us, p\<lparr>tasks := ts\<rparr>))"

section \<open>One response\<close>

definition responses :: "'v srv_event list \<Rightarrow> 'v ResponseMsg list" where
  "responses evs = concat (map (\<lambda>e. case e of Replied x \<Rightarrow> [x] | _ \<Rightarrow> []) evs)"

lemma responses_simps [simp]:
  "responses [] = []" "responses (a @ b) = responses a @ responses b"
  "responses (Replied x # evs) = x # responses evs" "responses (Counted # evs) = responses evs"
  "responses (OutCalled i r e # evs) = responses evs"
  by (simp_all add: responses_def)

lemma responses_out [simp]: "responses (Replyer_callOutInterceptor r ret err) = []"
  by (simp add: Replyer_callOutInterceptor_def responses_def)

text \<open>
  From one state of a replyer to a later one: the request stays, a reply stays given, and
  the responses in between are those of the one reply, if it happened there.
\<close>

definition progress :: "'v Replyer \<Rightarrow> 'v srv_event list \<Rightarrow> 'v Replyer \<Rightarrow> bool" where
  "progress r evs r' \<longleftrightarrow> rreq r' = rreq r \<and> (replyed r \<longrightarrow> replyed r') \<and>
     (\<forall>x \<in> set (responses evs). rSeq x = Seq (rreq r)) \<and>
     length (responses evs) \<le> (if replyed r' \<and> \<not> replyed r \<and> \<not> Oneway (rreq r) then 1 else 0)"

lemma progress_refl [simp]: "progress r [] r"
  by (simp add: progress_def)

lemma progress_trans: "progress r evs r' \<Longrightarrow> progress r' evs' r'' \<Longrightarrow> progress r (evs @ evs') r''"
  by (auto simp: progress_def split: if_splits)

lemma progress_append [simp]:
  "progress r evs (AppendOutInterceptor r' i) \<longleftrightarrow> progress r evs r'"
  "progress (AppendOutInterceptor r i) evs r' \<longleftrightarrow> progress r evs r'"
  by (simp_all add: progress_def AppendOutInterceptor_def)

lemma progress_Error: "Replyer_Error r e = (evs, r', p) \<Longrightarrow> progress r evs r'"
  by (auto simp: Replyer_Error_def progress_def new_response_def Let_def
      split: if_splits option.splits go_error.splits)

lemma progress_Reply: "Replyer_Reply r ret = (evs, r', p) \<Longrightarrow> progress r evs r'"
  by (auto simp: Replyer_Reply_def progress_def new_response_def Let_def split: if_splits)

lemma progress_step: "use_step r u = (evs, r', p) \<Longrightarrow> progress r evs r'"
  by (cases u) (auto intro: progress_Error progress_Reply)

lemma progress_use: "use_replyer r us = (evs, r', p) \<Longrightarrow> progress r evs r'"
proof (induction us arbitrary: r evs r')
  case (Cons u us)
  then show ?case
    by (auto split: prod.splits bool.splits dest: progress_step intro: progress_trans)
qed simp

lemma progress_in: "run_in is req r = (evs, r', v) \<Longrightarrow> progress r evs r'"
proof (induction "is" req r arbitrary: evs r' rule: run_in.induct)
  case (2 f "is" req r)
  then show ?case
    by (auto split: prod.splits bool.splits if_splits dest: progress_use intro: progress_trans)
next
  case (3 "is" req r)
  then show ?case by (auto simp: progress_def AppendOutInterceptor_def split: prod.splits)
qed simp

lemma progress_fail: "fail r e = (evs, r') \<Longrightarrow> progress r evs r'"
  by (auto simp: fail_def split: prod.splits dest: progress_Error)

lemma progress_caller: "caller cv s m req r = (evs, r', e) \<Longrightarrow> progress r evs r'"
  by (auto simp: caller_def Let_def split: sum.splits prod.splits verdict.splits bool.splits
      dest: progress_in progress_use intro: progress_trans)

lemma progress_OnMessage:
  assumes "Server_OnMessage cv s req = (evs, r)"
  shows "progress \<lparr>replyed = False, rreq = req, outInterceptor = []\<rparr> evs r"
  using assms
  by (auto simp: Server_OnMessage_def Let_def split: if_splits option.splits prod.splits
      dest: progress_fail progress_caller intro: progress_trans)

text \<open>An error given to a fresh replyer is sent.\<close>

lemma fail_fresh:
  "\<not> replyed r \<Longrightarrow> \<not> Oneway (rreq r) \<Longrightarrow> responses (fst (fail r (Some e))) =
     [(new_response (Seq (rreq r)))\<lparr>Err := Some e\<rparr>] \<and> replyed (snd (fail r (Some e)))"
  by (simp add: fail_def Replyer_Error_def Let_def)

section \<open>The counter of open requests\<close>

text \<open>\<open>pendingRespCount\<close>: \<open>Add(1)\<close> by \<open>CountIn\<close>, \<open>Add(-1)\<close> by the out interceptor it appends.\<close>

definition pendingRespCount :: "'v srv_event list \<Rightarrow> int" where
  "pendingRespCount evs =
     sum_list (map (\<lambda>e. case e of Counted \<Rightarrow> 1 | OutCalled i _ _ \<Rightarrow> if i = CountOut then - 1 else 0 | _ \<Rightarrow> 0) evs)"

definition counters :: "'v Replyer \<Rightarrow> nat" where
  "counters r = length (filter (\<lambda>i. i = CountOut) (outInterceptor r))"

definition balanced :: "'v srv_event list \<Rightarrow> 'v Replyer \<Rightarrow> bool" where
  "balanced evs r \<longleftrightarrow> pendingRespCount evs = (if replyed r then 0 else int (counters r))"

lemma pendingRespCount_simps [simp]:
  "pendingRespCount [] = 0" "pendingRespCount (a @ b) = pendingRespCount a + pendingRespCount b"
  "pendingRespCount (Replied x # evs) = pendingRespCount evs"
  "pendingRespCount (Counted # evs) = 1 + pendingRespCount evs"
  by (simp_all add: pendingRespCount_def)

lemma pendingRespCount_out [simp]:
  "pendingRespCount (Replyer_callOutInterceptor r ret err) = - int (counters r)"
proof -
  have "pendingRespCount (map (\<lambda>i. OutCalled i ret err) is) = - int (length (filter (\<lambda>i. i = CountOut) is))" for "is"
    by (induction "is") (auto simp: pendingRespCount_def)
  then show ?thesis by (simp add: Replyer_callOutInterceptor_def counters_def)
qed

lemma counters_simps [simp]:
  "counters (r\<lparr>replyed := b\<rparr>) = counters r"
  "counters (AppendOutInterceptor r CountOut) = Suc (counters r)"
  "counters (AppendOutInterceptor r (UserOut i)) = counters r"
  "replyed (AppendOutInterceptor r j) = replyed r"
  by (simp_all add: counters_def AppendOutInterceptor_def)

definition keeps :: "'v Replyer \<Rightarrow> 'v srv_event list \<Rightarrow> 'v Replyer \<Rightarrow> bool" where
  "keeps r evs r' \<longleftrightarrow> counters r' = counters r \<and> (\<forall>evs0. balanced evs0 r \<longrightarrow> balanced (evs0 @ evs) r')"

lemma keeps_refl [simp]: "keeps r [] r"
  by (simp add: keeps_def)

lemma keeps_trans: "keeps r evs r' \<Longrightarrow> keeps r' evs' r'' \<Longrightarrow> keeps r (evs @ evs') r''"
  by (simp add: keeps_def flip: append_assoc)

lemma keeps_Error: "Replyer_Error r e = (evs, r', p) \<Longrightarrow> keeps r evs r'"
  by (auto simp: Replyer_Error_def keeps_def balanced_def Let_def split: if_splits option.splits go_error.splits)

lemma keeps_step: "use_step r u = (evs, r', p) \<Longrightarrow> keeps r evs r'"
proof (cases u)
  case (CallReply ret)
  then show "use_step r u = (evs, r', p) \<Longrightarrow> keeps r evs r'"
    by (auto simp: Replyer_Reply_def keeps_def balanced_def Let_def split: if_splits)
next
  case (CallError e)
  then show "use_step r u = (evs, r', p) \<Longrightarrow> keeps r evs r'" by (simp add: keeps_Error)
qed (auto simp: keeps_def balanced_def)

lemma keeps_use: "use_replyer r us = (evs, r', p) \<Longrightarrow> keeps r evs r'"
proof (induction us arbitrary: r evs r')
  case (Cons u us)
  then show ?case by (auto split: prod.splits bool.splits dest: keeps_step intro: keeps_trans)
qed simp

lemma keeps_fail: "fail r e = (evs, r') \<Longrightarrow> keeps r evs r'"
  by (auto simp: fail_def split: prod.splits dest: keeps_Error)

text \<open>An interceptor that lets a request pass should not have answered it.\<close>

definition answers :: "'v use \<Rightarrow> bool" where
  "answers u \<longleftrightarrow> (case u of CallReply _ \<Rightarrow> True | CallError _ \<Rightarrow> True | _ \<Rightarrow> False)"

definition passes_unanswered :: "'v RequestMsg \<Rightarrow> ('v RequestMsg \<Rightarrow> 'v use list \<times> bool) \<Rightarrow> bool" where
  "passes_unanswered req f \<longleftrightarrow> (snd (f req) \<longrightarrow> (\<forall>u \<in> set (fst (f req)). \<not> answers u))"

lemma unanswered_use:
  "use_replyer r us = (evs, r', p) \<Longrightarrow> \<forall>u \<in> set us. \<not> answers u \<Longrightarrow> replyed r' = replyed r"
proof (induction us arbitrary: r evs r')
  case (Cons u us)
  then show ?case by (cases u) (auto simp: answers_def split: prod.splits bool.splits)
qed simp

lemma unanswered_panic:
  assumes "\<not> replyed r" "\<forall>u \<in> set us. \<not> answers u"
  shows "\<exists>evs' r'. use_replyer r (us @ CallPanic # rest) = (evs', r', True) \<and> responses evs' = [] \<and>
    \<not> replyed r' \<and> rreq r' = rreq r"
  using assms
proof (induction us arbitrary: r)
  case (Cons u us)
  show ?case
  proof (cases u)
    case (CallAppend i)
    have "rreq (AppendOutInterceptor r (UserOut i)) = rreq r" by (simp add: AppendOutInterceptor_def)
    with CallAppend Cons.IH [of "AppendOutInterceptor r (UserOut i)"] Cons.prems show ?thesis by auto
  qed (use Cons.prems in \<open>auto simp: answers_def\<close>)
qed simp

text \<open>After the interceptors of a node's server the counter has been raised only if all passed.\<close>

lemma counting_in:
  assumes "run_in (map UserIn is @ [CountIn]) req r = (evs, r', v)"
    and "\<forall>f \<in> set is. passes_unanswered req f" "\<not> replyed r" "counters r = 0" "balanced evs0 r"
  shows "balanced (evs0 @ evs) r' \<and> counters r' = (if v = Passed then 1 else 0) \<and> (v = Passed \<longrightarrow> \<not> replyed r')"
  using assms
proof (induction "is" arbitrary: r evs evs0)
  case Nil
  then show ?case by (auto simp: balanced_def)
next
  case (Cons f "is")
  obtain e1 r1 p where u: "use_replyer r (fst (f req)) = (e1, r1, p)" by (metis prod_cases3)
  from keeps_use [OF u] Cons.prems have r1: "counters r1 = 0" "balanced (evs0 @ e1) r1"
    by (auto simp: keeps_def)
  show ?case
  proof (cases "p \<or> \<not> snd (f req)")
    case True
    with u Cons.prems(1) r1 show ?thesis by (auto split: bool.splits)
  next
    case False
    with Cons.prems(2) have "\<forall>u \<in> set (fst (f req)). \<not> answers u" by (simp add: passes_unanswered_def)
    from unanswered_use [OF u this] Cons.prems(3) have "\<not> replyed r1" by simp
    moreover obtain e2 where "run_in (map UserIn is @ [CountIn]) req r1 = (e2, r', v)" "evs = e1 @ e2"
      using Cons.prems(1) u False by (auto split: prod.splits)
    ultimately show ?thesis using Cons.IH [of r1 e2 "evs0 @ e1"] Cons.prems(2) r1 by simp
  qed
qed

lemma counting_OnMessage:
  assumes "inInterceptor s = map UserIn is @ [CountIn]"
    and "\<forall>f \<in> set is. \<forall>arg. passes_unanswered (req\<lparr>Arg := arg\<rparr>) f"
    and res: "Server_OnMessage cv s req = (evs, r)"
  shows "balanced evs r \<and> counters r \<le> 1"
proof -
  define r0 where "r0 = \<lparr>replyed = False, rreq = req, outInterceptor = []\<rparr>"
  have r0: "balanced [] r0" "counters r0 = 0" "\<not> replyed r0"
    by (simp_all add: r0_def balanced_def counters_def)
  have failed: "balanced evs' r' \<and> counters r' \<le> 1" if "fail r0 e = (evs', r')" for e evs' r'
    using keeps_fail [OF that] r0 by (auto simp: keeps_def)
  have called: "balanced evs' r' \<and> counters r' \<le> 1"
    if "caller cv s m req r0 = (evs', r', e)" for m evs' r' e
  proof (cases "decodeArgInto cv req (newArg m)")
    case (Inl err)
    with that r0 show ?thesis by (auto simp: caller_def)
  next
    case (Inr arg)
    obtain e1 r1 v where i: "run_in (map UserIn is @ [CountIn]) (req\<lparr>Arg := IObj arg\<rparr>) r0 = (e1, r1, v)"
      by (metis prod_cases3)
    have "balanced e1 r1 \<and> counters r1 \<le> 1"
      using counting_in [OF i _ r0(3,2,1)] assms(2) by auto
    moreover obtain e2 r2 p where "use_replyer r1 (body m arg) = (e2, r2, p)" by (metis prod_cases3)
    moreover from keeps_use [OF this] have "keeps r1 e2 r2" .
    ultimately show ?thesis using that Inr i assms(1)
      by (auto simp: caller_def keeps_def split: verdict.splits bool.splits)
  qed
  have again: "balanced (e1 @ e2) r2 \<and> counters r2 \<le> 1"
    if "caller cv s m req r0 = (e1, r1, e)" "fail r1 e' = (e2, r2)" for m e1 r1 e e' e2 r2
    using called [OF that(1)] keeps_fail [OF that(2)] by (auto simp: keeps_def)
  show ?thesis using res
    by (auto dest: failed called again simp: Server_OnMessage_def Let_def r0_def [symmetric] split: if_splits option.splits prod.splits)
qed

section \<open>Properties\<close>

text \<open>
  C11. A request is answered at most once: whatever the interceptors and the method do with
  the replyer, during the call or after it, at most one response is sent, it carries the
  sequence number of the request, and none is sent for a one-way request.
\<close>

theorem rpc_one_response:
  assumes "Server_OnMessage copyValue s req = (evs, r)" "use_replyer r later = (evs', r', p)"
  shows "length (responses (evs @ evs')) \<le> (if Oneway req then 0 else 1) \<and>
    (\<forall>x \<in> set (responses (evs @ evs')). rSeq x = Seq req)"
  using progress_trans [OF progress_OnMessage [OF assms(1)] progress_use [OF assms(2)]]
  by (auto simp: progress_def split: if_splits)

definition demo_request :: "nat RequestMsg" where
  "demo_request = \<lparr>Seq = 7, Method = ''m'', Arg = INil, UserData = [], Oneway = False, reqCodec = None\<rparr>"

definition demo_server :: "nat use list \<Rightarrow> nat Server" where
  "demo_server us = (snd (Server_Register NewServer ''m'' \<lparr>newArg = 0, body = \<lambda>_. us\<rparr>))\<lparr>inInterceptor := [CountIn]\<rparr>"

lemmas demo_server_simps =
  demo_server_def Server_Register_def NewServer_def Server_OnMessage_def demo_request_def caller_def
  decodeArgInto_def decodeInto_def AppendOutInterceptor_def Replyer_Reply_def
  Replyer_callOutInterceptor_def new_response_def

theorem rpc_one_response_witness:
  "\<exists>evs r evs' r' p.
     Server_OnMessage (\<lambda>_. Inr) (demo_server [CallReply (IObj 3), CallReply (IObj 4)]) demo_request = (evs, r) \<and>
     use_replyer r [CallError None] = (evs', r', p) \<and>
     length (responses (evs @ evs')) \<le> 1 \<and> map Ret (responses (evs @ evs')) = [IObj 3]"
proof -
  let ?m = "Server_OnMessage (\<lambda>_. Inr) (demo_server [CallReply (IObj 3), CallReply (IObj 4)]) demo_request"
  let ?u = "use_replyer (snd ?m) [CallError None]"
  have "length (responses (fst ?m @ fst ?u)) \<le> 1"
    using rpc_one_response [of "\<lambda>_. Inr" "demo_server [CallReply (IObj 3), CallReply (IObj 4)]" demo_request
        "fst ?m" "snd ?m" "[CallError None]" "fst ?u" "fst (snd ?u)" "snd (snd ?u)"]
    by (simp add: demo_request_def)
  moreover have "map Ret (responses (fst ?m @ fst ?u)) = [IObj 3]"
    by (simp add: demo_server_simps Replyer_Error_def)
  ultimately show ?thesis by (metis prod.collapse)
qed

text \<open>
  C20. The failures a caller waits for are reported: to a request that wants a response, a
  stopped server answers \<open>ErrServiceUnavaliable\<close>, an unknown method is answered with
  \<open>ErrInvaildMethod\<close>, an argument that does not decode and a method that panics before it
  answered with \<open>ErrOther\<close>, each with the number of the request and exactly once.
\<close>

theorem rpc_failures_reported:
  assumes "\<not> Oneway req"
  shows "(stoped s \<longrightarrow> responses (fst (Server_OnMessage copyValue s req)) =
      [(new_response (Seq req))\<lparr>Err := Some (Error ErrServiceUnavaliable ''service unavaliable'')\<rparr>]) \<and>
    (\<not> stoped s \<and> methods s (Method req) = None \<longrightarrow> responses (fst (Server_OnMessage copyValue s req)) =
      [(new_response (Seq req))\<lparr>Err := Some (Error ErrInvaildMethod (''method '' @ Method req @ '' not found''))\<rparr>]) \<and>
    (\<not> stoped s \<and> methods s (Method req) = Some m \<and> decodeArgInto copyValue req (newArg m) = Inl err \<longrightarrow>
      responses (fst (Server_OnMessage copyValue s req)) =
      [(new_response (Seq req))\<lparr>Err := Some (Error ErrOther (''arg decode error:'' @ error_Error err))\<rparr>]) \<and>
    (\<not> stoped s \<and> methods s (Method req) = Some m \<and> decodeArgInto copyValue req (newArg m) = Inr arg \<and>
      run_in (inInterceptor s) (req\<lparr>Arg := IObj arg\<rparr>) \<lparr>replyed = False, rreq = req, outInterceptor = []\<rparr> = (evs, r, Passed) \<and>
      \<not> replyed r \<and> (\<forall>u \<in> set us. \<not> answers u) \<and> body m arg = us @ CallPanic # rest \<longrightarrow>
      responses (fst (Server_OnMessage copyValue s req)) =
      [(new_response (Seq req))\<lparr>Err := Some (Error ErrOther ''method panic'')\<rparr>])"
proof -
  define r0 where "r0 = \<lparr>replyed = False, rreq = req, outInterceptor = []\<rparr>"
  have r0: "responses (fst (fail r0 (Some e))) = [(new_response (Seq req))\<lparr>Err := Some e\<rparr>]" for e
    using fail_fresh [of r0 e] assms by (simp add: r0_def)
  have "responses (fst (Server_OnMessage copyValue s req)) =
      [(new_response (Seq req))\<lparr>Err := Some (Error ErrOther ''method panic'')\<rparr>]"
    if "\<not> stoped s" "methods s (Method req) = Some m" "decodeArgInto copyValue req (newArg m) = Inr arg"
      "run_in (inInterceptor s) (req\<lparr>Arg := IObj arg\<rparr>) r0 = (evs, r, Passed)"
      "\<not> replyed r" "\<forall>u \<in> set us. \<not> answers u" "body m arg = us @ CallPanic # rest"
  proof -
    note unanswered = that(5,6)
    from progress_in [OF that(4)] that(5) have "responses evs = []" "rreq r = req"
      by (auto simp: progress_def r0_def)
    moreover obtain evs' r' where "use_replyer r (us @ CallPanic # rest) = (evs', r', True)"
      "responses evs' = []" "\<not> replyed r'" "rreq r' = rreq r"
      using unanswered_panic [OF unanswered] by blast
    ultimately show ?thesis using that fail_fresh [of r'] assms
      by (simp add: Server_OnMessage_def caller_def r0_def [symmetric] NewError_def rpc_codes split_beta)
  qed
  then show ?thesis using r0
    by (simp add: Server_OnMessage_def caller_def r0_def [symmetric] NewError_def rpc_codes split_beta)
qed

theorem rpc_failures_reported_witness:
  "responses (fst (Server_OnMessage (\<lambda>_. Inr) (demo_server [CallAppend 1, CallPanic]) demo_request)) =
     [(new_response 7)\<lparr>Err := Some (Error ErrOther ''method panic'')\<rparr>]"
proof -
  let ?m = "\<lparr>newArg = 0, body = \<lambda>_. [CallAppend 1, CallPanic]\<rparr>"
  let ?r = "\<lparr>replyed = False, rreq = demo_request, outInterceptor = [CountOut]\<rparr>"
  have "\<not> Oneway demo_request" "Seq demo_request = 7" "\<not> stoped (demo_server [CallAppend 1, CallPanic])"
    "methods (demo_server [CallAppend 1, CallPanic]) (Method demo_request) = Some ?m"
    "decodeArgInto (\<lambda>_. Inr) demo_request (newArg ?m) = Inr 0"
    "run_in (inInterceptor (demo_server [CallAppend 1, CallPanic])) (demo_request\<lparr>Arg := IObj 0\<rparr>)
       \<lparr>replyed = False, rreq = demo_request, outInterceptor = []\<rparr> = ([Counted], ?r, Passed)"
    "\<not> replyed ?r" "\<forall>u \<in> set [CallAppend 1 :: nat use]. \<not> answers u" "body ?m 0 = [CallAppend 1] @ CallPanic # []"
    by (simp_all add: demo_server_simps answers_def)
  with rpc_failures_reported [of demo_request "demo_server [CallAppend 1, CallPanic]" "\<lambda>_. Inr" ?m _ 0
      "[Counted]" ?r "[CallAppend 1]" "[]"]
  show ?thesis by metis
qed

text \<open>
  C19. The counter of open requests of a node, which \<open>Node.Stop\<close> waits for, is exact: one
  request raises it by one while it has passed the interceptors and is not answered, and
  not at all otherwise, as long as no user interceptor lets a request pass that it has
  answered itself.
\<close>

theorem rpc_counter_exact:
  assumes "Server_OnMessage copyValue (RPCServer_SetInInterceptor s is) req = (evs, r)"
    and "use_replyer r later = (evs', r', p)"
    and "\<forall>f \<in> set is. \<forall>arg. passes_unanswered (req\<lparr>Arg := arg\<rparr>) f"
  shows "pendingRespCount (evs @ evs') =
    (if \<not> replyed r' \<and> CountOut \<in> set (outInterceptor r') then 1 else 0)"
proof -
  have "balanced evs r \<and> counters r \<le> 1"
    by (rule counting_OnMessage [OF _ assms(3) assms(1)])
       (simp add: RPCServer_SetInInterceptor_def SetInInterceptor_def)
  with keeps_use [OF assms(2)] have b: "balanced (evs @ evs') r'" "counters r' \<le> 1"
    by (auto simp: keeps_def)
  have "counters r' = 0 \<longleftrightarrow> CountOut \<notin> set (outInterceptor r')"
    by (auto simp: counters_def filter_empty_conv)
  with b show ?thesis by (auto simp: balanced_def)
qed

theorem rpc_counter_exact_witness:
  "\<exists>evs r evs' r' p.
     Server_OnMessage (\<lambda>_. Inr) (RPCServer_SetInInterceptor (demo_server []) []) demo_request = (evs, r) \<and>
     use_replyer r [CallReply (IObj 3)] = (evs', r', p) \<and>
     pendingRespCount evs = 1 \<and> pendingRespCount (evs @ evs') = 0"
proof -
  let ?m = "Server_OnMessage (\<lambda>_. Inr) (RPCServer_SetInInterceptor (demo_server []) []) demo_request"
  let ?u = "use_replyer (snd ?m) [CallReply (IObj 3)]"
  have "pendingRespCount (fst ?m @ fst ?u) =
      (if \<not> replyed (fst (snd ?u)) \<and> CountOut \<in> set (outInterceptor (fst (snd ?u))) then 1 else 0)"
    by (rule rpc_counter_exact [of "\<lambda>_. Inr" "demo_server []" "[]" demo_request "fst ?m" "snd ?m"
          "[CallReply (IObj 3)]" "fst ?u" "fst (snd ?u)" "snd (snd ?u)"]) simp_all
  moreover have "replyed (fst (snd ?u))" "pendingRespCount (fst ?m) = 1"
    by (simp_all add: demo_server_simps RPCServer_SetInInterceptor_def SetInInterceptor_def)
  ultimately show ?thesis by (metis prod.collapse)
qed

end
