(* ===== verification/Cluster.thy ===== *)
theory Cluster
  imports Routing Msg_Manager Handshake Socket Rpc_Server "HOL-Library.Char_ord" "HOL-Library.List_Lexorder"
begin

text \<open>
  The node itself (\<open>Node\<close> in \<open>cluster.go\<close>, \<open>onMessage\<close> and \<open>onRelayMessage\<close> in \<open>node.go\<close>, and
  the RPC channels in the root package's \<open>rpc.go\<close>): it puts the node cache, the connections
  to the peers, the handlers and the worker pool together.

  Every operation returns the list of its possible outcomes, because a \<open>select\<close> with two
  ready cases and the operations of a connection have several, or none when they block on
  a mutex. Times are in milliseconds. The tasks given to the pool are values of a
  datatype; a dial that finds the pool full gets a goroutine of its own, so it is always
  counted in the connection.
\<close>

section \<open>State\<close>

datatype ('m, 'v) task =
    TaskBin logic_addr u16 bytes
  | TaskPb logic_addr u16 'm
  | TaskRelay RelayMessage
  | TaskDial ptr
  | TaskServe "'v RequestMsg"
  | TaskDeliver "'v ResponseMsg"

record ('m, 'v, 'h) NodeState =
  selfAddress :: Addr
  cache :: nodeCache
  heap :: "node list"
  conns :: "ptr \<Rightarrow> ('m, 'v) packet peer"
  gpool :: "('m, 'v) task gopool"
  handlers :: "'h msgManager"
  started :: bool
  startOnce :: bool
  stopOnce :: bool
  keepAlive :: bool
  onNewStream :: bool

definition NewClusterNode :: "('m, 'v, 'h) NodeState" where
  "NewClusterNode = \<lparr>selfAddress = zero_Addr, cache = new_cache 0, heap = [], conns = \<lambda>_. new_peer,
     gpool = \<lparr>taskqueue = [], pool_die = False\<rparr>, handlers = new_msgManager, started = False,
     startOnce = False, stopOnce = False, keepAlive = False, onNewStream = False\<rparr>"

abbreviation self_of :: "('m, 'v, 'h) NodeState \<Rightarrow> logic_addr" where
  "self_of s \<equiv> logicAddr (selfAddress s)"

abbreviation died :: "('m, 'v, 'h) NodeState \<Rightarrow> bool" where
  "died s \<equiv> pool_die (gpool s)"

type_synonym ('m, 'v, 'h, 'r) node_outcomes =
  "('r \<times> (ptr \<times> ('m, 'v) packet peer_event) list \<times> ('m, 'v, 'h) NodeState) list"

section \<open>Sending\<close>

definition DefaultSendTimeout :: int where "DefaultSendTimeout = 200"

text \<open>The \<open>select\<close> on \<open>die\<close> and \<open>started\<close> at the head of the public operations.\<close>

definition select_started :: "('m, 'v, 'h) NodeState \<Rightarrow> go_error option list" where
  "select_started s =
     (if died s then [Some (GoError ''server die'')] else []) @
     (if started s then [None] else []) @
     (if \<not> died s \<and> \<not> started s then [Some (GoError ''server not start'')] else [])"

text \<open>\<open>n.sendMessage(s, msg, d)\<close> on the connection of node \<open>p\<close>, and \<open>sendMessageWithContext\<close>.\<close>

definition with_conn ::
    "ptr \<Rightarrow> (('m, 'v) packet peer \<Rightarrow> (('m, 'v) packet, 'r) outcomes) \<Rightarrow> ('m, 'v, 'h) NodeState \<Rightarrow>
     ('m, 'v, 'h, 'r) node_outcomes" where
  "with_conn p f s =
     map (\<lambda>(r, evs, n).
        let g = (if dialing n > dialing (conns s p) then snd (Go (TaskDial p) (gpool s)) else gpool s)
        in (r, map (Pair p) evs, s\<lparr>conns := (conns s)(p := n), gpool := g\<rparr>)) (f (conns s p))"

definition send_task :: "('m, 'v) task \<Rightarrow> ('m, 'v, 'h) NodeState \<Rightarrow> ('m, 'v, 'h, go_error option) node_outcomes" where
  "send_task t s = (case Go t (gpool s) of (err, g) \<Rightarrow> [(err, [], s\<lparr>gpool := g\<rparr>)])"

definition SendBinMessage ::
    "nat \<Rightarrow> int \<Rightarrow> (nat \<Rightarrow> bool) \<Rightarrow> logic_addr \<Rightarrow> u16 \<Rightarrow> bytes \<Rightarrow> int list \<Rightarrow> ('m, 'v, 'h) NodeState \<Rightarrow>
     ('m, 'v, 'h, go_error option) node_outcomes" where
  "SendBinMessage MaxPendingMsgSize now done t c msg dls s =
     concat (map (\<lambda>g. case g of
         Some err \<Rightarrow> [(Some err, [], s)]
       | None \<Rightarrow>
           if t = self_of s then send_task (TaskBin t c msg) s
           else (case getNodeByLogicAddr (self_of s) (cache s) t of
                   None \<Rightarrow> [(Some ErrInvaildNode, [], s)]
                 | Some n \<Rightarrow>
                     let d = (if length dls > 0 then hd dls else now + DefaultSendTimeout)
                     in map (\<lambda>(_, r). (None, r))
                          (with_conn n (sendMessage MaxPendingMsgSize now done
                             (Msg (NewMessage t (self_of s) (PBin msg) [c])) d) s))) (select_started s))"

definition SendPbMessage ::
    "'m Proto \<Rightarrow> (string \<rightharpoonup> PbMeta) \<Rightarrow> nat \<Rightarrow> int \<Rightarrow> (nat \<Rightarrow> bool) \<Rightarrow> logic_addr \<Rightarrow> 'm \<Rightarrow> int list \<Rightarrow>
     ('m, 'v, 'h) NodeState \<Rightarrow> ('m, 'v, 'h, go_error option) node_outcomes" where
  "SendPbMessage P nameSpace MaxPendingMsgSize now done t msg dls s =
     concat (map (\<lambda>g. case g of
         Some err \<Rightarrow> [(Some err, [], s)]
       | None \<Rightarrow>
           if t = self_of s then send_task (TaskPb t (ucast (GetCmd P nameSpace Namespace msg)) msg) s
           else (case getNodeByLogicAddr (self_of s) (cache s) t of
                   None \<Rightarrow> [(Some ErrInvaildNode, [], s)]
                 | Some n \<Rightarrow>
                     let d = (if length dls > 0 then hd dls else now + DefaultSendTimeout)
                     in map (\<lambda>(_, r). (None, r))
                          (with_conn n (sendMessage MaxPendingMsgSize now done
                             (Msg (NewMessage t (self_of s) (PProto msg) [])) d) s))) (select_started s))"

text \<open>\<open>r\<close> is the number the random source returns. A panic of the index is \<open>None\<close>.\<close>

definition GetAddrByType ::
    "nat \<Rightarrow> u32 \<Rightarrow> int list \<Rightarrow> ('m, 'v, 'h) NodeState \<Rightarrow> (go_error + logic_addr) option list" where
  "GetAddrByType r tt ns s =
     map (\<lambda>g. case g of
         Some err \<Rightarrow> Some (Inl err)
       | None \<Rightarrow>
           let num = (if length ns > 0 then hd ns else 0)
           in (case getNormalNode r (cache s) tt num of
                 None \<Rightarrow> None
               | Some (Some n) \<Rightarrow> Some (Inr (logicAddr (addr (heap s ! n))))
               | Some None \<Rightarrow> Some (Inl (GoError ''no available node'')))) (select_started s)"

text \<open>The node on which \<open>OpenStream\<close> opens the stream.\<close>

definition OpenStream :: "logic_addr \<Rightarrow> ('m, 'v, 'h) NodeState \<Rightarrow> (go_error + ptr) list" where
  "OpenStream peer s =
     map (\<lambda>g. case g of
         Some err \<Rightarrow> Inl err
       | None \<Rightarrow>
           if peer = self_of s then Inl (GoError ''cant't open stream to self'')
           else (case getNodeByLogicAddr (self_of s) (cache s) peer of
                   Some n \<Rightarrow> Inr n
                 | None \<Rightarrow> Inl (GoError ''invaild peer''))) (select_started s)"

definition StartSmuxServer :: "('m, 'v, 'h) NodeState \<Rightarrow> go_error option \<times> ('m, 'v, 'h) NodeState" where
  "StartSmuxServer s =
     (if onNewStream s then (Some (GoError ''started''), s) else (None, s\<lparr>onNewStream := True\<rparr>))"

section \<open>Receiving\<close>

definition onRelayMessage ::
    "nat \<Rightarrow> int \<Rightarrow> (nat \<Rightarrow> bool) \<Rightarrow> RelayMessage \<Rightarrow> ('m, 'v, 'h) NodeState \<Rightarrow>
     ('m, 'v, 'h, go_error option) node_outcomes" where
  "onRelayMessage MaxPendingMsgSize now done m s =
     (case getNodeByLogicAddr (self_of s) (cache s) (rto m) of
        Some nextNode \<Rightarrow>
          with_conn nextNode (sendMessage MaxPendingMsgSize now done (Relay m) (now + 1000)) s
      | None \<Rightarrow>
          (case GetRpcRequest m :: 'v RequestMsg option of
             None \<Rightarrow> [(None, [], s)]
           | Some rpcReq \<Rightarrow>
               if Oneway rpcReq then [(None, [], s)]
               else (case getNodeByLogicAddr (self_of s) (cache s) (rfrom m) of
                       None \<Rightarrow> [(None, [], s)]
                     | Some nextNode \<Rightarrow>
                         with_conn nextNode (sendMessage MaxPendingMsgSize now done
                           (Msg (NewMessage (rfrom m) (self_of s)
                             (PResp ((new_response (Seq rpcReq))\<lparr>Err := NewError ErrOther
                               (''route message to target:'' @ LogicAddr_String (rto m) @ '' failed'')\<rparr>)) []))
                           (now + 1000)) s)))"

text \<open>What a received packet leads to, apart from the state.\<close>

datatype ('m, 'v, 'h) effect =
    Dispatch "'h dispatched" logic_addr "('m, 'v) payload"
  | Serve logic_addr "'v RequestMsg"
  | Deliver "'v ResponseMsg"
  | Nothing

definition onMessage ::
    "nat \<Rightarrow> int \<Rightarrow> (nat \<Rightarrow> bool) \<Rightarrow> ('m, 'v) packet \<Rightarrow> ('m, 'v, 'h) NodeState \<Rightarrow>
     ('m, 'v, 'h, ('m, 'v, 'h) effect) node_outcomes" where
  "onMessage MaxPendingMsgSize now done msg s =
     (case msg of
        Msg msg \<Rightarrow>
          (case payload msg of
             PProto m \<Rightarrow> [(Dispatch (dispatchProto (handlers s) (cmd msg)) (from' msg) (PProto m), [], s)]
           | PBin m \<Rightarrow> [(Dispatch (dispatchBinary (handlers s) (cmd msg)) (from' msg) (PBin m), [], s)]
           | PReq m \<Rightarrow> [(Serve (from' msg) m, [], s)]
           | PResp m \<Rightarrow> [(Deliver m, [], s)]
           | POther \<Rightarrow> [(Nothing, [], s)])
      | Relay msg \<Rightarrow>
          (case Go (TaskRelay msg) (gpool s) of
             (None, g) \<Rightarrow> [(Nothing, [], s\<lparr>gpool := g\<rparr>)]
           | (Some _, _) \<Rightarrow> map (\<lambda>(_, r). (Nothing, r)) (onRelayMessage MaxPendingMsgSize now done msg s))
      | OtherPacket \<Rightarrow> [(Nothing, [], s)])"

text \<open>The packet handler \<open>onEstablish\<close> gives to the socket of node \<open>p\<close>: a node that is no longer cached is not served.\<close>

definition packetHandler ::
    "nat \<Rightarrow> int \<Rightarrow> (nat \<Rightarrow> bool) \<Rightarrow> ptr \<Rightarrow> ('m, 'v) packet \<Rightarrow> ('m, 'v, 'h) NodeState \<Rightarrow>
     ('m, 'v, 'h, go_error + ('m, 'v, 'h) effect) node_outcomes" where
  "packetHandler MaxPendingMsgSize now done p msg s =
     (if getNodeByLogicAddr (self_of s) (cache s) (logicAddr (addr (heap s ! p))) \<noteq> Some p
      then [(Inl ErrInvaildNode, [], s)]
      else map (\<lambda>(e, r). (Inr e, r)) (onMessage MaxPendingMsgSize now done msg s))"

section \<open>RPC channels\<close>

definition rpcChannel_Request ::
    "nat \<Rightarrow> int \<Rightarrow> (nat \<Rightarrow> bool) \<Rightarrow> logic_addr \<Rightarrow> ptr \<Rightarrow> 'v RequestMsg \<Rightarrow> ('m, 'v, 'h) NodeState \<Rightarrow>
     ('m, 'v, 'h, go_error option) node_outcomes" where
  "rpcChannel_Request MaxPendingMsgSize now done peer n request s =
     with_conn n (sendMessage MaxPendingMsgSize now done (Msg (NewMessage peer (self_of s) (PReq request) [])) 0) s"

definition rpcChannel_RequestWithContext ::
    "nat \<Rightarrow> int \<Rightarrow> (nat \<Rightarrow> bool) \<Rightarrow> logic_addr \<Rightarrow> ptr \<Rightarrow> nat \<Rightarrow> 'v RequestMsg \<Rightarrow> ('m, 'v, 'h) NodeState \<Rightarrow>
     ('m, 'v, 'h, go_error option) node_outcomes" where
  "rpcChannel_RequestWithContext MaxPendingMsgSize now done peer n cx request s =
     with_conn n (sendMessageWithContext MaxPendingMsgSize now done
       (Msg (NewMessage peer (self_of s) (PReq request) [])) cx) s"

definition rpcChannel_Reply ::
    "nat \<Rightarrow> int \<Rightarrow> (nat \<Rightarrow> bool) \<Rightarrow> logic_addr \<Rightarrow> ptr \<Rightarrow> 'v ResponseMsg \<Rightarrow> ('m, 'v, 'h) NodeState \<Rightarrow>
     ('m, 'v, 'h, go_error option) node_outcomes" where
  "rpcChannel_Reply MaxPendingMsgSize now done peer n response s =
     with_conn n (sendMessage MaxPendingMsgSize now done
       (Msg (NewMessage peer (self_of s) (PResp response) [])) (now + 1000)) s"

definition selfChannel_Request :: "'v RequestMsg \<Rightarrow> ('m, 'v, 'h) NodeState \<Rightarrow> ('m, 'v, 'h, go_error option) node_outcomes" where
  "selfChannel_Request request s = send_task (TaskServe request) s"

definition selfChannel_Reply :: "'v ResponseMsg \<Rightarrow> ('m, 'v, 'h) NodeState \<Rightarrow> ('m, 'v, 'h, go_error option) node_outcomes" where
  "selfChannel_Reply response s = send_task (TaskDeliver response) s"

definition rpcChannel_Name :: "logic_addr \<Rightarrow> logic_addr \<Rightarrow> string" where
  "rpcChannel_Name self peer =
     (let selfAddr = LogicAddr_String self; peerAddr = LogicAddr_String peer
      in if selfAddr > peerAddr then selfAddr @ '' <-> '' @ peerAddr else peerAddr @ '' <-> '' @ selfAddr)"

definition IsRetryAbleError :: "go_error \<Rightarrow> bool" where
  "IsRetryAbleError err \<longleftrightarrow> err \<in> {ErrPendingQueueFull, ErrSendQueueFull, ErrPushToSendQueueTimeout}"

text \<open>
  The head of \<open>RPCClient.Call\<close> and \<open>RPCClient.AsyncCall\<close>: an error, the own node (\<open>None\<close>) or
  the node to send to; and the error that \<open>AsyncCall\<close> makes of the one it gets.
\<close>

definition RPCClient_channel :: "logic_addr \<Rightarrow> ('m, 'v, 'h) NodeState \<Rightarrow> (go_error + ptr option) list" where
  "RPCClient_channel t s =
     map (\<lambda>g. case g of
         Some (GoError e) \<Rightarrow> Inl (RpcErr (Error ErrOther e))
       | Some e \<Rightarrow> Inl e
       | None \<Rightarrow>
           if t = self_of s then Inr None
           else (case getNodeByLogicAddr (self_of s) (cache s) t of
                   Some n \<Rightarrow> Inr (Some n)
                 | None \<Rightarrow> Inl ErrInvaildNode)) (select_started s)"

definition AsyncCall_error :: "go_error option \<Rightarrow> go_error option" where
  "AsyncCall_error err = (if err \<in> {Some ErrPendingQueueFull, Some ErrSendQueueFull} then Some ErrBusy else err)"

section \<open>Starting and stopping\<close>

text \<open>
  \<open>Start\<close>. \<open>sub\<close> is the error of \<open>Subscribe\<close> or the first information it reports, for which
  \<open>waitInit\<close> waits; \<open>listenErr\<close> is the error of listening. \<open>keepAlive\<close> says that the goroutine
  that reports the node as alive is running; it ends when \<open>die\<close> is closed. A panic in the
  node cache is \<open>None\<close>.
\<close>

definition Start ::
    "logic_addr \<Rightarrow> go_error + MemberInfo \<Rightarrow> go_error option \<Rightarrow> ('m, 'v, 'h) NodeState \<Rightarrow>
     (go_error option \<times> ('m, 'v, 'h) NodeState) option" where
  "Start la sub listenErr s =
     (if startOnce s then Some (Some (GoError ''started''), s)
      else
        let s = s\<lparr>startOnce := True, cache := (cache s)\<lparr>localAddr := la\<rparr>\<rparr>
        in (case sub of
              Inl err \<Rightarrow> Some (Some err, s)
            | Inr info \<Rightarrow>
                (case onNodeInfoUpdate info (cache s) (heap s) of
                   None \<Rightarrow> None
                 | Some (C, H, evs) \<Rightarrow>
                     let s = s\<lparr>cache := C, heap := H\<rparr>
                     in (case cache_getNodeByLogicAddr (cache s) la of
                           None \<Rightarrow> Some (Some (GoError (LogicAddr_String la @ '' not in config'')), s)
                         | Some n \<Rightarrow>
                             let s = s\<lparr>selfAddress := addr (heap s ! n), keepAlive := True\<rparr>
                             in (case listenErr of
                                   Some err \<Rightarrow> Some (Some err, s)
                                 | None \<Rightarrow> Some (None, s\<lparr>started := True\<rparr>))))))"

definition Stop :: "('m, 'v, 'h) NodeState \<Rightarrow> go_error option \<times> ('m, 'v, 'h) NodeState" where
  "Stop s =
     (if \<not> started s then (Some (GoError ''server not start''), s)
      else if stopOnce s then (Some (GoError ''stoped''), s)
      else (None, s\<lparr>stopOnce := True\<rparr>))"

text \<open>
  The goroutine of \<open>Stop\<close>: after the subscription, the listener and the RPC server were
  stopped it waits until no request is open; then it closes the connections of all cached
  nodes (\<open>nodeCache.close\<close>), the stream sessions, and \<open>die\<close>. A connection whose mutex is
  never released blocks it (\<open>[]\<close>).
\<close>

fun close_conns :: "ptr list \<Rightarrow> ('m, 'v, 'h) NodeState \<Rightarrow> ('m, 'v, 'h, unit) node_outcomes" where
  "close_conns [] s = [((), [], s)]"
| "close_conns (p # ps) s =
     concat (map (\<lambda>(_, evs, s). map (\<lambda>(_, evs', s). ((), evs @ evs', s)) (close_conns ps s))
       (with_conn p closeSocket s))"

definition cached :: "('m, 'v, 'h) NodeState \<Rightarrow> ptr list" where
  "cached s = filter (\<lambda>p. allnodes (cache s) (logicAddr (addr (heap s ! p))) = Some p) [0..<length (heap s)]"

definition stop_goroutine :: "int \<Rightarrow> ('m, 'v, 'h) NodeState \<Rightarrow> ('m, 'v, 'h, unit) node_outcomes" where
  "stop_goroutine pendingResp s =
     (if \<not> stopOnce s \<or> died s \<or> pendingResp > 0 then []
      else map (\<lambda>(_, evs, s). ((), evs, s\<lparr>gpool := (gpool s)\<lparr>pool_die := True\<rparr>, keepAlive := False\<rparr>))
        (close_conns (cached s) s))"

text \<open>\<open>Wait\<close>: it blocks (\<open>[]\<close>) until \<open>die\<close> is closed.\<close>

definition Wait :: "('m, 'v, 'h) NodeState \<Rightarrow> go_error option list" where
  "Wait s =
     (if \<not> started s then [Some (GoError ''server not start'')]
      else if died s then [None] else [])"

section \<open>Lifecycle\<close>

text \<open>The steps that concern the life of a node.\<close>

inductive life_step :: "('m, 'v, 'h) NodeState \<Rightarrow> ('m, 'v, 'h) NodeState \<Rightarrow> bool" where
  start: "Start la sub listenErr s = Some (r, s') \<Longrightarrow> life_step s s'"
| stop: "Stop s = (r, s') \<Longrightarrow> life_step s s'"
| stopping: "(r, evs, s') \<in> set (stop_goroutine pendingResp s) \<Longrightarrow> life_step s s'"

lemma close_conns_fields:
  "(r, evs, s') \<in> set (close_conns ps s) \<Longrightarrow>
     started s' = started s \<and> startOnce s' = startOnce s \<and> stopOnce s' = stopOnce s \<and>
     keepAlive s' = keepAlive s \<and> cache s' = cache s \<and> selfAddress s' = selfAddress s"
  by (induction ps arbitrary: s evs r) (fastforce simp: with_conn_def Let_def)+

definition life_inv :: "('m, 'v, 'h) NodeState \<Rightarrow> bool" where
  "life_inv s \<longleftrightarrow> (started s \<longrightarrow> startOnce s) \<and> (stopOnce s \<longrightarrow> started s) \<and> (died s \<longrightarrow> stopOnce s)"

lemma life_inv_step:
  assumes "life_step s s'" "life_inv s"
  shows "life_inv s' \<and> (startOnce s \<longrightarrow> started s' = started s) \<and>
    (startOnce s \<and> \<not> started s \<longrightarrow> keepAlive s' = keepAlive s \<and> \<not> died s' \<and> startOnce s')"
  using assms(1)
proof cases
  case (start la sub listenErr r)
  then show ?thesis using assms(2)
    by (auto simp: Start_def life_inv_def Let_def split: if_splits sum.splits option.splits prod.splits)
next
  case (stop r)
  then show ?thesis using assms(2) by (auto simp: Stop_def life_inv_def split: if_splits)
next
  case (stopping r evs pendingResp)
  then show ?thesis using assms(2)
    by (auto simp: stop_goroutine_def life_inv_def split: if_splits dest!: close_conns_fields)
qed

lemma life_run:
  assumes "life_step\<^sup>*\<^sup>* s s'" "life_inv s" "startOnce s" "\<not> started s" "keepAlive s"
  shows "\<not> started s' \<and> keepAlive s' \<and> \<not> died s' \<and> startOnce s' \<and> life_inv s'"
  using assms
proof (induction rule: rtranclp_induct)
  case base
  then show ?case by (auto simp: life_inv_def)
next
  case (step y z)
  then show ?case using life_inv_step [OF step.hyps(2)] by auto
qed

section \<open>Properties\<close>

text \<open>
  C37. A failed start is final, and it leaves a node that claims to be alive: when listening
  fails, \<open>Start\<close> returns the error but the subscription and the goroutine that reports the
  node as alive go on. Whatever sequence of \<open>Start\<close> and \<open>Stop\<close> follows, \<open>Start\<close> answers
  \<open>started\<close>, \<open>Stop\<close> answers \<open>server not start\<close>, and that goroutine is never ended.
\<close>

theorem failed_start_is_final:
  assumes "Start la (Inr info) (Some err) NewClusterNode = Some (r, s)" "keepAlive s" "life_step\<^sup>*\<^sup>* s s'"
  shows "r = Some err \<and> Start la' sub listenErr s' = Some (Some (GoError ''started''), s') \<and>
    Stop s' = (Some (GoError ''server not start''), s') \<and> keepAlive s' \<and> \<not> died s'"
proof -
  have s: "life_inv s" "startOnce s" "\<not> started s" "r = Some err"
    using assms(1,2) by (auto simp: Start_def NewClusterNode_def life_inv_def Let_def
        split: option.splits prod.splits)
  from life_run [OF assms(3) s(1-3) assms(2)] s(4) show ?thesis by (simp add: Start_def Stop_def)
qed

theorem failed_start_is_final_witness:
  "\<exists>s :: (nat, nat, nat) NodeState. Start 526339 (Inr \<lparr>Add = [demo_node], Remove = [], Update = []\<rparr>) (Some (GoError ''in use'')) NewClusterNode =
       Some (Some (GoError ''in use''), s) \<and> keepAlive s \<and> Stop s = (Some (GoError ''server not start''), s)"
proof -
  let ?info = "\<lparr>Add = [demo_node], Remove = [], Update = []\<rparr>"
  obtain C H where u: "onNodeInfoUpdate ?info (new_cache 526339) [] = Some (C, H, [])" "allnodes C 526339 = Some 0"
    by (simp add: onNodeInfoUpdate_def add_member_def visible_def demo_node_def new_cache_def Let_def)
  have c: "(new_cache 0)\<lparr>localAddr := 526339\<rparr> = new_cache 526339" by (simp add: new_cache_def)
  obtain s :: "(nat, nat, nat) NodeState" where s:
    "Start 526339 (Inr ?info) (Some (GoError ''in use'')) NewClusterNode = Some (Some (GoError ''in use''), s)" "keepAlive s"
    using u by (simp add: Start_def NewClusterNode_def c cache_getNodeByLogicAddr_def Let_def)
  with failed_start_is_final [OF s rtranclp.rtrancl_refl] show ?thesis by blast
qed

text \<open>
  A message that is lost to a full queue is reported as sent: when the queue of
  the next node is full, \<open>sendMessage\<close> returns \<open>ErrPendingQueueFull\<close>, and \<open>SendBinMessage\<close> and
  \<open>SendPbMessage\<close> return no error. Their comment says that the error is returned.
\<close>

lemma send_error_lost:
  assumes "started s" "\<not> died s" "t \<noteq> self_of s" "getNodeByLogicAddr (self_of s) (cache s) t = Some p"
    and "\<not> mutex (conns s p)" "sock (conns s p) = None" "MaxPendingMsgSize \<le> length (pendingMsg (conns s p))"
  shows "\<exists>n s'. sendMessage MaxPendingMsgSize now done pkt 0 (conns s p) = [(Some ErrPendingQueueFull, [], n)] \<and>
    SendBinMessage MaxPendingMsgSize now done t c msg [0] s = [(None, [], s')] \<and>
    SendPbMessage P nameSpace MaxPendingMsgSize now done t x [0] s = [(None, [], s')] \<and>
    conns s' p = n \<and> pendingMsg n = pendingMsg (conns s p)"
proof -
  let ?n = "(conns s p)\<lparr>mutex := True\<rparr>"
  have full: "sendMessage MaxPendingMsgSize now done pkt 0 (conns s p) = [(Some ErrPendingQueueFull, [], ?n)]" for pkt
    using assms(5-7) by (simp add: sendMessage_def)
  then show ?thesis
    using assms(1-4) by (simp add: SendBinMessage_def SendPbMessage_def select_started_def with_conn_def Let_def)
qed


lemma demo_dropped: "\<exists>path. route 3 demo_net 263169 525314 = Dropped path \<and> path \<noteq> []"
proof -
  let ?V = "view_put Map.empty demo_members"
  have a: "?V 263169 \<noteq> None" by (simp add: demo_view)
  have "\<not> reachable ?V 263169 525314" by (simp add: reachable_def demo_view)
  then obtain path where path: "route 3 demo_net 263169 525314 = Dropped path"
    using route_settled [OF demo_consistent a, of 525314]
    by (cases "route 3 demo_net 263169 525314") (simp_all add: settled_def)
  have out: "LogicAddr_Cluster 525314 \<noteq> LogicAddr_Cluster 263169" by (simp add: field_eqs)
  have "is_harbor ?V (gate 263169 525314) 523265"
    by (simp add: is_harbor_def demo_view demo_member_def gate_def field_eqs HarbarType_def)
  then have "has_harbor ?V (gate 263169 525314)" unfolding has_harbor_def by blast
  with next_hop_outside [OF demo_consistent a out] obtain h where "next_hop demo_net 263169 525314 = Some h"
    by (cases "next_hop demo_net 263169 525314") simp_all
  then have "route (Suc 2) demo_net 263169 525314 = prepend h (route 2 demo_net h 525314)"
    by (intro route_hop) simp_all
  with path have "path \<noteq> []" by (cases "route 2 demo_net h 525314") auto
  with path show ?thesis by blast
qed


end
