(* ===== verification/Rpc_Client.thy ===== *)
theory Rpc_Client
  imports Rpc_Msg
begin

text \<open>
  The RPC client (\<open>rpc/client.go\<close>): sequence numbers, the sharded table of pending calls,
  and asynchronous calls with their pooled contexts, timers and responses in every
  interleaving; the synchronous call as a loop over the results of its environment.

  The goroutines that are in the middle of an operation are the \<open>jobs\<close> of the state; a job
  says what is left to do and with which context. A context is an index into \<open>ctxs\<close>; the
  callback of a call and its timer are named by the call's sequence number. Parameters are
  the clock readings, the results of the channel, and the responses.
\<close>

section \<open>Sequence numbers\<close>

datatype entry = SyncCtx nat | AsynCtx nat

record Client =
  nextSequence :: u32
  timestamp :: u32
  timeOffset :: u32
  pendingCall :: "nat \<Rightarrow> u64 \<rightharpoonup> entry"

definition NewClient :: "int \<Rightarrow> Client" where
  "NewClient secs = \<lparr>nextSequence = 0, timestamp = 0, timeOffset = word_of_int secs,
     pendingCall = \<lambda>_. Map.empty\<rparr>"

text \<open>\<open>secs\<close> is \<open>time.Since(c.startTime) / time.Second\<close>.\<close>

definition getTimeStamp :: "Client \<Rightarrow> int \<Rightarrow> u32" where
  "getTimeStamp c secs = word_of_int secs + timeOffset c"

definition makeSequence :: "int \<Rightarrow> Client \<Rightarrow> u64 \<times> Client" where
  "makeSequence secs c =
     (let ts = getTimeStamp c secs;
          c = (if ts > timestamp c then c\<lparr>timestamp := ts, nextSequence := 1\<rparr>
               else c\<lparr>nextSequence := nextSequence c + 1\<rparr>)
      in (push_bit 32 (ucast (timestamp c)) + ucast (nextSequence c), c))"

definition seq_nat :: "Client \<Rightarrow> nat" where
  "seq_nat c = unat (timestamp c) * 2 ^ 32 + unat (nextSequence c)"

lemma unat_seq:
  "unat (push_bit 32 (ucast (t :: u32)) + ucast (n :: u32) :: u64) = unat t * 2 ^ 32 + unat n"
proof -
  have t: "unat t < 2 ^ 32" and n: "unat n < 2 ^ 32" using unsigned_less [of t] unsigned_less [of n] by simp_all
  have "unat (push_bit 32 (ucast t) :: u64) = unat t * 2 ^ 32"
    using t by (subst unsigned_push_bit_eq) (simp add: unsigned_ucast_eq push_bit_eq_mult take_bit_nat_eq_self)
  moreover have "unat (ucast n :: u64) = unat n"
    using n by (simp add: unsigned_ucast_eq take_bit_nat_eq_self)
  moreover have "unat t * 2 ^ 32 + unat n < 2 ^ 64" using t n by simp
  ultimately show ?thesis by (simp add: unat_word_ariths)
qed

lemma makeSequence_grows:
  assumes "makeSequence secs c = (q, c')" "unat (nextSequence c) < 2 ^ 32 - 1"
  shows "unat q = seq_nat c'" "seq_nat c < seq_nat c'" "unat (nextSequence c') \<le> Suc (unat (nextSequence c))"
    "pendingCall c' = pendingCall c"
proof -
  have inc: "unat (nextSequence c + 1) = Suc (unat (nextSequence c))"
    using assms(2) by (simp add: unat_word_ariths)
  show "unat q = seq_nat c'" "pendingCall c' = pendingCall c"
    using assms(1) by (auto simp: makeSequence_def Let_def unat_seq [of _ 1, simplified] unat_seq seq_nat_def split: if_splits)
  show "unat (nextSequence c') \<le> Suc (unat (nextSequence c))"
    using assms(1) inc by (auto simp: makeSequence_def Let_def split: if_splits)
  show "seq_nat c < seq_nat c'"
  proof (cases "getTimeStamp c secs > timestamp c")
    case True
    then have "Suc (unat (timestamp c)) \<le> unat (getTimeStamp c secs)" by (simp add: word_less_nat_alt Suc_le_eq)
    then have "(unat (timestamp c) + 1) * 2 ^ 32 \<le> unat (getTimeStamp c secs) * 2 ^ 32" by simp
    with assms True show ?thesis by (auto simp: makeSequence_def seq_nat_def Let_def)
  next
    case False
    with assms(1) inc show ?thesis by (auto simp: makeSequence_def seq_nat_def Let_def)
  qed
qed

section \<open>Pending calls\<close>

text \<open>
  \<open>pending\<close> picks the shard with \<open>int(seq) % 32\<close>. The conversion to a signed integer makes
  the remainder negative for large sequence numbers, and the index panics (\<open>None\<close>).
\<close>

definition pending_index :: "u64 \<Rightarrow> nat option" where
  "pending_index q =
     (if 0 \<le> sint q then Some (nat (sint q) mod 32)
      else if nat (- sint q) mod 32 = 0 then Some 0 else None)"

lemma sint_u64: "sint (q :: u64) = (if unat q < 2 ^ 63 then int (unat q) else int (unat q) - 2 ^ 64)"
proof -
  have q: "uint q < 2 ^ 64" "0 \<le> uint q" using uint_lt2p [of q] by simp_all
  have "odd (x div d) \<longleftrightarrow> d \<le> x" if "0 \<le> x" "x < 2 * d" for x d :: int
  proof (cases "d \<le> x")
    case True
    with that have "x div d = 1" using div_pos_geq [of d x] div_pos_pos_trivial [of "x - d" d] by simp
    with True show ?thesis by simp
  qed (use that in \<open>simp add: div_pos_pos_trivial\<close>)
  from this [of "uint q" "2 ^ 63"] q have "bit (uint q) 63 \<longleftrightarrow> 2 ^ 63 \<le> uint q" by (simp add: bit_iff_odd)
  moreover have "sint q = uint q - 2 ^ 64 * of_bool (bit (uint q) 63)"
    using q by (simp add: sint_uint signed_take_bit_eq_take_bit_minus take_bit_int_eq_self)
  moreover have i: "int (unat q) = uint q" by simp
  moreover have "unat q < 2 ^ 63 \<longleftrightarrow> int (unat q) < int (2 ^ 63)" by (simp only: of_nat_less_iff)
  then have "unat q < 2 ^ 63 \<longleftrightarrow> \<not> 2 ^ 63 \<le> uint q" unfolding i by (simp add: not_le)
  ultimately show ?thesis unfolding i by simp
qed

lemma pending_index_None: "pending_index q = None \<longleftrightarrow> 2 ^ 63 \<le> unat q \<and> unat q mod 32 \<noteq> 0"
proof -
  obtain n where n: "unat q = n" by blast
  have less: "n < 2 ^ 64" using unsigned_less [of q, where 'a = nat] n by simp
  have s: "sint q = (if n < 2 ^ 63 then int n else int n - 2 ^ 64)" using sint_u64 [of q] unfolding n .
  have "nat (- (int n - 2 ^ 64)) = 2 ^ 64 - n" using less by (simp add: nat_diff_distrib)
  moreover have "(2 ^ 64 - n) mod 32 = 0 \<longleftrightarrow> n mod 32 = 0"
  proof -
    have "32 dvd (2 ^ 64 :: nat)" by simp
    with less show ?thesis by (metis dvd_diff_nat dvd_diffD1 less_imp_le mod_0_imp_dvd mod_eq_0_iff_dvd)
  qed
  moreover have "0 \<le> sint q \<longleftrightarrow> n < 2 ^ 63" using less unfolding s by simp
  ultimately show ?thesis unfolding n pending_index_def by (simp add: s)
qed

definition Store :: "u64 \<Rightarrow> entry \<Rightarrow> Client \<Rightarrow> Client option" where
  "Store q e c =
     (case pending_index q of
        None \<Rightarrow> None
      | Some i \<Rightarrow> Some (c\<lparr>pendingCall := (pendingCall c)(i := (pendingCall c i)(q \<mapsto> e))\<rparr>))"

definition LoadAndDelete :: "u64 \<Rightarrow> Client \<Rightarrow> (entry option \<times> Client) option" where
  "LoadAndDelete q c =
     (case pending_index q of
        None \<Rightarrow> None
      | Some i \<Rightarrow> Some (pendingCall c i q, c\<lparr>pendingCall := (pendingCall c)(i := (pendingCall c i)(q := None))\<rparr>))"

text \<open>The table without the shards.\<close>

definition table :: "Client \<Rightarrow> u64 \<rightharpoonup> entry" where
  "table c q = (case pending_index q of None \<Rightarrow> None | Some i \<Rightarrow> pendingCall c i q)"

lemma Store_table:
  "Store q e c = Some c' \<Longrightarrow> table c' = (table c)(q \<mapsto> e) \<and> nextSequence c' = nextSequence c \<and>
     seq_nat c' = seq_nat c"
  by (auto simp: Store_def table_def seq_nat_def fun_eq_iff split: option.splits)

lemma LoadAndDelete_table:
  "LoadAndDelete q c = Some (x, c') \<Longrightarrow> x = table c q \<and> table c' = (table c)(q := None) \<and>
     nextSequence c' = nextSequence c \<and> seq_nat c' = seq_nat c"
  by (auto simp: LoadAndDelete_def table_def seq_nat_def fun_eq_iff split: option.splits)

lemma makeSequence_table [simp]: "table (snd (makeSequence secs c)) = table c"
  by (auto simp: makeSequence_def table_def Let_def fun_eq_iff split: option.split)

section \<open>Asynchronous calls\<close>

record asynContext =
  onResponse :: u64
  timer :: u64
  fired :: bool

text \<open>
  \<open>Requesting\<close>: \<open>AsyncCall\<close> is in \<open>channel.Request\<close>. \<open>Failing\<close>: the request failed, the entry
  was looked up (the flag is \<open>timerStopped\<close>) and the compare-and-swap is next. \<open>TimedOut\<close>: the timer function has
  taken the entry and calls \<open>onTimeout\<close>. \<open>Responding\<close> and \<open>Calling\<close>: \<open>OnMessage\<close> has taken the
  entry and stops the timer, and then calls \<open>callOnResponse\<close>. \<open>Putting\<close>: the context goes
  back to the pool.
\<close>

datatype 'r job =
    Requesting u64 nat | Failing u64 nat bool | TimedOut nat | Responding nat 'r
  | Calling nat 'r bool | Putting nat

record 'r world =
  cli :: Client
  ctxs :: "nat \<Rightarrow> asynContext"
  asynCtxPool :: "nat list"
  nctx :: nat
  armed :: "(u64 \<times> nat) list"
  jobs :: "'r job list"

datatype 'r outcome = Response 'r | Timeout

datatype 'r cli_event =
    Began u64 | Posted u64 | Failed u64 | Callback u64 "'r outcome" | SyncSent nat 'r | NoContext u64

definition new_world :: "int \<Rightarrow> 'r world" where
  "new_world secs = \<lparr>cli = NewClient secs, ctxs = \<lambda>_. \<lparr>onResponse = 0, timer = 0, fired = False\<rparr>,
     asynCtxPool = [], nctx = 0, armed = [], jobs = []\<rparr>"

text \<open>
  The part of \<open>AsyncCall\<close> up to the request: \<open>k\<close> is the context that \<open>asynCtxPool.Get\<close>
  returns, a pooled one or a new one. \<open>None\<close> is a panic of the shard index.
\<close>

definition get_ctx :: "nat \<Rightarrow> 'r world \<Rightarrow> 'r world option" where
  "get_ctx k w =
     (if k \<in> set (asynCtxPool w) then Some (w\<lparr>asynCtxPool := remove1 k (asynCtxPool w)\<rparr>)
      else if k = nctx w then Some (w\<lparr>nctx := Suc k\<rparr>) else None)"

definition AsyncCall :: "int \<Rightarrow> nat \<Rightarrow> 'r world \<Rightarrow> ('r cli_event list \<times> 'r world) option" where
  "AsyncCall secs k w =
     (case makeSequence secs (cli w) of (q, c) \<Rightarrow>
        (case Store q (AsynCtx k) c of
           None \<Rightarrow> None
         | Some c \<Rightarrow>
             Some ([Began q],
               w\<lparr>cli := c, ctxs := (ctxs w)(k := \<lparr>onResponse = q, timer = q, fired = False\<rparr>),
                 armed := armed w @ [(q, k)], jobs := jobs w @ [Requesting q k]\<rparr>)))"

text \<open>\<open>timer.Stop()\<close> of the timer of call \<open>q\<close>: whether it was still running.\<close>

definition timer_Stop :: "u64 \<Rightarrow> 'r world \<Rightarrow> bool \<times> 'r world" where
  "timer_Stop q w = (q \<in> fst ` set (armed w), w\<lparr>armed := filter (\<lambda>(q', _). q' \<noteq> q) (armed w)\<rparr>)"

text \<open>The rest of \<open>AsyncCall\<close>, when the request failed, in two parts.\<close>

definition request_failed :: "u64 \<Rightarrow> nat \<Rightarrow> 'r world \<Rightarrow> ('r cli_event list \<times> 'r world) option" where
  "request_failed q k w =
     (case LoadAndDelete q (cli w) of
        None \<Rightarrow> None
      | Some (e, c) \<Rightarrow>
          let w = w\<lparr>cli := c\<rparr>;
              (st, w) = (if e \<noteq> None then timer_Stop (timer (ctxs w k)) w else (False, w))
          in Some ([Failed q], w\<lparr>jobs := jobs w @ [Failing q k st]\<rparr>))"

text \<open>\<open>CompareAndSwapInt32(&c.fired, 0, 1)\<close>\<close>

definition fire :: "nat \<Rightarrow> 'r world \<Rightarrow> bool \<times> 'r world" where
  "fire k w = (\<not> fired (ctxs w k), w\<lparr>ctxs := (ctxs w)(k := (ctxs w k)\<lparr>fired := True\<rparr>)\<rparr>)"

definition failing :: "nat \<Rightarrow> bool \<Rightarrow> 'r world \<Rightarrow> 'r world" where
  "failing k timerStopped w =
     (case fire k w of (won, w) \<Rightarrow>
        if won \<and> timerStopped then w\<lparr>asynCtxPool := asynCtxPool w @ [k]\<rparr> else w)"

definition callOnResponse :: "nat \<Rightarrow> 'r outcome \<Rightarrow> 'r world \<Rightarrow> bool \<times> 'r cli_event list \<times> 'r world" where
  "callOnResponse k r w =
     (case fire k w of (won, w) \<Rightarrow>
        if won then (True, [Callback (onResponse (ctxs w k)) r], w) else (False, [], w))"

definition onTimeout :: "nat \<Rightarrow> 'r world \<Rightarrow> 'r cli_event list \<times> 'r world" where
  "onTimeout k w =
     (case callOnResponse k Timeout w of
        (True, evs, w) \<Rightarrow> (evs, w\<lparr>jobs := jobs w @ [Putting k]\<rparr>)
      | (False, evs, w) \<Rightarrow> (evs, w))"

text \<open>The function of the timer of call \<open>q\<close> with context \<open>k\<close>.\<close>

definition timer_fires :: "u64 \<Rightarrow> nat \<Rightarrow> 'r world \<Rightarrow> 'r world option" where
  "timer_fires q k w =
     (case LoadAndDelete q (cli w) of
        None \<Rightarrow> None
      | Some (e, c) \<Rightarrow>
          let w = w\<lparr>cli := c, armed := filter (\<lambda>(q', _). q' \<noteq> q) (armed w)\<rparr>
          in Some (if e \<noteq> None then w\<lparr>jobs := jobs w @ [TimedOut k]\<rparr> else w))"

text \<open>\<open>OnMessage\<close> and what it goes on to do for an asynchronous call.\<close>

definition OnMessage :: "u64 \<Rightarrow> 'r \<Rightarrow> 'r world \<Rightarrow> ('r cli_event list \<times> 'r world) option" where
  "OnMessage q resp w =
     (case LoadAndDelete q (cli w) of
        None \<Rightarrow> None
      | Some (e, c) \<Rightarrow>
          let w = w\<lparr>cli := c\<rparr>
          in (case e of
                Some (SyncCtx v) \<Rightarrow> Some ([SyncSent v resp], w)
              | Some (AsynCtx k) \<Rightarrow> Some ([], w\<lparr>jobs := jobs w @ [Responding k resp]\<rparr>)
              | None \<Rightarrow> Some ([NoContext q], w)))"

definition responding :: "nat \<Rightarrow> 'r \<Rightarrow> 'r world \<Rightarrow> 'r world" where
  "responding k resp w =
     (case timer_Stop (timer (ctxs w k)) w of (ok, w) \<Rightarrow> w\<lparr>jobs := jobs w @ [Calling k resp ok]\<rparr>)"

definition calling :: "nat \<Rightarrow> 'r \<Rightarrow> bool \<Rightarrow> 'r world \<Rightarrow> 'r cli_event list \<times> 'r world" where
  "calling k resp ok w =
     (case callOnResponse k (Response resp) w of (_, evs, w) \<Rightarrow>
        (evs, if ok then w\<lparr>jobs := jobs w @ [Putting k]\<rparr> else w))"

text \<open>
  One step of a goroutine: a call begins (one-way, synchronous, or asynchronous), a
  synchronous call gives up, a job does its next part, a timer fires, or a message arrives.
\<close>

inductive cli_step :: "'r world \<Rightarrow> 'r cli_event list \<Rightarrow> 'r world \<Rightarrow> bool" where
  oneway: "makeSequence secs (cli w) = (q, c) \<Longrightarrow> cli_step w [Posted q] (w\<lparr>cli := c\<rparr>)"
| sync: "makeSequence secs (cli w) = (q, c) \<Longrightarrow> Store q (SyncCtx v) c = Some c' \<Longrightarrow>
    cli_step w [Posted q] (w\<lparr>cli := c'\<rparr>)"
| sync_end: "table (cli w) q = Some (SyncCtx v) \<Longrightarrow> LoadAndDelete q (cli w) = Some (e, c) \<Longrightarrow>
    cli_step w [] (w\<lparr>cli := c\<rparr>)"
| async: "get_ctx k w = Some w1 \<Longrightarrow> AsyncCall secs k w1 = Some (evs, w') \<Longrightarrow> cli_step w evs w'"
| accepted: "jobs w = a @ Requesting q k # b \<Longrightarrow> cli_step w [] (w\<lparr>jobs := a @ b\<rparr>)"
| refused: "jobs w = a @ Requesting q k # b \<Longrightarrow>
    request_failed q k (w\<lparr>jobs := a @ b\<rparr>) = Some (evs, w') \<Longrightarrow> cli_step w evs w'"
| failing: "jobs w = a @ Failing q k st # b \<Longrightarrow> cli_step w [] (failing k st (w\<lparr>jobs := a @ b\<rparr>))"
| timer: "(q, k) \<in> set (armed w) \<Longrightarrow> timer_fires q k w = Some w' \<Longrightarrow> cli_step w [] w'"
| timeout: "jobs w = a @ TimedOut k # b \<Longrightarrow> onTimeout k (w\<lparr>jobs := a @ b\<rparr>) = (evs, w') \<Longrightarrow>
    cli_step w evs w'"
| message: "OnMessage q resp w = Some (evs, w') \<Longrightarrow> cli_step w evs w'"
| responding: "jobs w = a @ Responding k resp # b \<Longrightarrow> cli_step w [] (responding k resp (w\<lparr>jobs := a @ b\<rparr>))"
| calling: "jobs w = a @ Calling k resp ok # b \<Longrightarrow>
    calling k resp ok (w\<lparr>jobs := a @ b\<rparr>) = (evs, w') \<Longrightarrow> cli_step w evs w'"
| putting: "jobs w = a @ Putting k # b \<Longrightarrow>
    cli_step w [] (w\<lparr>jobs := a @ b, asynCtxPool := asynCtxPool w @ [k]\<rparr>)"

inductive cli_run :: "int \<Rightarrow> 'r cli_event list \<Rightarrow> 'r world \<Rightarrow> bool" for secs where
  start: "cli_run secs [] (new_world secs)"
| step: "cli_run secs tr w \<Longrightarrow> cli_step w evs w' \<Longrightarrow> cli_run secs (tr @ evs) w'"

definition began :: "'r cli_event list \<Rightarrow> u64 list" where
  "began tr = concat (map (\<lambda>e. case e of Began q \<Rightarrow> [q] | _ \<Rightarrow> []) tr)"

definition called :: "'r cli_event list \<Rightarrow> u64 list" where
  "called tr = concat (map (\<lambda>e. case e of Callback q _ \<Rightarrow> [q] | _ \<Rightarrow> []) tr)"

definition failed :: "'r cli_event list \<Rightarrow> u64 list" where
  "failed tr = concat (map (\<lambda>e. case e of Failed q \<Rightarrow> [q] | _ \<Rightarrow> []) tr)"

definition numbered :: "'r cli_event list \<Rightarrow> u64 list" where
  "numbered tr = concat (map (\<lambda>e. case e of Began q \<Rightarrow> [q] | Posted q \<Rightarrow> [q] | _ \<Rightarrow> []) tr)"

lemma cli_trace_simps [simp]:
  "began [] = []" "called [] = []" "failed [] = []" "numbered [] = []"
  "numbered (e # tr) = (case e of Began q \<Rightarrow> [q] | Posted q \<Rightarrow> [q] | _ \<Rightarrow> []) @ numbered tr"
  "numbered (tr @ tr') = numbered tr @ numbered tr'"
  "began (e # tr) = (case e of Began q \<Rightarrow> [q] | _ \<Rightarrow> []) @ began tr"
  "called (e # tr) = (case e of Callback q _ \<Rightarrow> [q] | _ \<Rightarrow> []) @ called tr"
  "failed (e # tr) = (case e of Failed q \<Rightarrow> [q] | _ \<Rightarrow> []) @ failed tr"
  "began (tr @ tr') = began tr @ began tr'" "called (tr @ tr') = called tr @ called tr'"
  "failed (tr @ tr') = failed tr @ failed tr'"
  by (simp_all add: began_def called_def failed_def numbered_def)

section \<open>Synchronous calls\<close>

definition Canceled :: go_error where "Canceled = GoError ''context canceled''"
definition DeadlineExceeded :: go_error where "DeadlineExceeded = GoError ''context deadline exceeded''"

definition rpcError :: "go_error \<Rightarrow> rpc_error option" where
  "rpcError err =
     (if err = Canceled then NewError ErrCancel ''canceled''
      else if err = DeadlineExceeded then NewError ErrTimeout ''timeout''
      else NewError ErrOther (error_Error err))"

text \<open>
  What one round of the loop of \<open>Call\<close> meets. The request is refused, and after the pause
  the context may be done; or it is accepted, and then the response comes or the context
  is done first, in which case \<open>OnMessage\<close> may have taken the entry already.
\<close>

datatype 'v attempt =
    Refuse go_error "go_error option" | Answer "'v ResponseMsg" | GiveUp go_error bool

definition forget :: "u64 \<Rightarrow> Client \<Rightarrow> Client" where
  "forget q c = (case LoadAndDelete q c of None \<Rightarrow> c | Some (e, c') \<Rightarrow> c')"

text \<open>
  \<open>Call\<close> for a request that wants a result, after the entry \<open>q\<close> has been stored: the error,
  the result, the client, and whether the channel goes back to \<open>syncCtxPool\<close>. \<open>None\<close> means
  that the loop is still trying.
\<close>

fun Call ::
    "(go_error \<Rightarrow> bool) \<Rightarrow> ('v \<Rightarrow> 'v \<Rightarrow> go_error + 'v) \<Rightarrow> u64 \<Rightarrow> 'v \<Rightarrow> 'v attempt list \<Rightarrow> Client \<Rightarrow>
     (rpc_error option \<times> 'v \<times> Client \<times> bool) option" where
  "Call IsRetryAbleError copyValue q ret [] c = None"
| "Call IsRetryAbleError copyValue q ret (Answer resp # _) c =
     Some (case Err resp of
             Some e \<Rightarrow> (Some e, ret, forget q c, True)
           | None \<Rightarrow>
               (case decodeRet copyValue resp ret of
                  Inr v \<Rightarrow> (None, v, forget q c, True)
                | Inl err \<Rightarrow> (rpcError err, ret, forget q c, True)))"
| "Call IsRetryAbleError copyValue q ret (GiveUp err taken # _) c =
     Some (rpcError err, ret, forget q c, \<not> taken)"
| "Call IsRetryAbleError copyValue q ret (Refuse err ctxErr # as) c =
     (if IsRetryAbleError err then
        (case ctxErr of
           Some e \<Rightarrow> Some (rpcError e, ret, forget q c, True)
         | None \<Rightarrow> Call IsRetryAbleError copyValue q ret as c)
      else Some (rpcError err, ret, forget q c, True))"

text \<open>The one-way call (\<open>ret == nil\<close>).\<close>

fun Call_oneway :: "(go_error \<Rightarrow> bool) \<Rightarrow> (go_error option \<times> go_error option) list \<Rightarrow> rpc_error option option" where
  "Call_oneway IsRetryAbleError [] = None"
| "Call_oneway IsRetryAbleError ((None, _) # _) = Some None"
| "Call_oneway IsRetryAbleError ((Some err, ctxErr) # as) =
     (if IsRetryAbleError err then
        (case ctxErr of Some e \<Rightarrow> Some (rpcError e) | None \<Rightarrow> Call_oneway IsRetryAbleError as)
      else Some (rpcError err))"

lemma forget_table: "pending_index q \<noteq> None \<Longrightarrow> table (forget q c) = (table c)(q := None)"
proof -
  assume "pending_index q \<noteq> None"
  then obtain e c' where "LoadAndDelete q c = Some (e, c')" by (auto simp: LoadAndDelete_def)
  with LoadAndDelete_table [OF this] show ?thesis by (simp add: forget_def)
qed

lemma Call_retries:
  assumes "\<forall>a \<in> set as. \<exists>e. a = Refuse e None \<and> IsRetryAbleError e"
  shows "Call IsRetryAbleError copyValue q ret (as @ rest) c = Call IsRetryAbleError copyValue q ret rest c"
  using assms by (induction as) auto

lemma rpcError_Some: "\<exists>e. rpcError err = Some e"
  by (simp add: rpcError_def NewError_def rpc_codes)

lemma Call_forgets:
  "Call IsRetryAbleError copyValue q ret as c = Some (err, v, c', put_back) \<Longrightarrow> c' = forget q c"
  by (induction IsRetryAbleError copyValue q ret as c rule: Call.induct)
     (auto split: option.splits sum.splits if_splits)

section \<open>Who may call a callback\<close>

text \<open>The contexts that a job will call back with, and those that it alone may touch.\<close>

fun caller_of :: "'r job \<Rightarrow> nat list" where
  "caller_of (TimedOut k) = [k]"
| "caller_of (Responding k _) = [k]"
| "caller_of (Calling k _ _) = [k]"
| "caller_of _ = []"

fun owner_of :: "'r job \<Rightarrow> nat list" where
  "owner_of (Failing q k st) = (if st then [k] else [])"
| "owner_of (Requesting q k) = []"
| "owner_of (Putting k) = [k]"
| "owner_of j = caller_of j"

definition callers :: "'r job list \<Rightarrow> nat list" where
  "callers js = concat (map caller_of js)"

definition owned :: "'r world \<Rightarrow> nat list" where
  "owned w = concat (map owner_of (jobs w)) @ asynCtxPool w"

lemma callers_simps [simp]:
  "callers [] = []" "callers (j # js) = caller_of j @ callers js" "callers (a @ b) = callers a @ callers b"
  by (simp_all add: callers_def)

lemma callers_owned: "k \<in> set (callers (jobs w)) \<Longrightarrow> k \<in> set (owned w)"
proof -
  have "set (caller_of j) \<subseteq> set (owner_of j)" for j :: "'a job" by (cases j) auto
  then show "k \<in> set (callers (jobs w)) \<Longrightarrow> k \<in> set (owned w)" by (auto simp: callers_def owned_def)
qed

text \<open>
  The invariant. Every context is owned once: by an entry of the table, by one job, or by
  the pool. A call that has not called back has the right to do so in one place: its entry
  or one job.
\<close>

definition owner_inv :: "'r world \<Rightarrow> bool" where
  "owner_inv w \<longleftrightarrow> distinct (owned w) \<and> (\<forall>k \<in> set (owned w). k < nctx w) \<and>
     (\<forall>q k. table (cli w) q = Some (AsynCtx k) \<longrightarrow>
        k < nctx w \<and> k \<notin> set (owned w) \<and> onResponse (ctxs w k) = q)"

definition right_inv :: "'r cli_event list \<Rightarrow> 'r world \<Rightarrow> bool" where
  "right_inv tr w \<longleftrightarrow>
     distinct (called tr @ map (onResponse \<circ> ctxs w) (callers (jobs w))) \<and>
     (\<forall>q \<in> set (called tr @ map (onResponse \<circ> ctxs w) (callers (jobs w))).
        q \<in> set (began tr) \<and> table (cli w) q = None) \<and>
     (\<forall>q k. table (cli w) q = Some (AsynCtx k) \<longrightarrow> q \<in> set (began tr))"

definition seq_inv :: "'r cli_event list \<Rightarrow> 'r world \<Rightarrow> bool" where
  "seq_inv tr w \<longleftrightarrow> unat (nextSequence (cli w)) \<le> length (numbered tr) \<and>
     distinct (numbered tr) \<and> set (began tr) \<subseteq> set (numbered tr) \<and>
     (\<forall>q. q \<in> set (numbered tr) \<or> table (cli w) q \<noteq> None \<longrightarrow> unat q \<le> seq_nat (cli w))"

text \<open>The calls whose goroutine or timer will still look for their entry.\<close>

definition claims :: "'r world \<Rightarrow> (u64 \<times> nat) set" where
  "claims w = set (armed w) \<union> {(q, k). Requesting q k \<in> set (jobs w)}"

definition claim_inv :: "'r cli_event list \<Rightarrow> 'r world \<Rightarrow> bool" where
  "claim_inv tr w \<longleftrightarrow>
     (\<forall>(q, k) \<in> claims w. q \<in> set (began tr) \<and> (\<forall>e. table (cli w) q = Some e \<longrightarrow> e = AsynCtx k))"

definition cli_inv :: "'r cli_event list \<Rightarrow> 'r world \<Rightarrow> bool" where
  "cli_inv tr w \<longleftrightarrow> owner_inv w \<and> right_inv tr w \<and> claim_inv tr w \<and> seq_inv tr w"

lemma cli_inv_new: "cli_inv [] (new_world secs)"
  by (simp add: cli_inv_def owner_inv_def right_inv_def claim_inv_def claims_def seq_inv_def owned_def new_world_def NewClient_def
      table_def split: option.split)

section \<open>The invariant is kept\<close>

lemma fired_onResponse [simp]:
  "onResponse \<circ> c(k := (c k)\<lparr>fired := b\<rparr>) = onResponse \<circ> c"
  "onResponse (if x = k then (c k)\<lparr>fired := b\<rparr> else c x) = onResponse (c x)"
  by (auto simp: fun_eq_iff)

lemma timer_Stop_fields [simp]:
  "cli (snd (timer_Stop q w)) = cli w" "ctxs (snd (timer_Stop q w)) = ctxs w"
  "jobs (snd (timer_Stop q w)) = jobs w" "nctx (snd (timer_Stop q w)) = nctx w"
  "asynCtxPool (snd (timer_Stop q w)) = asynCtxPool w"
  by (simp_all add: timer_Stop_def)

lemma seq_inv_keep:
  assumes "seq_inv tr w" "numbered evs = []" "began evs = []"
    "nextSequence (cli w') = nextSequence (cli w)" "seq_nat (cli w') = seq_nat (cli w)"
    "\<And>q. table (cli w') q \<noteq> None \<Longrightarrow> table (cli w) q \<noteq> None"
  shows "seq_inv (tr @ evs) w'"
  using assms by (auto simp: seq_inv_def)

lemma claim_inv_keep:
  assumes "claim_inv tr w" "claims w' \<subseteq> claims w"
    "\<And>q e. table (cli w') q = Some e \<Longrightarrow> table (cli w) q = Some e"
  shows "claim_inv (tr @ evs) w'"
  unfolding claim_inv_def
proof clarify
  fix q k assume "(q, k) \<in> claims w'"
  with assms(2) have "(q, k) \<in> claims w" by blast
  with assms(1) have "q \<in> set (began tr)" "\<forall>e. table (cli w) q = Some e \<longrightarrow> e = AsynCtx k"
    unfolding claim_inv_def by blast+
  with assms(3) show "q \<in> set (began (tr @ evs)) \<and> (\<forall>e. table (cli w') q = Some e \<longrightarrow> e = AsynCtx k)" by auto
qed

lemma distinct_replace:
  "distinct (a @ x @ b @ p) \<Longrightarrow> distinct (y @ q) \<Longrightarrow> set (y @ q) \<subseteq> set x \<Longrightarrow> distinct (a @ b @ y @ p @ q)"
  by auto

lemma distinct_replace_front:
  "distinct (c @ a @ x @ b) \<Longrightarrow> distinct (e @ y) \<Longrightarrow> set (e @ y) \<subseteq> set x \<Longrightarrow> distinct (c @ e @ a @ b @ y)"
  by auto

text \<open>A job that is replaced by jobs with the same rights, and the table left alone.\<close>

lemma replace_job_inv:
  assumes "cli_inv tr w" "jobs w = a @ j # b"
    and "cli w' = cli w" "jobs w' = a @ b @ js" "nctx w' = nctx w" "onResponse \<circ> ctxs w' = onResponse \<circ> ctxs w"
    and "asynCtxPool w' = asynCtxPool w @ p" "distinct (concat (map owner_of js) @ p)"
      "set (concat (map owner_of js) @ p) \<subseteq> set (owner_of j)"
    and "distinct (called evs @ map (onResponse \<circ> ctxs w) (callers js))"
      "set (called evs @ map (onResponse \<circ> ctxs w) (callers js)) \<subseteq> (onResponse \<circ> ctxs w) ` set (caller_of j)"
    and "numbered evs = []" "began evs = []" "claims w' \<subseteq> claims w"
  shows "cli_inv (tr @ evs) w'"
proof -
  let ?o = "\<lambda>js. concat (map owner_of js)" and ?f = "onResponse \<circ> ctxs w"
  have inv: "owner_inv w" "right_inv tr w" "claim_inv tr w" "seq_inv tr w" using assms(1) by (simp_all add: cli_inv_def)
  have resp: "onResponse (ctxs w' x) = onResponse (ctxs w x)" for x using assms(6) by (simp add: fun_eq_iff)
  have own: "owned w = ?o a @ owner_of j @ ?o b @ asynCtxPool w"
    "owned w' = ?o a @ ?o b @ ?o js @ asynCtxPool w @ p"
    using assms(2,4,7) by (simp_all add: owned_def)
  have sub: "set (owned w') \<subseteq> set (owned w)" using own assms(9) by auto
  have "distinct (owned w')"
    using distinct_replace [of "?o a" "owner_of j" "?o b" "asynCtxPool w" "?o js" p] inv(1) own assms(8,9)
    by (simp add: owner_inv_def)
  then have "owner_inv w'"
    using inv(1) sub assms(3,5) resp unfolding owner_inv_def by (metis subsetD)
  moreover have "right_inv (tr @ evs) w'"
  proof -
    let ?R = "called tr @ map ?f (callers (jobs w))"
    let ?R' = "called (tr @ evs) @ map (onResponse \<circ> ctxs w') (callers (jobs w'))"
    have r: "?R = called tr @ map ?f (callers a) @ map ?f (caller_of j) @ map ?f (callers b)"
      "?R' = called tr @ called evs @ map ?f (callers a) @ map ?f (callers b) @ map ?f (callers js)"
      using assms(2,4,6) by simp_all
    have "distinct ?R'" unfolding r(2)
      by (rule distinct_replace_front [of _ _ "map ?f (caller_of j)"])
         (use inv(2) r assms(10,11) in \<open>auto simp: right_inv_def\<close>)
    moreover have "set ?R' \<subseteq> set ?R" unfolding r using assms(11) by auto
    ultimately show ?thesis
      using inv(2) assms(3,13) unfolding right_inv_def by (auto simp del: map_map)
  qed
  moreover have "seq_inv (tr @ evs) w'"
    by (rule seq_inv_keep [OF inv(4)]) (use assms(3,12,13) in simp_all)
  moreover have "claim_inv (tr @ evs) w'"
    by (rule claim_inv_keep [OF inv(3) assms(14)]) (simp add: assms(3))
  ultimately show ?thesis by (simp add: cli_inv_def)
qed

lemma job_steps_inv:
  assumes inv: "cli_inv tr w"
  shows "jobs w = a @ Requesting q k # b \<Longrightarrow> cli_inv tr (w\<lparr>jobs := a @ b\<rparr>)"
    "jobs w = a @ Failing q k st # b \<Longrightarrow> cli_inv tr (failing k st (w\<lparr>jobs := a @ b\<rparr>))"
    "jobs w = a @ TimedOut k # b \<Longrightarrow> onTimeout k (w\<lparr>jobs := a @ b\<rparr>) = (evs, w') \<Longrightarrow> cli_inv (tr @ evs) w'"
    "jobs w = a @ Responding k resp # b \<Longrightarrow> cli_inv tr (responding k resp (w\<lparr>jobs := a @ b\<rparr>))"
    "jobs w = a @ Calling k resp ok # b \<Longrightarrow> calling k resp ok (w\<lparr>jobs := a @ b\<rparr>) = (evs, w') \<Longrightarrow>
       cli_inv (tr @ evs) w'"
    "jobs w = a @ Putting k # b \<Longrightarrow> cli_inv tr (w\<lparr>jobs := a @ b, asynCtxPool := asynCtxPool w @ [k]\<rparr>)"
proof -
  note keep = replace_job_inv [OF inv]
  show "jobs w = a @ Requesting q k # b \<Longrightarrow> cli_inv tr (w\<lparr>jobs := a @ b\<rparr>)"
    by (rule keep [where js = "[]" and p = "[]" and evs = "[]", simplified]) (auto simp: claims_def)
  show "jobs w = a @ Failing q k st # b \<Longrightarrow> cli_inv tr (failing k st (w\<lparr>jobs := a @ b\<rparr>))"
    by (rule keep [where js = "[]" and p = "if \<not> fired (ctxs w k) \<and> st then [k] else []" and evs = "[]", simplified])
       (auto simp: claims_def failing_def fire_def)
  show "jobs w = a @ TimedOut k # b \<Longrightarrow> onTimeout k (w\<lparr>jobs := a @ b\<rparr>) = (evs, w') \<Longrightarrow> cli_inv (tr @ evs) w'"
    by (rule keep [where js = "if fired (ctxs w k) then [] else [Putting k]" and p = "[]"])
       (auto simp: claims_def onTimeout_def callOnResponse_def fire_def split: if_splits)
  show "jobs w = a @ Responding k resp # b \<Longrightarrow> cli_inv tr (responding k resp (w\<lparr>jobs := a @ b\<rparr>))"
    by (rule keep [where js = "[Calling k resp (timer (ctxs w k) \<in> fst ` set (armed w))]" and p = "[]" and evs = "[]", simplified])
       (auto simp: claims_def responding_def timer_Stop_def)
  show "jobs w = a @ Calling k resp ok # b \<Longrightarrow> calling k resp ok (w\<lparr>jobs := a @ b\<rparr>) = (evs, w') \<Longrightarrow>
      cli_inv (tr @ evs) w'"
    by (rule keep [where js = "if ok then [Putting k] else []" and p = "[]"])
       (auto simp: claims_def calling_def callOnResponse_def fire_def split: if_splits)
  show "jobs w = a @ Putting k # b \<Longrightarrow> cli_inv tr (w\<lparr>jobs := a @ b, asynCtxPool := asynCtxPool w @ [k]\<rparr>)"
    by (rule keep [where js = "[]" and p = "[k]" and evs = "[]", simplified]) (auto simp: claims_def)
qed

text \<open>
  An entry is taken out of the table. Either its right ends with it, or the context and the
  right go to a new job.
\<close>

lemma take_entry_quiet:
  assumes inv: "cli_inv tr w" and ld: "LoadAndDelete q (cli w) = Some (e, c)"
    and w': "cli w' = c" "jobs w' = jobs w @ js" "nctx w' = nctx w" "ctxs w' = ctxs w"
      "asynCtxPool w' = asynCtxPool w" "claims w' \<subseteq> claims w"
    and js: "concat (map owner_of js) = []" "callers js = []"
    and evs: "called evs = []" "numbered evs = []" "began evs = []"
  shows "cli_inv (tr @ evs) w'"
proof -
  have inv': "owner_inv w" "right_inv tr w" "claim_inv tr w" "seq_inv tr w"
    using inv by (simp_all add: cli_inv_def)
  have t: "table c = (table (cli w))(q := None)" "nextSequence c = nextSequence (cli w)"
    "seq_nat c = seq_nat (cli w)"
    using LoadAndDelete_table [OF ld] by simp_all
  have "owned w' = owned w" using w' js(1) by (simp add: owned_def)
  with inv'(1) w' t have "owner_inv w'" by (simp add: owner_inv_def)
  moreover have "right_inv (tr @ evs) w'" using inv'(2) w' t js evs by (simp add: right_inv_def)
  moreover have "claim_inv (tr @ evs) w'"
    by (rule claim_inv_keep [OF inv'(3) w'(6)]) (use t w' in \<open>auto split: if_splits\<close>)
  moreover have "seq_inv (tr @ evs) w'"
    by (rule seq_inv_keep [OF inv'(4)]) (use t w' evs in \<open>auto split: if_splits\<close>)
  ultimately show ?thesis by (simp add: cli_inv_def)
qed

lemma take_entry_move:
  assumes inv: "cli_inv tr w" and ld: "LoadAndDelete q (cli w) = Some (Some (AsynCtx k), c)"
    and w': "cli w' = c" "jobs w' = jobs w @ [j]" "nctx w' = nctx w" "ctxs w' = ctxs w"
      "asynCtxPool w' = asynCtxPool w" "claims w' \<subseteq> claims w"
    and j: "owner_of j = [k]" "caller_of j = [] \<or> caller_of j = [k]"
    and evs: "called evs = []" "numbered evs = []" "began evs = []"
  shows "cli_inv (tr @ evs) w'"
proof -
  have inv': "owner_inv w" "right_inv tr w" "claim_inv tr w" "seq_inv tr w"
    using inv by (simp_all add: cli_inv_def)
  have t: "table (cli w) q = Some (AsynCtx k)" "table c = (table (cli w))(q := None)"
    "nextSequence c = nextSequence (cli w)" "seq_nat c = seq_nat (cli w)"
    using LoadAndDelete_table [OF ld] by simp_all
  have k: "k < nctx w" "k \<notin> set (owned w)" "onResponse (ctxs w k) = q"
    using inv'(1) t(1) by (auto simp: owner_inv_def)
  have other: "k' \<noteq> k" if "table (cli w) q' = Some (AsynCtx k')" "q' \<noteq> q" for q' k'
    using inv'(1) that k by (auto simp: owner_inv_def)
  have own: "set (owned w') = insert k (set (owned w))" "distinct (owned w) \<Longrightarrow> distinct (owned w')"
    using w' j(1) k(2) by (auto simp: owned_def)
  have "owner_inv w'"
    unfolding owner_inv_def
  proof (intro conjI allI impI ballI)
    show "distinct (owned w')" using own(2) inv'(1) by (simp add: owner_inv_def)
    show "x < nctx w'" if "x \<in> set (owned w')" for x
      using that own(1) k(1) inv'(1) w'(3) by (auto simp: owner_inv_def)
    fix q' k' assume "table (cli w') q' = Some (AsynCtx k')"
    then have q': "table (cli w) q' = Some (AsynCtx k')" "q' \<noteq> q" using t w' by (auto split: if_splits)
    with inv'(1) w' other [OF q'] own show "k' < nctx w'" "k' \<notin> set (owned w')" "onResponse (ctxs w' k') = q'"
      by (auto simp: owner_inv_def)
  qed
  moreover have "right_inv (tr @ evs) w'"
  proof -
    let ?R = "called tr @ map (onResponse \<circ> ctxs w) (callers (jobs w))"
    have R: "distinct ?R" "\<And>x. x \<in> set ?R \<Longrightarrow> x \<in> set (began tr) \<and> table (cli w) x = None"
      "q \<notin> set ?R" "q \<in> set (began tr)"
      using inv'(2) t(1) unfolding right_inv_def by fastforce+
    have R': "called (tr @ evs) @ map (onResponse \<circ> ctxs w') (callers (jobs w')) =
        ?R @ (if caller_of j = [] then [] else [q])"
      using w' evs j(2) k(3) by auto
    have "distinct (?R @ (if caller_of j = [] then [] else [q]))" using R(1,3) by simp
    moreover have "x \<in> set (began tr) \<and> table c x = None"
      if "x \<in> set (?R @ (if caller_of j = [] then [] else [q]))" for x
      using that R(2) [of x] R(4) t(2) by (auto split: if_splits)
    moreover have "q' \<in> set (began tr)" if "table c q' = Some (AsynCtx k')" for q' k'
      using that inv'(2) t(2) by (auto simp: right_inv_def split: if_splits)
    ultimately show ?thesis unfolding right_inv_def R' using w'(1) evs(3) by simp
  qed
  moreover have "claim_inv (tr @ evs) w'"
    by (rule claim_inv_keep [OF inv'(3) w'(6)]) (use t w' in \<open>auto split: if_splits\<close>)
  moreover have "seq_inv (tr @ evs) w'"
    by (rule seq_inv_keep [OF inv'(4)]) (use t w' evs in \<open>auto split: if_splits\<close>)
  ultimately show ?thesis by (simp add: cli_inv_def)
qed

text \<open>A new number is unused, as long as fewer than \<open>2 ^ 32 - 1\<close> calls have been made.\<close>

lemma new_seq:
  assumes inv: "seq_inv tr w" and few: "length (numbered tr) < 2 ^ 32 - 1"
    and ms: "makeSequence secs (cli w) = (q, c)"
  shows "q \<notin> set (numbered tr)" "table (cli w) q = None" "table c = table (cli w)"
    and "nextSequence (cli w') = nextSequence c \<Longrightarrow> seq_nat (cli w') = seq_nat c \<Longrightarrow>
      (\<And>x. table (cli w') x \<noteq> None \<Longrightarrow> x = q \<or> table c x \<noteq> None) \<Longrightarrow> e = Began q \<or> e = Posted q \<Longrightarrow>
      seq_inv (tr @ [e]) w'"
proof -
  have "unat (nextSequence (cli w)) < 2 ^ 32 - 1" using inv few by (simp add: seq_inv_def)
  note g = makeSequence_grows [OF ms this]
  have "unat x \<noteq> unat q" if "x \<in> set (numbered tr) \<or> table (cli w) x \<noteq> None" for x
    using inv that g(1,2) by (fastforce simp: seq_inv_def)
  then show q: "q \<notin> set (numbered tr)" "table (cli w) q = None" by blast+
  show t: "table c = table (cli w)" using makeSequence_table [of secs "cli w"] ms by simp
  show "seq_inv (tr @ [e]) w'"
    if "nextSequence (cli w') = nextSequence c" "seq_nat (cli w') = seq_nat c"
      "\<And>x. table (cli w') x \<noteq> None \<Longrightarrow> x = q \<or> table c x \<noteq> None" "e = Began q \<or> e = Posted q"
  proof -
    have num: "numbered (tr @ [e]) = numbered tr @ [q]" "set (began (tr @ [e])) \<subseteq> insert q (set (began tr))"
      using that(4) by auto
    have bound: "unat x \<le> seq_nat c" if "x = q \<or> x \<in> set (numbered tr) \<or> table c x \<noteq> None" for x
      using that inv g(1,2) t by (fastforce simp: seq_inv_def)
    have "unat x \<le> seq_nat (cli w')" if "x \<in> set (numbered (tr @ [e])) \<or> table (cli w') x \<noteq> None" for x
      using that bound [of x] that num \<open>seq_nat (cli w') = seq_nat c\<close>
        \<open>\<And>x. table (cli w') x \<noteq> None \<Longrightarrow> x = q \<or> table c x \<noteq> None\<close> [of x] by auto
    moreover have "unat (nextSequence c) \<le> Suc (length (numbered tr))"
      using inv g(3) by (simp add: seq_inv_def)
    ultimately show ?thesis using num that(1) inv q(1) by (auto simp: seq_inv_def)
  qed
qed

lemma posted_inv:
  assumes inv: "cli_inv tr w" and few: "length (numbered tr) < 2 ^ 32 - 1"
    and ms: "makeSequence secs (cli w) = (q, c)" and c': "c' = c \<or> Store q (SyncCtx v) c = Some c'"
  shows "cli_inv (tr @ [Posted q]) (w\<lparr>cli := c'\<rparr>)"
proof -
  have inv': "owner_inv w" "right_inv tr w" "claim_inv tr w" "seq_inv tr w"
    using inv by (simp_all add: cli_inv_def)
  note new = new_seq [OF inv'(4) few ms]
  have q: "q \<notin> set (began tr)" using new(1) inv'(4) by (auto simp: seq_inv_def)
  have t: "table c' = table (cli w) \<or> table c' = (table (cli w))(q \<mapsto> SyncCtx v)"
    "nextSequence c' = nextSequence c" "seq_nat c' = seq_nat c"
    using c' new(3) Store_table [of q "SyncCtx v" c c'] by auto
  have "owner_inv (w\<lparr>cli := c'\<rparr>)"
    using inv'(1) t(1) by (auto simp: owner_inv_def owned_def split: if_splits)
  moreover have "right_inv (tr @ [Posted q]) (w\<lparr>cli := c'\<rparr>)"
    using inv'(2) t(1) q by (auto simp: right_inv_def split: if_splits)
  moreover have "claim_inv (tr @ [Posted q]) (w\<lparr>cli := c'\<rparr>)"
    using inv'(3) t(1) q by (fastforce simp: claim_inv_def claims_def split: if_splits)
  moreover have "seq_inv (tr @ [Posted q]) (w\<lparr>cli := c'\<rparr>)"
    by (rule new(4)) (use t new(3) in \<open>auto split: if_splits\<close>)
  ultimately show ?thesis by (simp add: cli_inv_def)
qed

lemma get_ctx_inv:
  assumes "cli_inv tr w" "get_ctx k w = Some w1"
  shows "cli_inv tr w1 \<and> k \<notin> set (owned w1) \<and> k < nctx w1 \<and> cli w1 = cli w \<and>
    (\<forall>q. table (cli w1) q \<noteq> Some (AsynCtx k))"
proof -
  have inv: "owner_inv w" "right_inv tr w" "claim_inv tr w" "seq_inv tr w"
    using assms(1) by (simp_all add: cli_inv_def)
  show ?thesis
  proof (cases "k \<in> set (asynCtxPool w)")
    case True
    then have w1: "w1 = w\<lparr>asynCtxPool := remove1 k (asynCtxPool w)\<rparr>" using assms(2) by (simp add: get_ctx_def)
    have k: "k \<in> set (owned w)" using True by (simp add: owned_def)
    have own: "set (owned w1) = set (owned w) - {k} \<and> distinct (owned w1)"
      using inv(1) w1 True by (auto simp: owner_inv_def owned_def)
    have "owner_inv w1" using inv(1) own w1 unfolding owner_inv_def by auto
    with inv w1 have "cli_inv tr w1"
      by (simp add: cli_inv_def right_inv_def claim_inv_def claims_def seq_inv_def)
    with own k inv(1) w1 show ?thesis by (auto simp: owner_inv_def)
  next
    case False
    then have w1: "w1 = w\<lparr>nctx := Suc k\<rparr>" "k = nctx w" using assms(2) by (auto simp: get_ctx_def split: if_splits)
    have own: "owned w1 = owned w" using w1 by (simp add: owned_def)
    have "owner_inv w1" using inv(1) own w1 by (fastforce simp: owner_inv_def)
    with inv w1 have "cli_inv tr w1"
      by (simp add: cli_inv_def right_inv_def claim_inv_def claims_def seq_inv_def)
    with own w1 inv(1) show ?thesis by (fastforce simp: owner_inv_def)
  qed
qed

lemma AsyncCall_inv:
  assumes inv: "cli_inv tr w" and few: "length (numbered tr) < 2 ^ 32 - 1"
    and k: "k \<notin> set (owned w)" "k < nctx w" "\<And>q. table (cli w) q \<noteq> Some (AsynCtx k)"
    and res: "AsyncCall secs k w = Some (evs, w')"
  shows "cli_inv (tr @ evs) w'"
proof -
  have inv': "owner_inv w" "right_inv tr w" "claim_inv tr w" "seq_inv tr w"
    using inv by (simp_all add: cli_inv_def)
  obtain q c c' where ms: "makeSequence secs (cli w) = (q, c)" and st: "Store q (AsynCtx k) c = Some c'"
    and w': "evs = [Began q]" "cli w' = c'" "ctxs w' = (ctxs w)(k := \<lparr>onResponse = q, timer = q, fired = False\<rparr>)"
      "armed w' = armed w @ [(q, k)]" "jobs w' = jobs w @ [Requesting q k]" "nctx w' = nctx w"
      "asynCtxPool w' = asynCtxPool w"
    using res by (auto simp: AsyncCall_def split: prod.splits option.splits)
  note new = new_seq [OF inv'(4) few ms]
  have q: "q \<notin> set (began tr)" using new(1) inv'(4) by (auto simp: seq_inv_def)
  have t: "table c' = (table (cli w))(q \<mapsto> AsynCtx k)" "nextSequence c' = nextSequence c" "seq_nat c' = seq_nat c"
    using new(3) Store_table [OF st] by simp_all
  have own: "owned w' = owned w" using w' by (simp add: owned_def)
  have kc: "k \<notin> set (callers (jobs w))" using k(1) callers_owned by blast
  then have resp: "map (onResponse \<circ> ctxs w') (callers (jobs w')) = map (onResponse \<circ> ctxs w) (callers (jobs w))"
    using w' by auto
  have "owner_inv w'"
    using inv'(1) w' own t k unfolding owner_inv_def by (auto split: if_splits)
  moreover have "right_inv (tr @ evs) w'"
  proof -
    have "q \<notin> set (called tr @ map (onResponse \<circ> ctxs w) (callers (jobs w)))"
      using inv'(2) q unfolding right_inv_def by blast
    with inv'(2) show ?thesis
      unfolding right_inv_def resp w'(2) t(1) by (auto simp: w'(1) split: if_splits)
  qed
  moreover have "claim_inv (tr @ evs) w'"
  proof -
    have "claims w' = insert (q, k) (claims w)" using w' by (auto simp: claims_def)
    moreover have "x \<noteq> q" if "(x, y) \<in> claims w" for x y
      using inv'(3) q that unfolding claim_inv_def by blast
    ultimately show ?thesis using inv'(3) w'(1,2) t(1) unfolding claim_inv_def by fastforce
  qed
  moreover have "seq_inv (tr @ evs) w'"
    unfolding w'(1) by (rule new(4)) (use t new(3) w'(2) in \<open>auto split: if_splits\<close>)
  ultimately show ?thesis by (simp add: cli_inv_def)
qed

lemma claim_entry:
  assumes "cli_inv tr w" "(q, k) \<in> claims w" "LoadAndDelete q (cli w) = Some (e, c)"
  shows "e = None \<or> e = Some (AsynCtx k)"
proof -
  have "\<forall>x. table (cli w) q = Some x \<longrightarrow> x = AsynCtx k"
    using assms(1,2) unfolding cli_inv_def claim_inv_def by blast
  with LoadAndDelete_table [OF assms(3)] show ?thesis by (cases "table (cli w) q") auto
qed

lemma request_failed_inv:
  assumes inv: "cli_inv tr w" and job: "jobs w = a @ Requesting q k # b"
    and res: "request_failed q k (w\<lparr>jobs := a @ b\<rparr>) = Some (evs, w')"
  shows "cli_inv (tr @ evs) w'"
proof -
  obtain e c where ld: "LoadAndDelete q (cli w) = Some (e, c)"
    using res by (auto simp: request_failed_def split: option.splits)
  have e: "e = None \<or> e = Some (AsynCtx k)"
    by (rule claim_entry [OF inv _ ld]) (simp add: claims_def job)
  have inv0: "cli_inv tr (w\<lparr>jobs := a @ b\<rparr>)" by (rule job_steps_inv(1) [OF inv job])
  define st where "st = (e \<noteq> None \<and> timer (ctxs w k) \<in> fst ` set (armed w))"
  have w': "cli w' = c" "jobs w' = (a @ b) @ [Failing q k st]" "nctx w' = nctx w" "ctxs w' = ctxs w"
    "asynCtxPool w' = asynCtxPool w" "set (armed w') \<subseteq> set (armed w)" "evs = [Failed q]"
    using res ld by (auto simp: request_failed_def timer_Stop_def st_def Let_def split: if_splits)
  have cl: "claims w' \<subseteq> claims (w\<lparr>jobs := a @ b\<rparr>)" using w' by (auto simp: claims_def)
  show ?thesis
  proof (cases st)
    case True
    with e have "e = Some (AsynCtx k)" by (auto simp: st_def)
    with ld have "LoadAndDelete q (cli (w\<lparr>jobs := a @ b\<rparr>)) = Some (Some (AsynCtx k), c)" by simp
    from take_entry_move [OF inv0 this, where w' = w' and j = "Failing q k True"] True w' cl show ?thesis by simp
  next
    case False
    from ld have "LoadAndDelete q (cli (w\<lparr>jobs := a @ b\<rparr>)) = Some (e, c)" by simp
    from take_entry_quiet [OF inv0 this, where w' = w' and js = "[Failing q k False]"] False w' cl show ?thesis by simp
  qed
qed

lemma timer_fires_inv:
  assumes inv: "cli_inv tr w" and arm: "(q, k) \<in> set (armed w)" and res: "timer_fires q k w = Some w'"
  shows "cli_inv tr w'"
proof -
  obtain e c where ld: "LoadAndDelete q (cli w) = Some (e, c)"
    using res by (auto simp: timer_fires_def split: option.splits)
  have "e = None \<or> e = Some (AsynCtx k)"
    by (rule claim_entry [OF inv _ ld]) (simp add: claims_def arm)
  then show ?thesis
  proof
    assume e: "e = None"
    show ?thesis
      by (rule take_entry_quiet [OF inv ld, where js = "[]" and evs = "[]", simplified])
         (use res ld e in \<open>auto simp: timer_fires_def Let_def claims_def\<close>)
  next
    assume e: "e = Some (AsynCtx k)"
    show ?thesis
      by (rule take_entry_move [OF inv ld [unfolded e], where j = "TimedOut k" and evs = "[]", simplified])
         (use res ld e in \<open>auto simp: timer_fires_def Let_def claims_def\<close>)
  qed
qed

lemma OnMessage_inv:
  assumes inv: "cli_inv tr w" and res: "OnMessage q resp w = Some (evs, w')"
  shows "cli_inv (tr @ evs) w'"
proof -
  obtain e c where ld: "LoadAndDelete q (cli w) = Some (e, c)"
    using res by (auto simp: OnMessage_def split: option.splits)
  show ?thesis
  proof (cases "\<exists>k. e = Some (AsynCtx k)")
    case True
    then obtain k where e: "e = Some (AsynCtx k)" by blast
    show ?thesis
      by (rule take_entry_move [OF inv ld [unfolded e], where j = "Responding k resp"])
         (use res ld e in \<open>auto simp: OnMessage_def claims_def Let_def\<close>)
  next
    case False
    show ?thesis
      by (rule take_entry_quiet [OF inv ld, where js = "[]"])
         (use res ld False in \<open>auto simp: OnMessage_def claims_def Let_def split: option.splits entry.splits\<close>)
  qed
qed

lemma cli_inv_step:
  assumes step: "cli_step w evs w'" and inv: "cli_inv tr w" and few: "length (numbered tr) < 2 ^ 32 - 1"
  shows "cli_inv (tr @ evs) w'"
  using step
proof cases
  case (oneway secs q c)
  with posted_inv [OF inv few] show ?thesis by blast
next
  case (sync secs q c v c')
  with posted_inv [OF inv few] show ?thesis by blast
next
  case (sync_end q v e c)
  with take_entry_quiet [OF inv, where js = "[]" and evs = "[]"] show ?thesis by (simp add: claims_def)
next
  case (async k w1 secs)
  with get_ctx_inv [OF inv] AsyncCall_inv [of tr w1 k secs evs w'] few show ?thesis by blast
next
  case (refused a q k b)
  with request_failed_inv [OF inv] show ?thesis by blast
next
  case (timer q k)
  with timer_fires_inv [OF inv] show ?thesis by simp
next
  case (message q resp)
  with OnMessage_inv [OF inv] show ?thesis by blast
qed (use job_steps_inv [OF inv] in auto)

lemma cli_inv_run: "cli_run secs tr w \<Longrightarrow> length (numbered tr) < 2 ^ 32 - 1 \<Longrightarrow> cli_inv tr w"
proof (induction rule: cli_run.induct)
  case start
  show ?case by (rule cli_inv_new)
next
  case (step tr w evs w')
  then have "length (numbered tr) < 2 ^ 32 - 1" by simp
  with step show ?case using cli_inv_step by blast
qed

section \<open>No callback is lost\<close>

text \<open>
  While no request is refused, a call that has not called back has its right with a context
  that has not fired, and an entry of the table has its timer.
\<close>

definition waiting :: "'r world \<Rightarrow> u64 \<Rightarrow> bool" where
  "waiting w q \<longleftrightarrow> q \<in> (onResponse \<circ> ctxs w) ` set (callers (jobs w)) \<or> (\<exists>k. table (cli w) q = Some (AsynCtx k))"

definition live_inv :: "'r cli_event list \<Rightarrow> 'r world \<Rightarrow> bool" where
  "live_inv tr w \<longleftrightarrow>
     (\<forall>q k st. Failing q k st \<notin> set (jobs w)) \<and> (\<forall>k. timer (ctxs w k) = onResponse (ctxs w k)) \<and>
     (\<forall>q k. table (cli w) q = Some (AsynCtx k) \<longrightarrow> (q, k) \<in> set (armed w) \<and> \<not> fired (ctxs w k)) \<and>
     (\<forall>k \<in> set (callers (jobs w)). \<not> fired (ctxs w k)) \<and>
     (\<forall>q \<in> set (began tr). q \<in> set (called tr) \<or> waiting w q)"

lemma distinct_callers: "owner_inv w \<Longrightarrow> distinct (callers (jobs w))"
proof -
  have "distinct (concat (map owner_of js)) \<Longrightarrow> distinct (callers js) \<and> set (callers js) \<subseteq> set (concat (map owner_of js))"
    for js :: "'a job list"
  proof (induction js)
    case (Cons j js)
    then show ?case by (cases j) auto
  qed simp
  then show "owner_inv w \<Longrightarrow> distinct (callers (jobs w))" by (auto simp: owner_inv_def owned_def)
qed

lemma live_fire:
  assumes inv: "cli_inv tr w" and live: "live_inv tr w" and job: "jobs w = a @ j # b" "caller_of j = [k]"
    and w': "cli w' = cli w" "ctxs w' = (ctxs w)(k := (ctxs w k)\<lparr>fired := True\<rparr>)" "armed w' = armed w"
      "jobs w' = a @ b @ js" "set js \<subseteq> {Putting k}"
    and evs: "called evs = [onResponse (ctxs w k)]" "began evs = []"
  shows "live_inv (tr @ evs) w'"
proof -
  have k: "k \<in> set (callers (jobs w))" "k \<notin> set (callers a)" "k \<notin> set (callers b)"
    using distinct_callers [of w] inv job by (auto simp: cli_inv_def)
  have js: "callers js = []" using w'(5) by (induction js) auto
  have tk: "table (cli w) q \<noteq> Some (AsynCtx k)" for q
    using inv callers_owned [OF k(1)] by (auto simp: cli_inv_def owner_inv_def)
  have "\<not> fired (ctxs w' x)" if "x \<in> set (callers (jobs w'))" for x
    using that live job w' js k(2,3) unfolding live_inv_def by auto
  moreover have "q \<in> set (called (tr @ evs)) \<or> waiting w' q" if "q \<in> set (began tr)" for q
  proof -
    have "q \<in> set (called tr) \<or> waiting w q" using that live by (simp add: live_inv_def)
    moreover have "waiting w q \<Longrightarrow> q = onResponse (ctxs w k) \<or> waiting w' q"
      using job w' by (auto simp: waiting_def)
    ultimately show ?thesis using evs(1) by auto
  qed
  moreover have "(q, x) \<in> set (armed w') \<and> \<not> fired (ctxs w' x)" if "table (cli w') q = Some (AsynCtx x)" for q x
    using that live w' tk [of q] by (auto simp: live_inv_def)
  ultimately show ?thesis using live job w' evs(2) by (auto simp: live_inv_def)
qed

lemma live_take:
  assumes live: "live_inv tr w" and ld: "LoadAndDelete q (cli w) = Some (e, c)"
    and w': "cli w' = c" "ctxs w' = ctxs w" "set (armed w) - {q} \<times> UNIV \<subseteq> set (armed w')" "jobs w' = jobs w @ js"
    and js: "(\<exists>k. e = Some (AsynCtx k) \<and> js \<noteq> [] \<and> callers js = [k]) \<or> (\<nexists>k. e = Some (AsynCtx k)) \<and> js = []"
      "\<And>q k st. Failing q k st \<notin> set js"
    and evs: "began evs = []"
    and own: "owner_inv w"
  shows "live_inv (tr @ evs) w'"
proof -
  have t: "e = table (cli w) q" "table c = (table (cli w))(q := None)"
    using LoadAndDelete_table [OF ld] by simp_all
  have "\<not> fired (ctxs w' x)" if "x \<in> set (callers (jobs w'))" for x
    using that live w' js(1) t(1) unfolding live_inv_def by auto
  moreover have "x \<in> set (called (tr @ evs)) \<or> waiting w' x" if "x \<in> set (began tr)" for x
  proof -
    have "onResponse (ctxs w k) = q" if "e = Some (AsynCtx k)" for k
      using own that t(1) by (simp add: owner_inv_def)
    then have "waiting w x \<Longrightarrow> waiting w' x"
      using js(1) w' t by (cases "x = q") (auto simp: waiting_def)
    with that live show ?thesis by (auto simp: live_inv_def)
  qed
  moreover have "(x, k) \<in> set (armed w') \<and> \<not> fired (ctxs w' k)" if "table (cli w') x = Some (AsynCtx k)" for x k
  proof -
    have "table (cli w) x = Some (AsynCtx k)" "x \<noteq> q" using that w'(1) t(2) by (auto split: if_splits)
    with live w'(2,3) show ?thesis by (auto simp: live_inv_def)
  qed
  ultimately show ?thesis using live w' js(2) evs by (auto simp: live_inv_def)
qed

lemma live_posted:
  assumes inv: "cli_inv tr w" and few: "length (numbered tr) < 2 ^ 32 - 1" and live: "live_inv tr w"
    and ms: "makeSequence secs (cli w) = (q, c)" and c': "c' = c \<or> Store q (SyncCtx v) c = Some c'"
  shows "live_inv (tr @ [Posted q]) (w\<lparr>cli := c'\<rparr>)"
proof -
  have "seq_inv tr w" using inv by (simp add: cli_inv_def)
  note new = new_seq [OF this few ms]
  have "table c' x = Some (AsynCtx k) \<longleftrightarrow> table (cli w) x = Some (AsynCtx k)" for x k
    using c' new(2,3) Store_table [of q "SyncCtx v" c c'] by (auto split: if_splits)
  with live show ?thesis by (simp add: live_inv_def waiting_def)
qed

lemma live_async:
  assumes inv: "cli_inv tr w" and few: "length (numbered tr) < 2 ^ 32 - 1" and live: "live_inv tr w"
    and get: "get_ctx k w = Some w1" and res: "AsyncCall secs k w1 = Some (evs, w')"
  shows "live_inv (tr @ evs) w'"
proof -
  have k: "k \<notin> set (owned w1)" "cli w1 = cli w" "\<And>q. table (cli w1) q \<noteq> Some (AsynCtx k)"
    using get_ctx_inv [OF inv get] by blast+
  have w1: "ctxs w1 = ctxs w" "jobs w1 = jobs w" "armed w1 = armed w"
    using get by (auto simp: get_ctx_def split: if_splits)
  obtain q c c' where ms: "makeSequence secs (cli w) = (q, c)" and st: "Store q (AsynCtx k) c = Some c'"
    and w': "evs = [Began q]" "cli w' = c'" "ctxs w' = (ctxs w)(k := \<lparr>onResponse = q, timer = q, fired = False\<rparr>)"
      "armed w' = armed w @ [(q, k)]" "jobs w' = jobs w @ [Requesting q k]"
    using res k(2) w1 by (auto simp: AsyncCall_def split: prod.splits option.splits)
  have "seq_inv tr w" using inv by (simp add: cli_inv_def)
  note new = new_seq [OF this few ms]
  have t: "table c' = (table (cli w))(q \<mapsto> AsynCtx k)" using new(3) Store_table [OF st] by simp
  have kc: "k \<notin> set (callers (jobs w))" using k(1) w1 callers_owned [of k w1] by auto
  then have resp: "(onResponse \<circ> ctxs w') ` set (callers (jobs w')) = (onResponse \<circ> ctxs w) ` set (callers (jobs w))"
    using w' by (auto intro!: image_eqI)
  have "waiting w x \<Longrightarrow> waiting w' x" "waiting w' q" for x
    unfolding waiting_def resp w'(2) t by auto
  moreover have "table (cli w) x \<noteq> Some (AsynCtx k)" for x using k by simp
  ultimately show ?thesis using live w' t kc unfolding live_inv_def by (auto split: if_splits)
qed

lemma live_inv_step:
  assumes step: "cli_step w evs w'" and inv: "cli_inv tr w" and few: "length (numbered tr) < 2 ^ 32 - 1"
    and live: "live_inv tr w" and ok: "failed evs = []"
  shows "live_inv (tr @ evs) w'"
  using step
proof cases
  case (oneway secs q c)
  with live_posted [OF inv few live] show ?thesis by blast
next
  case (sync secs q c v c')
  with live_posted [OF inv few live] show ?thesis by blast
next
  case (sync_end q v e c)
  show ?thesis
    by (rule live_take [OF live sync_end(4), where js = "[]"])
       (use sync_end inv LoadAndDelete_table [OF sync_end(4)] in \<open>auto simp: cli_inv_def\<close>)
next
  case (async k w1 secs)
  with live_async [OF inv few live] show ?thesis by blast
next
  case (accepted a q k b)
  with live show ?thesis by (auto simp: live_inv_def waiting_def)
next
  case (refused a q k b)
  with ok show ?thesis by (auto simp: request_failed_def Let_def split: option.splits prod.splits)
next
  case (failing a q k st b)
  then have "Failing q k st \<in> set (jobs w)" by simp
  with live show ?thesis unfolding live_inv_def by blast
next
  case (timer q k)
  obtain e c where ld: "LoadAndDelete q (cli w) = Some (e, c)"
    using timer by (auto simp: timer_fires_def split: option.splits)
  have "e = None \<or> e = Some (AsynCtx k)"
    by (rule claim_entry [OF inv _ ld]) (use timer in \<open>simp add: claims_def\<close>)
  with timer ld inv show ?thesis
    by (intro live_take [OF live ld, where js = "if e = None then [] else [TimedOut k]"])
       (auto simp: timer_fires_def Let_def cli_inv_def)
next
  case (timeout a k b)
  then have "\<not> fired (ctxs w k)" using live by (simp add: live_inv_def)
  with timeout show ?thesis
    by (intro live_fire [OF inv live timeout(1), where js = "[Putting k]"])
       (auto simp: onTimeout_def callOnResponse_def fire_def)
next
  case (message q resp)
  obtain e c where ld: "LoadAndDelete q (cli w) = Some (e, c)"
    using message by (auto simp: OnMessage_def split: option.splits)
  show ?thesis
    by (rule live_take [OF live ld, where js = "case e of Some (AsynCtx k) \<Rightarrow> [Responding k resp] | _ \<Rightarrow> []"])
       (use message ld inv in \<open>auto simp: OnMessage_def cli_inv_def Let_def split: option.splits entry.splits\<close>)
next
  case (responding a k resp b)
  define q where "q = onResponse (ctxs w k)"
  have "table (cli w) q = None" using inv responding by (auto simp: cli_inv_def right_inv_def q_def)
  moreover have "timer (ctxs w k) = q" using live by (simp add: live_inv_def q_def)
  ultimately show ?thesis using live responding
    by (auto simp: live_inv_def responding_def timer_Stop_def waiting_def)
next
  case (calling a k resp okk b)
  then have "\<not> fired (ctxs w k)" using live by (simp add: live_inv_def)
  with calling show ?thesis
    by (intro live_fire [OF inv live calling(1), where js = "if okk then [Putting k] else []"])
       (auto simp: calling_def callOnResponse_def fire_def)
next
  case (putting a k b)
  with live show ?thesis by (auto simp: live_inv_def waiting_def)
qed

lemma live_inv_run:
  "cli_run secs tr w \<Longrightarrow> length (numbered tr) < 2 ^ 32 - 1 \<Longrightarrow> failed tr = [] \<Longrightarrow> live_inv tr w"
proof (induction rule: cli_run.induct)
  case start
  show ?case by (simp add: live_inv_def new_world_def NewClient_def table_def split: option.split)
next
  case (step tr w evs w')
  then have "length (numbered tr) < 2 ^ 32 - 1" "failed tr = []" "failed evs = []" by simp_all
  with step live_inv_step cli_inv_run show ?case by blast
qed

section \<open>Two runs\<close>

text \<open>
  States of a client that was made five seconds after the start of 2023 and is used in that
  same second; \<open>T\<close> is the sharded table, \<open>f\<close> the only context.
\<close>

definition demo_client :: "u32 \<Rightarrow> (nat \<Rightarrow> u64 \<rightharpoonup> entry) \<Rightarrow> Client" where
  "demo_client n T = \<lparr>nextSequence = n, timestamp = (if n = 0 then 0 else 5), timeOffset = 5, pendingCall = T\<rparr>"

definition put :: "(nat \<Rightarrow> u64 \<rightharpoonup> entry) \<Rightarrow> nat \<Rightarrow> u64 \<Rightarrow> entry option \<Rightarrow> nat \<Rightarrow> u64 \<rightharpoonup> entry" where
  "put T i q e = T(i := (T i)(q := e))"

definition demo_world :: "Client \<Rightarrow> asynContext \<Rightarrow> nat list \<Rightarrow> nat \<Rightarrow> (u64 \<times> nat) list \<Rightarrow> 'r job list \<Rightarrow> 'r world" where
  "demo_world c f pl n ar js = \<lparr>cli = c, ctxs = (\<lambda>_. \<lparr>onResponse = 0, timer = 0, fired = False\<rparr>)(0 := f),
     asynCtxPool = pl, nctx = n, armed = ar, jobs = js\<rparr>"

abbreviation "seq1 \<equiv> 21474836481 :: u64"
abbreviation "seq2 \<equiv> 21474836482 :: u64"
abbreviation "ctx1 \<equiv> \<lambda>q b. \<lparr>onResponse = q, timer = q, fired = b\<rparr>"

lemma demo_seq:
  "makeSequence 0 (demo_client 0 T) = (seq1, demo_client 1 T)"
  "makeSequence 0 (demo_client 1 T) = (seq2, demo_client 2 T)"
  by (simp_all add: makeSequence_def demo_client_def getTimeStamp_def)

lemma demo_index: "pending_index seq1 = Some 1" "pending_index seq2 = Some 2"
  by (simp_all add: pending_index_def)

lemma demo_table:
  "Store seq1 e (demo_client n T) = Some (demo_client n (put T 1 seq1 (Some e)))"
  "Store seq2 e (demo_client n T) = Some (demo_client n (put T 2 seq2 (Some e)))"
  "LoadAndDelete seq1 (demo_client n T) = Some (T 1 seq1, demo_client n (put T 1 seq1 None))"
  "LoadAndDelete seq2 (demo_client n T) = Some (T 2 seq2, demo_client n (put T 2 seq2 None))"
  by (simp_all add: Store_def LoadAndDelete_def demo_index demo_client_def put_def)

lemma put_apply [simp]: "put T i q e j r = (if i = j \<and> q = r then e else T j r)"
  by (simp add: put_def)

lemma step_eq: "cli_step w evs w1 \<Longrightarrow> w1 = w' \<Longrightarrow> cli_step w evs w'"
  by simp

lemma demo_start: "cli_run 5 [] (demo_world (demo_client 0 (\<lambda>_. Map.empty)) (ctx1 0 False) [] 0 [] [])"
  using cli_run.start [of 5] by (simp add: new_world_def NewClient_def demo_world_def demo_client_def fun_upd_idem)

lemma demo_async1:
  "cli_step (demo_world (demo_client 0 T) f [] 0 [] []) [Began seq1]
     (demo_world (demo_client 1 (put T 1 seq1 (Some (AsynCtx 0)))) (ctx1 seq1 False) [] 1 [(seq1, 0)] [Requesting seq1 0])"
  by (rule cli_step.async [of 0 _ "demo_world (demo_client 0 T) f [] 1 [] []" 0])
     (simp_all add: get_ctx_def demo_world_def AsyncCall_def demo_seq demo_table)

text \<open>The response of the only call in flight arrives; the callback comes if the context has not fired.\<close>

lemma demo_answer:
  assumes "q = seq1 \<and> i = 1 \<or> q = seq2 \<and> i = 2" "T i q = Some (AsynCtx 0)"
    and run: "cli_run 5 tr (demo_world (demo_client n T) (ctx1 q b) [] 1 [(q, 0)] [])"
  shows "cli_run 5 (tr @ (if b then [] else [Callback q (Response r)]))
    (demo_world (demo_client n (put T i q None)) (ctx1 q True) [0] 1 [] [])"
proof -
  let ?c = "demo_client n (put T i q None)"
  have "cli_step (demo_world (demo_client n T) (ctx1 q b) [] 1 [(q, 0)] []) []
      (demo_world ?c (ctx1 q b) [] 1 [(q, 0)] [Responding 0 r])"
    by (rule cli_step.message [of q r]) (use assms(1,2) in \<open>auto simp: OnMessage_def demo_world_def demo_table\<close>)
  from cli_run.step [OF run this]
  have "cli_run 5 tr (demo_world ?c (ctx1 q b) [] 1 [(q, 0)] [Responding 0 r])" by simp
  from cli_run.step [OF this cli_step.responding [of _ "[]" 0 r "[]"]]
  have 2: "cli_run 5 tr (demo_world ?c (ctx1 q b) [] 1 [] [Calling 0 r True])"
    by (simp add: responding_def timer_Stop_def demo_world_def)
  have "cli_step (demo_world ?c (ctx1 q b) [] 1 [] [Calling 0 r True]) (if b then [] else [Callback q (Response r)])
      (demo_world ?c (ctx1 q True) [] 1 [] [Putting 0])"
    by (rule cli_step.calling [of _ "[]" 0 r True "[]"])
       (simp_all add: calling_def callOnResponse_def fire_def demo_world_def)
  from cli_run.step [OF cli_run.step [OF 2 this] cli_step.putting [of _ "[]" 0 "[]"]]
  show ?thesis by (simp add: demo_world_def)
qed

lemma demo_answered:
  "\<exists>w. cli_run 5 [Began seq1, Callback seq1 (Response r)] w \<and> jobs w = [] \<and> armed w = []"
proof -
  let ?T = "put (\<lambda>_. Map.empty) 1 seq1 (Some (AsynCtx 0))"
  from cli_run.step [OF cli_run.step [OF demo_start demo_async1] cli_step.accepted [of _ "[]" seq1 0 "[]"]]
  have "cli_run 5 [Began seq1] (demo_world (demo_client 1 ?T) (ctx1 seq1 False) [] 1 [(seq1, 0)] [])"
    by (simp add: demo_world_def)
  from demo_answer [OF _ _ this, of 1 r] show ?thesis
    by (intro exI conjI) (auto simp: demo_world_def)
qed

section \<open>Properties\<close>



text \<open>
  C7. No callback runs twice: in every interleaving of asynchronous calls, failing
  requests, timers and responses, with contexts reused from the pool, as long as fewer
  than \<open>2 ^ 32 - 1\<close> sequence numbers have been given out, all sequence numbers are
  different, every callback that runs is that of a call that was made, and no call has
  its callback run more than once.
\<close>

theorem async_callback_at_most_once:
  assumes "cli_run secs tr w" "length (numbered tr) < 2 ^ 32 - 1"
  shows "distinct (numbered tr) \<and> distinct (called tr) \<and> set (called tr) \<subseteq> set (began tr)"
  using cli_inv_run [OF assms] by (auto simp: cli_inv_def right_inv_def seq_inv_def)

theorem async_callback_at_most_once_witness:
  "\<exists>w. cli_run 5 [Began seq1, Callback seq1 (Response (3 :: nat))] w \<and>
     distinct (called [Began seq1, Callback seq1 (Response (3 :: nat))])"
proof -
  from demo_answered obtain w where w: "cli_run 5 [Began seq1, Callback seq1 (Response (3 :: nat))] w" by fast
  have "length (numbered [Began seq1, Callback seq1 (Response (3 :: nat))]) < 2 ^ 32 - 1" by simp
  from async_callback_at_most_once [OF w this] w show ?thesis by fast
qed

text \<open>
  C22. No callback is lost when no request is refused: once all timers have fired or been
  stopped and no operation is under way, every asynchronous call has had its callback.
\<close>

theorem async_callback_comes:
  assumes "cli_run secs tr w" "length (numbered tr) < 2 ^ 32 - 1" "failed tr = []"
    and "jobs w = []" "armed w = []"
  shows "set (called tr) = set (began tr)"
proof -
  have "live_inv tr w" by (rule live_inv_run [OF assms(1-3)])
  with assms(4,5) have "\<forall>q \<in> set (began tr). q \<in> set (called tr)"
    by (fastforce simp: live_inv_def waiting_def)
  with cli_inv_run [OF assms(1,2)] show ?thesis by (auto simp: cli_inv_def right_inv_def)
qed

theorem async_callback_comes_witness:
  "\<exists>w. cli_run 5 [Began seq1, Callback seq1 (Response (3 :: nat))] w \<and> jobs w = [] \<and> armed w = [] \<and>
     set (called [Began seq1, Callback seq1 (Response (3 :: nat))]) = set (began [Began seq1, Callback seq1 (Response (3 :: nat))])"
proof -
  from demo_answered obtain w where w: "cli_run 5 [Began seq1, Callback seq1 (Response (3 :: nat))] w"
    "jobs w = []" "armed w = []" by fast
  have "length (numbered [Began seq1, Callback seq1 (Response (3 :: nat))]) < 2 ^ 32 - 1"
    "failed [Began seq1, Callback seq1 (Response (3 :: nat))] = []" by simp_all
  from async_callback_comes [OF w(1) this w(2,3)] w show ?thesis by fast
qed

text \<open>
  C36. A refused request can make another call lose its callback. The failing call's
  compare-and-swap may run after its timer has called back and returned the context to the
  pool; when a second call has taken that context, the swap marks it as fired, and the
  second call, whose request was accepted and answered, never calls back. The comment in
  \<open>AsyncCall\<close> says that no other goroutine can have reused the context.
\<close>

theorem pooled_context_loses_callback:
  "\<exists>tr (w :: nat world). cli_run 5 tr w \<and> jobs w = [] \<and> armed w = [] \<and>
     set (failed tr) = {seq1} \<and> seq2 \<in> set (began tr) \<and> seq2 \<notin> set (called tr)"
proof -
  let ?T1 = "put (\<lambda>_. Map.empty) 1 seq1 (Some (AsynCtx 0))"
  let ?T2 = "put ?T1 1 seq1 None"
  let ?T3 = "put ?T2 2 seq2 (Some (AsynCtx 0))"
  let ?T4 = "put ?T3 1 seq1 None"
  have "cli_run 5 [Began seq1] (demo_world (demo_client 1 ?T1) (ctx1 seq1 False) [] 1 [(seq1, 0)] [Requesting seq1 0])"
    using cli_run.step [OF demo_start demo_async1] by simp
  moreover have "cli_step (demo_world (demo_client 1 ?T1) (ctx1 seq1 False) [] 1 [(seq1, 0)] [Requesting seq1 0]) []
      (demo_world (demo_client 1 ?T2) (ctx1 seq1 False) [] 1 [] [Requesting seq1 0, TimedOut 0])"
    by (rule cli_step.timer [of seq1 0]) (simp_all add: timer_fires_def demo_world_def demo_table)
  moreover have "cli_step (demo_world (demo_client 1 ?T2) (ctx1 seq1 False) [] 1 [] [Requesting seq1 0, TimedOut 0])
      [Callback seq1 Timeout] (demo_world (demo_client 1 ?T2) (ctx1 seq1 True) [] 1 [] [Requesting seq1 0, Putting 0])"
    by (rule cli_step.timeout [of _ "[Requesting seq1 0]" 0 "[]"])
       (simp_all add: onTimeout_def callOnResponse_def fire_def demo_world_def)
  moreover have "cli_step (demo_world (demo_client 1 ?T2) (ctx1 seq1 True) [] 1 [] [Requesting seq1 0, Putting 0]) []
      (demo_world (demo_client 1 ?T2) (ctx1 seq1 True) [0] 1 [] [Requesting seq1 0])"
    by (rule step_eq [OF cli_step.putting [of _ "[Requesting seq1 0]" 0 "[]"]]) (simp_all add: demo_world_def)
  moreover have "cli_step (demo_world (demo_client 1 ?T2) (ctx1 seq1 True) [0] 1 [] [Requesting seq1 0]) [Began seq2]
      (demo_world (demo_client 2 ?T3) (ctx1 seq2 False) [] 1 [(seq2, 0)] [Requesting seq1 0, Requesting seq2 0])"
    by (rule cli_step.async [of 0 _ "demo_world (demo_client 1 ?T2) (ctx1 seq1 True) [] 1 [] [Requesting seq1 0]" 0])
       (simp_all add: get_ctx_def demo_world_def AsyncCall_def demo_seq demo_table)
  moreover have "cli_step (demo_world (demo_client 2 ?T3) (ctx1 seq2 False) [] 1 [(seq2, 0)] [Requesting seq1 0, Requesting seq2 0])
      [] (demo_world (demo_client 2 ?T3) (ctx1 seq2 False) [] 1 [(seq2, 0)] [Requesting seq1 0])"
    by (rule step_eq [OF cli_step.accepted [of _ "[Requesting seq1 0]" seq2 0 "[]"]]) (simp_all add: demo_world_def)
  moreover have "cli_step (demo_world (demo_client 2 ?T3) (ctx1 seq2 False) [] 1 [(seq2, 0)] [Requesting seq1 0])
      [Failed seq1] (demo_world (demo_client 2 ?T4) (ctx1 seq2 False) [] 1 [(seq2, 0)] [Failing seq1 0 False])"
    by (rule cli_step.refused [of _ "[]" seq1 0 "[]"]) (simp_all add: request_failed_def demo_world_def demo_table)
  moreover have "cli_step (demo_world (demo_client 2 ?T4) (ctx1 seq2 False) [] 1 [(seq2, 0)] [Failing seq1 0 False]) []
      (demo_world (demo_client 2 ?T4) (ctx1 seq2 True) [] 1 [(seq2, 0)] [])"
    by (rule step_eq [OF cli_step.failing [of _ "[]" seq1 0 False "[]"]])
       (simp_all add: failing_def fire_def demo_world_def)
  ultimately have "cli_run 5 (((((((([Began seq1] @ []) @ [Callback seq1 Timeout]) @ []) @ [Began seq2]) @ []) @
      [Failed seq1]) @ [])) (demo_world (demo_client 2 ?T4) (ctx1 seq2 True) [] 1 [(seq2, 0)] [])"
    by (intro cli_run.step)
  from demo_answer [OF _ _ this, of 2 3] show ?thesis
    by (intro exI conjI) (auto simp: demo_world_def)
qed

text \<open>
  A response with a large sequence number panics: \<open>OnMessage\<close> indexes the shards with a
  signed remainder, and fails exactly for numbers of \<open>2 ^ 63\<close> and more that are not
  multiples of 32; for every other number it takes the call's entry, and only that one,
  out of the table, as if there were no shards.
\<close>

lemma OnMessage_large_seq:
  "(OnMessage q resp w = None \<longleftrightarrow> 2 ^ 63 \<le> unat q \<and> unat q mod 32 \<noteq> 0) \<and>
   (case OnMessage q resp w of
      None \<Rightarrow> True
    | Some (evs, w') \<Rightarrow> table (cli w') = (table (cli w))(q := None) \<and>
        (table (cli w) q = None \<longleftrightarrow> evs = [NoContext q]))"
proof -
  have "pending_index q = None \<longleftrightarrow> 2 ^ 63 \<le> unat q \<and> unat q mod 32 \<noteq> 0"
    by (rule pending_index_None)
  moreover have "OnMessage q resp w = None \<longleftrightarrow> pending_index q = None"
    by (auto simp: OnMessage_def LoadAndDelete_def Let_def split: option.split entry.split)
  moreover have "table (cli w') = (table (cli w))(q := None) \<and> (table (cli w) q = None \<longleftrightarrow> evs = [NoContext q])"
    if res: "OnMessage q resp w = Some (evs, w')" for evs w'
  proof -
    obtain e c where ld: "LoadAndDelete q (cli w) = Some (e, c)"
      using res by (auto simp: OnMessage_def split: option.splits)
    show ?thesis using res ld LoadAndDelete_table [OF ld]
      by (auto simp: OnMessage_def Let_def split: option.splits entry.splits)
  qed
  ultimately show ?thesis by (auto split: option.split)
qed

end
