(* ===== verification/Node_Api.thy ===== *)
theory Node_Api
  imports Cluster Rpc_Client
begin

text \<open>
  The calls a program makes on a node (the root package's \<open>rpc.go\<close>, and \<open>Call\<close>, \<open>Post\<close>,
  \<open>CallWithTimeout\<close> and \<open>AsyncCall\<close> of \<open>Node\<close> in \<open>cluster.go\<close>): the node, the channel to a
  peer, the connection and the RPC client put together, and the two codecs of the package.

  A call repeats its request in rounds. What a round meets is a value of \<open>call_round\<close>: what other
  goroutines did to the node in the meantime, the clock, the contexts that are done, the
  result of the socket when the message goes to one, and the error of the call's context
  when it is done after the pause. A round without an outcome waits for a mutex.
\<close>

section \<open>Codecs\<close>

definition JsonCodec ::
    "('v iface \<Rightarrow> go_error + bytes) \<Rightarrow> (bytes \<Rightarrow> 'v \<Rightarrow> go_error + 'v) \<Rightarrow> 'v Codec" where
  "JsonCodec json_Marshal json_Unmarshal =
     \<lparr>codec_Encode = \<lambda>dst v. (case json_Marshal v of Inl err \<Rightarrow> Inl err | Inr b \<Rightarrow> Inr (dst @ b)),
      codec_Decode = json_Unmarshal\<rparr>"

text \<open>The type assertion to \<open>proto.Message\<close> panics for any other value (\<open>None\<close>).\<close>

definition PbCodec_Encode ::
    "'v Proto \<Rightarrow> bytes \<Rightarrow> 'v iface \<Rightarrow> (go_error + bytes) option" where
  "PbCodec_Encode P dst v = (case v of IObj m \<Rightarrow> Some (MarshalAppend P dst m) | _ \<Rightarrow> None)"

definition PbCodec_Decode :: "'v Proto \<Rightarrow> bytes \<Rightarrow> 'v iface \<Rightarrow> (go_error + 'v) option" where
  "PbCodec_Decode P b v = (case v of IObj m \<Rightarrow> Some (ProtoUnmarshal P b m) | _ \<Rightarrow> None)"

section \<open>Channels\<close>

definition selfChannel_Name :: "logic_addr \<Rightarrow> string" where
  "selfChannel_Name self = (let s = LogicAddr_String self in s @ '' <-> '' @ s)"

definition selfChannel_IsRetryAbleError :: "go_error \<Rightarrow> bool" where
  "selfChannel_IsRetryAbleError _ = False"

record ('m, 'v, 'h) call_round =
  meanwhile :: "('m, 'v, 'h) NodeState \<Rightarrow> ('m, 'v, 'h) NodeState"
  clock :: int
  ended :: "nat \<Rightarrow> bool"
  sockErr :: "go_error option"
  ctxErr :: "go_error option"

text \<open>
  A channel is \<open>None\<close> for the node itself and the node to send to otherwise. A message that
  goes straight to a socket has the result of the socket.
\<close>

definition is_direct :: "ptr \<times> 'm peer_event \<Rightarrow> bool" where
  "is_direct e = (case snd e of Direct _ _ \<Rightarrow> True | _ \<Rightarrow> False)"

definition socket_result :: "go_error option \<Rightarrow> (ptr \<times> 'm peer_event) list \<Rightarrow> go_error option \<Rightarrow> go_error option" where
  "socket_result err evs se = (if list_ex is_direct evs then se else err)"

definition channel_RequestWithContext ::
    "nat \<Rightarrow> nat \<Rightarrow> logic_addr \<Rightarrow> ptr option \<Rightarrow> 'v RequestMsg \<Rightarrow> ('m, 'v, 'h) call_round \<Rightarrow> ('m, 'v, 'h) NodeState \<Rightarrow>
     (go_error option \<times> ('m, 'v, 'h) NodeState) list" where
  "channel_RequestWithContext MaxPendingMsgSize cx t ch request r s =
     (let s = meanwhile r s
      in case ch of
           None \<Rightarrow> map (\<lambda>(err, _, s). (err, s)) (selfChannel_Request request s)
         | Some n \<Rightarrow>
             map (\<lambda>(err, evs, s). (socket_result err evs (sockErr r), s))
               (rpcChannel_RequestWithContext MaxPendingMsgSize (clock r) (ended r) t n cx request s))"

definition channel_Request ::
    "nat \<Rightarrow> logic_addr \<Rightarrow> ptr option \<Rightarrow> 'v RequestMsg \<Rightarrow> ('m, 'v, 'h) call_round \<Rightarrow> ('m, 'v, 'h) NodeState \<Rightarrow>
     (go_error option \<times> ('m, 'v, 'h) NodeState) list" where
  "channel_Request MaxPendingMsgSize t ch request r s =
     (let s = meanwhile r s
      in case ch of
           None \<Rightarrow> map (\<lambda>(err, _, s). (err, s)) (selfChannel_Request request s)
         | Some n \<Rightarrow>
             map (\<lambda>(err, evs, s). (socket_result err evs (sockErr r), s))
               (rpcChannel_Request MaxPendingMsgSize (clock r) (ended r) t n request s))"

definition channel_IsRetryAbleError :: "ptr option \<Rightarrow> go_error \<Rightarrow> bool" where
  "channel_IsRetryAbleError ch err =
     (case ch of None \<Rightarrow> selfChannel_IsRetryAbleError err | Some _ \<Rightarrow> IsRetryAbleError err)"

section \<open>Calls\<close>

text \<open>
  The loop both kinds of calls send their request with. \<open>GaveUp err\<close> carries the error that
  is returned through \<open>rpcError\<close>.
\<close>

datatype loop_end = StillTrying | Sent | GaveUp go_error

fun request_loop ::
    "(go_error \<Rightarrow> bool) \<Rightarrow> (('m, 'v, 'h) call_round \<Rightarrow> 's \<Rightarrow> (go_error option \<times> 's) list) \<Rightarrow>
     ('m, 'v, 'h) call_round list \<Rightarrow> 's \<Rightarrow> (loop_end \<times> 's) list" where
  "request_loop retry req [] s = [(StillTrying, s)]"
| "request_loop retry req (r # rs) s =
     concat (map (\<lambda>(err, s).
       case err of
         None \<Rightarrow> [(Sent, s)]
       | Some err \<Rightarrow>
           if retry err then
             (case ctxErr r of Some e \<Rightarrow> [(GaveUp e, s)] | None \<Rightarrow> request_loop retry req rs s)
           else [(GaveUp err, s)]) (req r s))"

text \<open>
  How the wait for the response ends: the response arrives, or the context is done; then
  \<open>taken\<close> says that \<open>OnMessage\<close> had taken the entry already.
\<close>

datatype 'v waited = Arrived "'v ResponseMsg" | CtxDone go_error bool

fun attempt_of :: "'v waited \<Rightarrow> 'v attempt" where
  "attempt_of (Arrived resp) = Answer resp"
| "attempt_of (CtxDone err taken) = GiveUp err taken"

datatype 'v call_end = Returned "go_error option" 'v | Panics | Trying

text \<open>
  The interceptors of the client, numbered. A panic in one is recovered and logged, so each
  of them runs.
\<close>

datatype 'v hook = OutHook nat "'v RequestMsg" 'v | InHook nat "'v RequestMsg" "'v option" "go_error option"

definition callOutInterceptor :: "nat \<Rightarrow> 'v RequestMsg \<Rightarrow> 'v \<Rightarrow> 'v hook list" where
  "callOutInterceptor n req arg = map (\<lambda>i. OutHook i req arg) [0..<n]"

definition callInInterceptor :: "nat \<Rightarrow> 'v RequestMsg \<Rightarrow> 'v option \<Rightarrow> go_error option \<Rightarrow> 'v hook list" where
  "callInInterceptor n req ret err = map (\<lambda>i. InHook i req ret err) [0..<n]"

definition rpc_err :: "go_error \<Rightarrow> go_error option" where
  "rpc_err err = map_option RpcErr (rpcError err)"

text \<open>
  \<open>Client.Call\<close> with a result, on a channel given by its two functions. \<open>k\<close> is the context
  that \<open>syncCtxPool.Get\<close> returns.
\<close>

definition Client_Call ::
    "nat \<Rightarrow> nat \<Rightarrow> (go_error \<Rightarrow> bool) \<Rightarrow> ('v RequestMsg \<Rightarrow> ('m, 'v, 'h) call_round \<Rightarrow> 's \<Rightarrow> (go_error option \<times> 's) list) \<Rightarrow>
     ('v \<Rightarrow> 'v \<Rightarrow> go_error + 'v) \<Rightarrow> int \<Rightarrow> nat \<Rightarrow> string \<Rightarrow> 'v \<Rightarrow> 'v \<Rightarrow> 'v waited \<Rightarrow> ('m, 'v, 'h) call_round list \<Rightarrow>
     Client \<Rightarrow> 's \<Rightarrow> ('v call_end \<times> 'v hook list \<times> Client \<times> 's) list" where
  "Client_Call ins outs retry req copyValue secs k name arg ret wt rounds c s =
     (case makeSequence secs c of (q, c) \<Rightarrow>
        let request = \<lparr>Seq = q, Method = name, Arg = IObj arg, UserData = [], Oneway = False, reqCodec = None\<rparr>;
            hooks = callOutInterceptor outs request arg
        in case Store q (SyncCtx k) c of
             None \<Rightarrow> [(Panics, hooks, c, s)]
           | Some c \<Rightarrow>
               map (\<lambda>(e, s).
                 case (case e of
                         StillTrying \<Rightarrow> None
                       | Sent \<Rightarrow> Call retry copyValue q ret [attempt_of wt] c
                       | GaveUp err \<Rightarrow> Some (rpcError err, ret, forget q c, True)) of
                   None \<Rightarrow> (Trying, hooks, c, s)
                 | Some (err, v, c, _) \<Rightarrow>
                     (Returned (map_option RpcErr err) v,
                      hooks @ callInInterceptor ins request (Some v) (map_option RpcErr err), c, s))
                 (request_loop retry (req request) rounds s))"

text \<open>\<open>Client.Call\<close> without a result: nothing is stored.\<close>

definition Client_Post ::
    "nat \<Rightarrow> nat \<Rightarrow> (go_error \<Rightarrow> bool) \<Rightarrow> ('v RequestMsg \<Rightarrow> ('m, 'v, 'h) call_round \<Rightarrow> 's \<Rightarrow> (go_error option \<times> 's) list) \<Rightarrow>
     int \<Rightarrow> string \<Rightarrow> 'v \<Rightarrow> ('m, 'v, 'h) call_round list \<Rightarrow>
     Client \<Rightarrow> 's \<Rightarrow> (unit call_end \<times> 'v hook list \<times> Client \<times> 's) list" where
  "Client_Post ins outs retry req secs name arg rounds c s =
     (case makeSequence secs c of (q, c) \<Rightarrow>
        let first = \<lparr>Seq = q, Method = name, Arg = IObj arg, UserData = [], Oneway = False, reqCodec = None\<rparr>;
            hooks = callOutInterceptor outs first arg;
            request = first\<lparr>Oneway := True\<rparr>;
            result = \<lambda>err s. (Returned err (), hooks @ callInInterceptor ins request None err, c, s)
        in map (\<lambda>(e, s).
             case e of
               StillTrying \<Rightarrow> (Trying, hooks, c, s)
             | Sent \<Rightarrow> result None s
             | GaveUp err \<Rightarrow> result (rpc_err err) s) (request_loop retry (req request) rounds s))"

section \<open>Calls on a node\<close>

definition RPCClient_Call ::
    "nat \<Rightarrow> nat \<Rightarrow> nat \<Rightarrow> ('v \<Rightarrow> 'v \<Rightarrow> go_error + 'v) \<Rightarrow> int \<Rightarrow> nat \<Rightarrow> nat \<Rightarrow> logic_addr \<Rightarrow> string \<Rightarrow> 'v \<Rightarrow> 'v \<Rightarrow>
     'v waited \<Rightarrow> ('m, 'v, 'h) call_round list \<Rightarrow> Client \<Rightarrow> ('m, 'v, 'h) NodeState \<Rightarrow>
     ('v call_end \<times> 'v hook list \<times> Client \<times> ('m, 'v, 'h) NodeState) list" where
  "RPCClient_Call MaxPendingMsgSize ins outs copyValue secs k cx t name arg ret wt rounds c s =
     concat (map (\<lambda>ch.
       case ch of
         Inl err \<Rightarrow> [(Returned (Some err) ret, [], c, s)]
       | Inr ch \<Rightarrow>
           Client_Call ins outs (channel_IsRetryAbleError ch) (channel_RequestWithContext MaxPendingMsgSize cx t ch)
             copyValue secs k name arg ret wt rounds c s) (RPCClient_channel t s))"

definition RPCClient_Post ::
    "nat \<Rightarrow> nat \<Rightarrow> nat \<Rightarrow> int \<Rightarrow> nat \<Rightarrow> logic_addr \<Rightarrow> string \<Rightarrow> 'v \<Rightarrow>
     ('m, 'v, 'h) call_round list \<Rightarrow> Client \<Rightarrow> ('m, 'v, 'h) NodeState \<Rightarrow>
     (unit call_end \<times> 'v hook list \<times> Client \<times> ('m, 'v, 'h) NodeState) list" where
  "RPCClient_Post MaxPendingMsgSize ins outs secs cx t name arg rounds c s =
     concat (map (\<lambda>ch.
       case ch of
         Inl err \<Rightarrow> [(Returned (Some err) (), [], c, s)]
       | Inr ch \<Rightarrow>
           Client_Post ins outs (channel_IsRetryAbleError ch) (channel_RequestWithContext MaxPendingMsgSize cx t ch)
             secs name arg rounds c s) (RPCClient_channel t s))"

text \<open>
  A context with a timeout \<open>d\<close> made at time \<open>now\<close> is done with \<open>DeadlineExceeded\<close> from
  \<open>now + d\<close> on; the pause before the context is looked at takes ten milliseconds.
\<close>

definition with_timeout :: "int \<Rightarrow> int \<Rightarrow> ('m, 'v, 'h) call_round \<Rightarrow> ('m, 'v, 'h) call_round" where
  "with_timeout now d r = r\<lparr>ctxErr := if now + d \<le> clock r + 10 then Some DeadlineExceeded else None\<rparr>"

definition RPCClient_CallWithTimeout where
  "RPCClient_CallWithTimeout MaxPendingMsgSize ins outs copyValue secs k cx now d t name arg ret wt rounds c s =
     RPCClient_Call MaxPendingMsgSize ins outs copyValue secs k cx t name arg ret wt
       (map (with_timeout now d) rounds) c s"

text \<open>\<open>Node.Call\<close> and \<open>Node.CallWithTimeout\<close> return the result only when there is no error; \<open>zero\<close> is \<open>new(Ret)\<close>.\<close>

fun typed_result :: "'v call_end \<Rightarrow> 'v option call_end" where
  "typed_result (Returned err v) = Returned err (if err = None then Some v else None)"
| "typed_result Panics = Panics"
| "typed_result Trying = Trying"

definition Node_Call where
  "Node_Call MaxPendingMsgSize ins outs copyValue secs k cx t name arg zero wt rounds c s =
     map (apfst typed_result)
       (RPCClient_Call MaxPendingMsgSize ins outs copyValue secs k cx t name arg zero wt rounds c s)"

definition Node_CallWithTimeout where
  "Node_CallWithTimeout MaxPendingMsgSize ins outs copyValue secs k cx now d t name arg zero wt rounds c s =
     map (apfst typed_result)
       (RPCClient_CallWithTimeout MaxPendingMsgSize ins outs copyValue secs k cx now d t name arg zero wt rounds c s)"

definition Node_Post where
  "Node_Post MaxPendingMsgSize ins outs secs cx t name arg rounds c s =
     RPCClient_Post MaxPendingMsgSize ins outs secs cx t name arg rounds c s"

text \<open>
  \<open>AsyncCall\<close> of the client, with no other goroutine of the client in between; the
  interceptors are left out. \<open>k\<close> is the context from the pool. \<open>Client_AsyncPost\<close> is the branch
  without a result or a callback, and \<open>cb\<close> says that both are given.
\<close>

definition Client_AsyncCall ::
    "('v RequestMsg \<Rightarrow> 's \<Rightarrow> (go_error option \<times> 's) list) \<Rightarrow> int \<Rightarrow> nat \<Rightarrow> string \<Rightarrow> 'v \<Rightarrow> 'r world \<Rightarrow> 's \<Rightarrow>
     (go_error option \<times> 'r cli_event list \<times> 'r world \<times> 's) list" where
  "Client_AsyncCall req secs k name arg w s =
     (case Option.bind (get_ctx k w) (AsyncCall secs k) of
        None \<Rightarrow> []
      | Some (evs, w1) \<Rightarrow>
          let q = fst (makeSequence secs (cli w));
              request = \<lparr>Seq = q, Method = name, Arg = IObj arg, UserData = [], Oneway = False, reqCodec = None\<rparr>
          in concat (map (\<lambda>(err, s).
               case err of
                 None \<Rightarrow> [(None, evs, w1\<lparr>jobs := jobs w\<rparr>, s)]
               | Some err \<Rightarrow>
                   (case request_failed q k (w1\<lparr>jobs := jobs w\<rparr>) of
                      None \<Rightarrow> []
                    | Some (evs', w2) \<Rightarrow>
                        [(Some err, evs @ evs',
                          case last (jobs w2) of
                            Failing _ _ st \<Rightarrow> failing k st (w2\<lparr>jobs := butlast (jobs w2)\<rparr>)
                          | _ \<Rightarrow> w2, s)])) (req request s)))"

definition Client_AsyncPost ::
    "('v RequestMsg \<Rightarrow> 's \<Rightarrow> (go_error option \<times> 's) list) \<Rightarrow> int \<Rightarrow> string \<Rightarrow> 'v \<Rightarrow> 'r world \<Rightarrow> 's \<Rightarrow>
     (go_error option \<times> 'r cli_event list \<times> 'r world \<times> 's) list" where
  "Client_AsyncPost req secs name arg w s =
     (case makeSequence secs (cli w) of (q, c) \<Rightarrow>
        let request = \<lparr>Seq = q, Method = name, Arg = IObj arg, UserData = [], Oneway = True, reqCodec = None\<rparr>
        in map (\<lambda>(err, s). (err, [Posted q], w\<lparr>cli := c\<rparr>, s)) (req request s))"

definition RPCClient_AsyncCall ::
    "bool \<Rightarrow> nat \<Rightarrow> ('m, 'v, 'h) call_round \<Rightarrow> int \<Rightarrow> nat \<Rightarrow> logic_addr \<Rightarrow> string \<Rightarrow> 'v \<Rightarrow> 'r world \<Rightarrow> ('m, 'v, 'h) NodeState \<Rightarrow>
     (go_error option \<times> 'r cli_event list \<times> 'r world \<times> ('m, 'v, 'h) NodeState) list" where
  "RPCClient_AsyncCall cb MaxPendingMsgSize r secs k t name arg w s =
     concat (map (\<lambda>ch.
       case ch of
         Inl err \<Rightarrow> [(Some err, [], w, s)]
       | Inr ch \<Rightarrow>
           let req = (\<lambda>request. channel_Request MaxPendingMsgSize t ch request r)
           in map (apfst AsyncCall_error)
                (if cb then Client_AsyncCall req secs k name arg w s else Client_AsyncPost req secs name arg w s))
       (RPCClient_channel t s))"

section \<open>What calls leave behind\<close>

lemma JsonCodec_appends: "codec_appends (JsonCodec json_Marshal json_Unmarshal) json_Marshal"
  by (simp add: codec_appends_def JsonCodec_def)

lemma Client_Call_returns:
  assumes "(Returned err v, hs, c', s') \<in> set (Client_Call ins outs retry req copyValue secs k name arg ret wt rounds c s)"
  shows "\<exists>q c1 c2 rq. makeSequence secs c = (q, c1) \<and> Store q (SyncCtx k) c1 = Some c2 \<and> c' = forget q c2 \<and>
    Seq rq = q \<and> hs = callOutInterceptor outs rq arg @ callInInterceptor ins rq (Some v) err \<and>
    (\<forall>e. err = Some e \<longrightarrow> (\<exists>re. e = RpcErr re))"
proof -
  obtain q c1 where q: "makeSequence secs c = (q, c1)" by (rule prod.exhaust)
  then obtain c2 where c2: "Store q (SyncCtx k) c1 = Some c2"
    using assms by (auto simp: Client_Call_def Let_def split: option.splits)
  let ?rq = "\<lparr>Seq = q, Method = name, Arg = IObj arg, UserData = [], Oneway = False, reqCodec = None\<rparr>"
  from assms q c2 obtain e re p where
    "(case e of StillTrying \<Rightarrow> None | Sent \<Rightarrow> Call retry copyValue q ret [attempt_of wt] c2
       | GaveUp err \<Rightarrow> Some (rpcError err, ret, forget q c2, True)) = Some (re, v, c', p)"
    and h: "err = map_option RpcErr re" "hs = callOutInterceptor outs ?rq arg @ callInInterceptor ins ?rq (Some v) err"
    by (auto simp: Client_Call_def Let_def split: option.splits prod.splits)
  then have "c' = forget q c2"
    by (auto split: loop_end.splits dest: Call_forgets)
  with q c2 h show ?thesis by (intro exI [of _ q] exI [of _ c1] exI [of _ c2] exI [of _ ?rq]) auto
qed

lemma Store_index: "Store q e c = Some c' \<Longrightarrow> pending_index q \<noteq> None"
  by (auto simp: Store_def split: option.splits)

lemma stored_forgotten:
  assumes "makeSequence secs c = (q, c1)" "Store q e c1 = Some c2" "table c q = None"
  shows "table (forget q c2) = table c"
  using makeSequence_table [of secs c] assms(1,3) Store_table [OF assms(2)] forget_table [OF Store_index [OF assms(2)], of c2]
  by (auto simp: fun_eq_iff)


section \<open>Calls to a peer\<close>

text \<open>The node is started and knows where to send to.\<close>

definition can_reach :: "logic_addr \<Rightarrow> ptr \<Rightarrow> ('m, 'v, 'h) NodeState \<Rightarrow> bool" where
  "can_reach t n s \<longleftrightarrow> started s \<and> \<not> died s \<and> t \<noteq> self_of s \<and>
     getNodeByLogicAddr (self_of s) (cache s) t = Some n"

lemma channel_reach: "can_reach t n s \<Longrightarrow> RPCClient_channel t s = [Inr (Some n)]"
  by (simp add: can_reach_def RPCClient_channel_def select_started_def)

lemma request_locked:
  assumes "mutex (conns (meanwhile r s) n)"
  shows "channel_RequestWithContext mx cx t (Some n) rq r s = []"
  using assms by (simp add: channel_RequestWithContext_def rpcChannel_RequestWithContext_def with_conn_def
      sendMessageWithContext_def Let_def)

lemma request_full:
  assumes "\<not> mutex (conns s n)" "sock (conns s n) = None" "meanwhile r s = s"
    and "mx \<le> length (pendingMsg (removeFailedMsg (clock r) (ended r) True (conns s n)))"
  shows "\<exists>s'. channel_RequestWithContext mx cx t (Some n) rq r s = [(Some ErrPendingQueueFull, s')] \<and> mutex (conns s' n)"
proof -
  have "length (pendingMsg (removeFailedMsg (clock r) (ended r) True (conns s n))) \<le> length (pendingMsg (conns s n))"
    by (simp add: removeFailedMsg_def)
  with assms show ?thesis
    by (simp add: channel_RequestWithContext_def rpcChannel_RequestWithContext_def with_conn_def
      sendMessageWithContext_def Let_def socket_result_def)
qed

lemma retry_peer: "channel_IsRetryAbleError (Some n) = IsRetryAbleError"
  by (simp add: channel_IsRetryAbleError_def fun_eq_iff)

lemma request_direct:
  assumes "\<not> mutex (conns (meanwhile r s) n)" "sock (conns (meanwhile r s) n) \<noteq> None"
  shows "\<exists>s'. channel_RequestWithContext mx cx t (Some n) rq r s = [(sockErr r, s')]"
  using assms by (auto simp: channel_RequestWithContext_def rpcChannel_RequestWithContext_def with_conn_def
      sendMessageWithContext_def Let_def socket_result_def is_direct_def)

lemma loop_times_out:
  assumes "\<And>r s. r \<in> set rs \<Longrightarrow> \<exists>e s'. req r s = [(Some e, s')] \<and> retry e"
    and "\<exists>r\<in>set rs. ctxErr r \<noteq> None" "\<forall>r\<in>set rs. ctxErr r = None \<or> ctxErr r = Some DeadlineExceeded"
  shows "\<exists>s'. request_loop retry req rs s = [(GaveUp DeadlineExceeded, s')]"
  using assms
proof (induction rs arbitrary: s)
  case (Cons r rs)
  from Cons.prems(1) [of r s] obtain e s' where e: "req r s = [(Some e, s')]" "retry e" by auto
  show ?case
  proof (cases "ctxErr r")
    case None
    have "\<exists>s''. request_loop retry req rs s' = [(GaveUp DeadlineExceeded, s'')]"
      by (rule Cons.IH) (use Cons.prems None in auto)
    with None e show ?thesis by simp
  next
    case (Some x)
    with Cons.prems(3) e show ?thesis by simp
  qed
qed simp

text \<open>
  C15. A full queue blocks a call past its timeout: when the queue of the peer is full of
  messages that are still wanted and there is no connection, \<open>CallWithTimeout\<close> gets
  \<open>ErrPendingQueueFull\<close>, which is retryable. The connection's mutex stays locked, and no
  operation of the connection releases it. So the next round waits for the mutex, and unless the
  timeout has passed by the first pause the call has no outcome, however many rounds it is
  given and whatever the clock says.
\<close>

theorem full_queue_blocks_call:
  assumes "can_reach t n s" "\<not> mutex (conns s n)" "sock (conns s n) = None" "meanwhile r s = s"
    and "MaxPendingMsgSize \<le> length (pendingMsg (removeFailedMsg (clock r) (ended r) True (conns s n)))"
    and "clock r + 10 < now + d" "pending_index (fst (makeSequence secs c)) \<noteq> None"
    and "\<And>s. mutex (conns s n) \<Longrightarrow> mutex (conns (meanwhile r' s) n)"
  shows "RPCClient_CallWithTimeout MaxPendingMsgSize ins outs copyValue secs k cx now d t name arg ret wt (r # r' # rs) c s = []"
proof -
  obtain q c1 where q: "makeSequence secs c = (q, c1)" by (rule prod.exhaust)
  with assms(7) obtain c2 where c2: "Store q (SyncCtx k) c1 = Some c2" by (auto simp: Store_def)
  let ?req = "channel_RequestWithContext MaxPendingMsgSize cx t (Some n)"
  have "request_loop IsRetryAbleError (?req rq) (map (with_timeout now d) (r # r' # rs)) s = []" for rq
  proof -
    have "removeFailedMsg (clock (with_timeout now d r)) (ended (with_timeout now d r)) True (conns s n) =
        removeFailedMsg (clock r) (ended r) True (conns s n)" "meanwhile (with_timeout now d r) s = s"
      "meanwhile (with_timeout now d r') = meanwhile r'" "ctxErr (with_timeout now d r) = None"
      using assms(4,6) by (simp_all add: with_timeout_def)
    note t = this
    obtain s1 where s1: "?req rq (with_timeout now d r) s = [(Some ErrPendingQueueFull, s1)]" "mutex (conns s1 n)"
      using request_full [OF assms(2,3) t(2), of MaxPendingMsgSize cx t rq] t(1) assms(5) by auto
    have "?req rq (with_timeout now d r') s1 = []"
      using request_locked assms(8) s1(2) t(3) by metis
    with s1(1) t(4) show ?thesis by (simp add: IsRetryAbleError_def)
  qed
  then show ?thesis
    using q c2 by (simp add: RPCClient_CallWithTimeout_def RPCClient_Call_def channel_reach [OF assms(1)]
      Client_Call_def Let_def retry_peer)
qed

text \<open>
  C14. A call ends when its timeout has passed: as long as the peer's connection is up and
  its mutex is free whenever the call looks at it, and the socket keeps refusing the request
  with a retryable error, \<open>CallWithTimeout\<close> returns \<open>ErrTimeout\<close> in the first round whose
  pause ends after the timeout, whatever other goroutines do to the node in between, and its
  entry is gone.
\<close>

theorem call_times_out:
  assumes "can_reach t n s" "pending_index (fst (makeSequence secs c)) \<noteq> None"
    and "\<And>r s. r \<in> set rounds \<Longrightarrow> \<not> mutex (conns (meanwhile r s) n) \<and> sock (conns (meanwhile r s) n) \<noteq> None"
    and "\<And>r. r \<in> set rounds \<Longrightarrow> \<exists>e. sockErr r = Some e \<and> IsRetryAbleError e"
    and "\<exists>r\<in>set rounds. now + d \<le> clock r + 10"
  shows "\<exists>hs c' s'. RPCClient_CallWithTimeout MaxPendingMsgSize ins outs copyValue secs k cx now d t name arg ret wt rounds c s =
      [(Returned (Some (RpcErr (Error ErrTimeout ''timeout''))) ret, hs, c', s')] \<and>
    table c' = (table c)(fst (makeSequence secs c) := None)"
proof -
  obtain q c1 where q: "makeSequence secs c = (q, c1)" by (rule prod.exhaust)
  with assms(2) obtain c2 where c2: "Store q (SyncCtx k) c1 = Some c2" by (auto simp: Store_def)
  let ?rq = "\<lparr>Seq = q, Method = name, Arg = IObj arg, UserData = [], Oneway = False, reqCodec = None\<rparr>"
  let ?req = "channel_RequestWithContext MaxPendingMsgSize cx t (Some n) ?rq"
  have "\<exists>e s'. ?req r s = [(Some e, s')] \<and> IsRetryAbleError e" if r: "r \<in> set (map (with_timeout now d) rounds)" for r s
  proof -
    from r obtain r' where r': "r = with_timeout now d r'" "r' \<in> set rounds" by auto
    with assms(3) [OF r'(2), of s] assms(4) [OF r'(2)] request_direct [of r s n MaxPendingMsgSize cx t ?rq]
    show ?thesis by (auto simp: with_timeout_def)
  qed
  then have "\<exists>s'. request_loop IsRetryAbleError ?req (map (with_timeout now d) rounds) s = [(GaveUp DeadlineExceeded, s')]"
    by (rule loop_times_out) (use assms(5) in \<open>auto simp: with_timeout_def\<close>)
  then obtain s' where "request_loop IsRetryAbleError ?req (map (with_timeout now d) rounds) s = [(GaveUp DeadlineExceeded, s')]"
    by blast
  moreover have "table (forget q c2) = (table c)(q := None)"
    using makeSequence_table [of secs c] q Store_table [OF c2] forget_table [OF Store_index [OF c2], of c2]
    by (auto simp: fun_eq_iff)
  moreover have "rpcError DeadlineExceeded = Some (Error ErrTimeout ''timeout'')"
    by (simp add: rpcError_def NewError_def rpc_codes Canceled_def DeadlineExceeded_def)
  ultimately show ?thesis
    using q c2 by (simp add: RPCClient_CallWithTimeout_def RPCClient_Call_def channel_reach [OF assms(1)]
      Client_Call_def Let_def retry_peer)
qed

definition demo_full :: "(nat, nat, nat) NodeState" where
  "demo_full = NewClusterNode\<lparr>started := True, selfAddress := nAddr (demo_member 263169),
     cache := (new_cache 263169)\<lparr>allnodes := [263170 \<mapsto> 0]\<rparr>,
     conns := \<lambda>_. new_peer\<lparr>pendingMsg := [\<lparr>message = OtherPacket, deadline = 50, ctx = None\<rparr>]\<rparr>\<rparr>"

definition demo_up :: "(nat, nat, nat) NodeState" where
  "demo_up = demo_full\<lparr>conns := \<lambda>_. new_peer\<lparr>sock := Some 0\<rparr>\<rparr>"

definition demo_call_round :: "int \<Rightarrow> (nat, nat, nat) call_round" where
  "demo_call_round now = \<lparr>meanwhile = \<lambda>s. s, clock = now, ended = \<lambda>_. False, sockErr = Some ErrSendQueueFull, ctxErr = None\<rparr>"

lemma demo_reach: "can_reach 263170 0 demo_full" "can_reach 263170 0 demo_up"
  by (simp_all add: can_reach_def demo_up_def demo_full_def NewClusterNode_def demo_member_def getNodeByLogicAddr_def
      cache_getNodeByLogicAddr_def field_eqs new_cache_def)


theorem full_queue_blocks_call_witness:
  "RPCClient_CallWithTimeout 1 0 0 (\<lambda>_. Inr) 0 0 0 0 1000 263170 ''echo'' 1 0 (CtxDone DeadlineExceeded False)
     [demo_call_round 5, demo_call_round 15, demo_call_round 5000] (demo_client 0 (\<lambda>_. Map.empty)) demo_full = []"
  by (rule full_queue_blocks_call [OF demo_reach(1)])
     (simp_all add: demo_full_def new_peer_def demo_call_round_def removeFailedMsg_def removed_def demo_seq demo_index)

theorem call_times_out_witness:
  "\<exists>hs c' s'. RPCClient_CallWithTimeout 1 0 0 (\<lambda>_. Inr) 0 0 0 0 1000 263170 ''echo'' 1 0 (CtxDone DeadlineExceeded False)
     (map (\<lambda>now. (demo_call_round now)\<lparr>meanwhile := \<lambda>_. demo_up\<rparr>) [5, 15, 995, 2000]) (demo_client 0 (\<lambda>_. Map.empty)) demo_up =
      [(Returned (Some (RpcErr (Error ErrTimeout ''timeout''))) 0, hs, c', s')] \<and>
    table c' = (table (demo_client 0 (\<lambda>_. Map.empty)))(fst (makeSequence 0 (demo_client 0 (\<lambda>_. Map.empty))) := None)"
proof (rule call_times_out [OF demo_reach(2)])
  fix r :: "(nat, nat, nat) call_round"
  assume "r \<in> set (map (\<lambda>now. (demo_call_round now)\<lparr>meanwhile := \<lambda>_. demo_up\<rparr>) [5, 15, 995, 2000])"
  then show "\<exists>e. sockErr r = Some e \<and> IsRetryAbleError e"
    "\<not> mutex (conns (meanwhile r s) 0) \<and> sock (conns (meanwhile r s) 0) \<noteq> None" for s
    by (auto simp: demo_call_round_def demo_up_def new_peer_def IsRetryAbleError_def)
qed (simp_all add: demo_seq demo_index demo_call_round_def)

section \<open>Asynchronous calls\<close>

lemma async_request:
  assumes "AsyncCall secs k w0 = Some (evs, w1)"
  shows "fst (makeSequence secs (cli w0)) = q \<Longrightarrow> jobs w1 = jobs w0 @ [Requesting q k]"
  using assms by (auto simp: AsyncCall_def split: prod.splits option.splits)

lemma get_ctx_same: "get_ctx k w = Some w0 \<Longrightarrow> cli w0 = cli w \<and> jobs w0 = jobs w"
  by (auto simp: get_ctx_def split: if_splits)

lemma request_failed_job:
  "request_failed q k w = Some (evs, w') \<Longrightarrow> \<exists>st. jobs w' = jobs w @ [Failing q k st]"
  by (auto simp: request_failed_def timer_Stop_def Let_def ex_bool_eq split: option.splits if_splits)

lemma Client_AsyncCall_run:
  assumes "cli_run start tr w" "(err, evs, w', s') \<in> set (Client_AsyncCall req secs k name arg w s)"
  shows "cli_run start (tr @ evs) w'"
proof -
  from assms(2) obtain w0 evs1 w1 where w: "get_ctx k w = Some w0" "AsyncCall secs k w0 = Some (evs1, w1)"
    by (cases "Option.bind (get_ctx k w) (AsyncCall secs k)") (auto simp: Client_AsyncCall_def bind_eq_Some_conv)
  let ?q = "fst (makeSequence secs (cli w))"
  have j: "jobs w1 = jobs w @ [Requesting ?q k]"
    using async_request [OF w(2), of ?q] get_ctx_same [OF w(1)] by simp
  have run1: "cli_run start (tr @ evs1) w1"
    by (rule cli_run.step [OF assms(1) cli_step.async [OF w]])
  from assms(2) w consider "evs = evs1" "w' = w1\<lparr>jobs := jobs w\<rparr>"
    | evs2 w2 where "request_failed ?q k (w1\<lparr>jobs := jobs w\<rparr>) = Some (evs2, w2)" "evs = evs1 @ evs2"
      "w' = (case last (jobs w2) of Failing _ _ st \<Rightarrow> failing k st (w2\<lparr>jobs := butlast (jobs w2)\<rparr>) | _ \<Rightarrow> w2)"
    by (cases "request_failed ?q k (w1\<lparr>jobs := jobs w\<rparr>)")
       (auto simp: Client_AsyncCall_def Let_def split: option.splits)
  then show ?thesis
  proof cases
    case 1
    with cli_run.step [OF run1 cli_step.accepted [of w1 "jobs w" ?q k "[]"]] j show ?thesis by simp
  next
    case 2
    with cli_run.step [OF run1 cli_step.refused [of w1 "jobs w" ?q k "[]"]] j
    have run2: "cli_run start (tr @ evs) w2" by simp
    from request_failed_job [OF 2(1)] obtain st where st: "jobs w2 = jobs w @ [Failing ?q k st]" by auto
    with cli_run.step [OF run2 cli_step.failing [of w2 "jobs w" ?q k st "[]"]] 2(3) show ?thesis by simp
  qed
qed

lemma Client_AsyncPost_run:
  assumes "cli_run start tr w" "(err, evs, w', s') \<in> set (Client_AsyncPost req secs name arg w s)"
  shows "cli_run start (tr @ evs) w'"
proof -
  obtain q c where q: "makeSequence secs (cli w) = (q, c)" by (rule prod.exhaust)
  with assms(2) have "evs = [Posted q]" "w' = w\<lparr>cli := c\<rparr>" by (auto simp: Client_AsyncPost_def Let_def)
  with cli_run.step [OF assms(1) cli_step.oneway [OF q]] show ?thesis by simp
qed

text \<open>
  Whatever \<open>AsyncCall\<close> on a node does to the client is a run of the client's steps, so what
  holds in every interleaving of the client (at most one callback for each call) holds for
  programs that call through the node.
\<close>

lemma node_async_is_run:
  assumes "cli_run start tr w"
    and "(err, evs, w', s') \<in> set (RPCClient_AsyncCall cb MaxPendingMsgSize r secs k t name arg w s)"
  shows "cli_run start (tr @ evs) w'"
proof -
  from assms(2) obtain ch where ch: "(err, evs, w', s') \<in> set (case ch of
      Inl err \<Rightarrow> [(Some err, [], w, s)]
    | Inr ch \<Rightarrow>
        let req = (\<lambda>request. channel_Request MaxPendingMsgSize t ch request r)
        in map (apfst AsyncCall_error)
             (if cb then Client_AsyncCall req secs k name arg w s else Client_AsyncPost req secs name arg w s))"
    unfolding RPCClient_AsyncCall_def by auto
  show ?thesis
  proof (cases ch)
    case (Inl e)
    with ch assms(1) show ?thesis by simp
  next
    case (Inr p)
    with ch show ?thesis
      by (auto simp: Let_def split: if_splits intro: Client_AsyncCall_run [OF assms(1)] Client_AsyncPost_run [OF assms(1)])
  qed
qed

end
