(* ===== verification/Node_Streams.thy ===== *)
theory Node_Streams
  imports Prelude
begin

text \<open>
  Streams between nodes: the session that a node keeps for the streams it opens to a peer
  (\<open>node.openStream\<close> and the second half of \<open>node.closeSocket\<close> in \<open>node.go\<close>), and the loop that
  accepts the streams of a session on the other side (\<open>Node.listenStream\<close> in \<open>cluster.go\<close>).

  Sessions and the connections they are made of come from another library. They are numbers
  here, with the sets of those that are still open; what the calls of the library and of the
  network return is an argument. Closing a session closes its connection.
\<close>

section \<open>Opening streams\<close>

record streamClient =
  session :: "nat option"

text \<open>The peer's stream client, with the open connections without a session and the open sessions.\<close>

record streams = streamClient +
  open_conns :: "nat set"
  open_sessions :: "nat set"
  next_id :: nat

definition new_streams :: streams where
  "new_streams = \<lparr>session = None, open_conns = {}, open_sessions = {}, next_id = 0\<rparr>"

text \<open>What one round of the loop meets: the errors of the calls, and whether the node has died.\<close>

record stream_round =
  openErr :: "go_error option"
  dialErr :: "go_error option"
  handshakeErr :: "go_error option"
  clientErr :: "go_error option"
  selfDied :: bool

definition session_Close :: "nat \<Rightarrow> streams \<Rightarrow> streams" where
  "session_Close i n = n\<lparr>open_sessions := open_sessions n - {i}\<rparr>"

definition conn_Close :: "nat \<Rightarrow> streams \<Rightarrow> streams" where
  "conn_Close i n = n\<lparr>open_conns := open_conns n - {i}\<rparr>"

text \<open>
  One round: the result, if there is one. A stream is the number of its session. \<open>smux.Client\<close>
  takes the connection over into the new session.
\<close>

definition stream_once :: "go_error \<Rightarrow> stream_round \<Rightarrow> streams \<Rightarrow> (go_error + nat) option \<times> streams" where
  "stream_once ErrGoAway r n =
     (case session n of
        Some i \<Rightarrow>
          (case openErr r of
             None \<Rightarrow> (Some (Inr i), n)
           | Some err \<Rightarrow>
               if err = ErrGoAway then (Some (Inl err), n)
               else (None, (session_Close i n)\<lparr>session := None\<rparr>))
      | None \<Rightarrow>
          (case dialErr r of
             Some err \<Rightarrow> (Some (Inl err), n)
           | None \<Rightarrow>
               let i = next_id n;
                   n = n\<lparr>next_id := i + 1, open_conns := insert i (open_conns n)\<rparr>
               in (case handshakeErr r of
                     Some err \<Rightarrow> (Some (Inl err), conn_Close i n)
                   | None \<Rightarrow>
                       (case clientErr r of
                          Some err \<Rightarrow> (Some (Inl err), conn_Close i n)
                        | None \<Rightarrow>
                            let n = n\<lparr>open_conns := open_conns n - {i}, open_sessions := insert i (open_sessions n)\<rparr>
                            in if selfDied r then (Some (Inl (GoError ''server die'')), conn_Close i (session_Close i n))
                               else (None, n\<lparr>session := Some i\<rparr>)))))"

text \<open>The loop, over the rounds it makes; without a result it is still going on.\<close>

fun openStream :: "go_error \<Rightarrow> stream_round list \<Rightarrow> streams \<Rightarrow> (go_error + nat) option \<times> streams" where
  "openStream ErrGoAway [] n = (None, n)"
| "openStream ErrGoAway (r # rs) n =
     (case stream_once ErrGoAway r n of
        (Some res, n) \<Rightarrow> (Some res, n)
      | (None, n) \<Rightarrow> openStream ErrGoAway rs n)"

definition closeSession :: "streams \<Rightarrow> streams" where
  "closeSession n = (case session n of None \<Rightarrow> n | Some i \<Rightarrow> (session_Close i n)\<lparr>session := None\<rparr>)"

section \<open>Accepting streams\<close>

record stream_server =
  smuxSessions :: "nat set"
  serving :: "nat set"

text \<open>
  \<open>listenStream\<close>, over the results of \<open>AcceptStream\<close>: the streams given to the handler, and
  whether the loop has ended.
\<close>

fun accept_loop :: "(go_error + 's) list \<Rightarrow> 's list \<times> bool" where
  "accept_loop [] = ([], False)"
| "accept_loop (Inr s # rest) = (case accept_loop rest of (ss, ended) \<Rightarrow> (s # ss, ended))"
| "accept_loop (Inl e # rest) = ([], True)"

definition listenStream :: "nat \<Rightarrow> (go_error + 's) list \<Rightarrow> stream_server \<Rightarrow> 's list \<times> stream_server" where
  "listenStream i accepts n =
     (let n = n\<lparr>smuxSessions := insert i (smuxSessions n)\<rparr>;
          (ss, ended) = accept_loop accepts
      in (ss, if ended then n\<lparr>serving := serving n - {i}, smuxSessions := smuxSessions n - {i}\<rparr> else n))"

section \<open>Sessions are not lost\<close>

text \<open>
  Between two calls the only thing open is the session the peer holds. The lock of the
  stream client makes the calls come one after the other.
\<close>

definition streams_ok :: "streams \<Rightarrow> bool" where
  "streams_ok n \<longleftrightarrow> open_conns n = {} \<and> open_sessions n = set_option (session n) \<and>
     (\<forall>i. session n = Some i \<longrightarrow> i < next_id n)"

lemma streams_ok_round:
  assumes "streams_ok n" "stream_once E r n = (res, n')"
  shows "streams_ok n'"
  using assms
  by (auto simp: streams_ok_def stream_once_def session_Close_def conn_Close_def Let_def split: option.splits if_splits)

lemma streams_ok_open:
  assumes "streams_ok n" "openStream E rs n = (res, n')"
  shows "streams_ok n'"
  using assms
proof (induction rs arbitrary: n)
  case (Cons r rs)
  obtain q m where q: "stream_once E r n = (q, m)" by (rule prod.exhaust)
  have "streams_ok m" by (rule streams_ok_round [OF Cons.prems(1) q])
  then show ?case using Cons q by (cases q) auto
qed simp

lemma streams_ok_close: "streams_ok n \<Longrightarrow> streams_ok (closeSession n) \<and> open_sessions (closeSession n) = {}"
  by (auto simp: streams_ok_def closeSession_def session_Close_def split: option.split)

text \<open>A stream is always one of the session that is kept.\<close>

lemma open_result:
  assumes "openStream E rs n = (Some (Inr i), n')"
  shows "session n' = Some i"
  using assms
proof (induction rs arbitrary: n)
  case (Cons r rs)
  obtain q m where q: "stream_once E r n = (q, m)" by (rule prod.exhaust)
  show ?case
  proof (cases q)
    case None
    then show ?thesis using Cons q by simp
  next
    case (Some res)
    then have "stream_once E r n = (Some (Inr i), n')" using Cons.prems q by simp
    then show ?thesis by (auto simp: stream_once_def Let_def split: option.splits if_splits)
  qed
qed simp

text \<open>Two rounds are enough when a session opens streams, or is used up.\<close>

lemma open_once:
  assumes "openErr r = None \<or> openErr r = Some E" "session n = Some i"
  shows "\<exists>res n'. openStream E (r # rs) n = (Some res, n')"
  using assms by (auto simp: stream_once_def)

lemma dial_once:
  assumes "session n = None"
  shows "(\<exists>res n'. openStream E (r # rs) n = (Some res, n')) \<or>
    (\<exists>i n'. session n' = Some i \<and> openStream E (r # rs) n = openStream E rs n')"
proof -
  obtain q m where q: "stream_once E r n = (q, m)" by (rule prod.exhaust)
  have "\<exists>i. session m = Some i" if "q = None"
    using q that assms by (auto simp: stream_once_def Let_def split: option.splits if_splits)
  then show ?thesis using q by (cases q) auto
qed

lemma open_twice:
  assumes "openErr r2 = None \<or> openErr r2 = Some E" "session n = None"
  shows "\<exists>res n'. openStream E (r1 # r2 # rs) n = (Some res, n')"
  using dial_once [OF assms(2), of E r1 "r2 # rs"] open_once [OF assms(1)] by fastforce

section \<open>Properties\<close>

text \<open>Calls of a node on the stream client of a peer, one after the other.\<close>

inductive stream_step :: "go_error \<Rightarrow> streams \<Rightarrow> streams \<Rightarrow> bool" for E where
  opens: "openStream E rs n = (Some res, n') \<Longrightarrow> stream_step E n n'"
| closes: "stream_step E n (closeSession n)"


definition demo_round :: stream_round where
  "demo_round = \<lparr>openErr = None, dialErr = None, handshakeErr = None, clientErr = None, selfDied = False\<rparr>"


text \<open>
  C32. No session or connection is lost: after any sequence of opening streams and closing, the
  only session of the stream client that is open is the one it keeps, no connection is open
  without a session, every stream belongs to the session that is kept, and closing leaves
  nothing open.
\<close>

theorem stream_sessions_kept:
  assumes "(stream_step E)\<^sup>*\<^sup>* new_streams n"
  shows "open_conns n = {} \<and> open_sessions n = set_option (session n) \<and> open_sessions (closeSession n) = {} \<and>
    (openStream E rs n = (Some (Inr i), n') \<longrightarrow> open_sessions n' = {i} \<and> open_conns n' = {})"
proof -
  have ok: "streams_ok n"
    using assms
  proof (induction rule: rtranclp_induct)
    case base
    then show ?case by (simp add: streams_ok_def new_streams_def)
  next
    case (step m m')
    from step.hyps(2) step.IH show ?case by cases (auto dest: streams_ok_open streams_ok_close)
  qed
  have "open_sessions n' = {i} \<and> open_conns n' = {}" if "openStream E rs n = (Some (Inr i), n')"
    using streams_ok_open [OF ok that] open_result [OF that] by (simp add: streams_ok_def)
  moreover have "open_conns n = {}" "open_sessions n = set_option (session n)" using ok by (simp_all add: streams_ok_def)
  ultimately show ?thesis using streams_ok_close [OF ok] by blast
qed

theorem stream_sessions_kept_witness:
  "\<exists>n n'. (stream_step (GoError ''go away''))\<^sup>*\<^sup>* new_streams n \<and>
     openStream (GoError ''go away'') [demo_round] n = (Some (Inr 0), n') \<and> open_sessions n' = {0} \<and> open_conns n' = {}"
proof -
  let ?E = "GoError ''go away''"
  obtain n where n: "openStream ?E [demo_round, demo_round] new_streams = (Some (Inr 0), n)" "session n = Some 0"
    by (simp add: stream_once_def demo_round_def new_streams_def)
  have run: "(stream_step ?E)\<^sup>*\<^sup>* new_streams n" by (rule r_into_rtranclp) (rule opens [OF n(1)])
  have again: "openStream ?E [demo_round] n = (Some (Inr 0), n)" using n(2) by (simp add: stream_once_def demo_round_def)
  have "openStream ?E [demo_round] n = (Some (Inr 0), n) \<longrightarrow> open_sessions n = {0} \<and> open_conns n = {}"
    using stream_sessions_kept [OF run, of "[demo_round]" 0 n] by (elim conjE)
  then have "open_sessions n = {0} \<and> open_conns n = {}" using again by (rule mp)
  with run again show ?thesis by (intro exI [of _ n] conjI) (elim conjE, assumption)+
qed

end
