(* ===== verification/Provider.thy ===== *)
theory Provider
  imports Node_Cache
begin

text \<open>
  What the membership providers have in common (\<open>membership/etcd\<close>, \<open>membership/natsjet\<close>,
  \<open>membership/redis\<close> and the example provider): the subscriber's maps of configured and
  of live members, the record of changes that is collected and handed to the callback, and
  the contract between a provider and the node cache as a locale: every change a provider
  reports may be applied to the membership reported so far and turns it into the provider's
  present view. The locale's lemma says what this gives the node that subscribes: its node
  cache represents the provider's view at every moment and never panics.
\<close>

section \<open>Building up a change\<close>

abbreviation logic :: "Node \<Rightarrow> logic_addr" where
  "logic v \<equiv> logicAddr (nAddr v)"

abbreviation no_change :: MemberInfo where
  "no_change \<equiv> \<lparr>Add = [], Remove = [], Update = []\<rparr>"

definition touched :: "MemberInfo \<Rightarrow> logic_addr set" where
  "touched info = logic ` set (Add info @ Remove info @ Update info)"

text \<open>
  \<open>tally self V info V'\<close>: node \<open>self\<close>, having seen the membership \<open>V\<close>, may be given the change
  \<open>info\<close>, and has seen \<open>V'\<close> then.
\<close>

definition tally :: "logic_addr \<Rightarrow> members \<Rightarrow> MemberInfo \<Rightarrow> members \<Rightarrow> bool" where
  "tally self V info V' \<longleftrightarrow> info_ok self V info \<and> apply_info V info = V'"

lemma view_append [simp]:
  "view_put V (vs @ ws) = view_put (view_put V vs) ws"
  "view_del V (vs @ ws) = view_del (view_del V vs) ws"
  by (simp_all add: view_put_def view_del_def)

lemma view_untouched:
  assumes "a \<notin> logic ` set vs"
  shows "view_put (V(a := x)) vs = (view_put V vs)(a := x)"
    and "view_del (V(a := x)) vs = (view_del V vs)(a := x)"
    and "view_put V vs a = V a" and "view_del V vs a = V a"
  using assms by (induction vs arbitrary: V) (auto simp: fun_upd_twist [of a])

lemma adds_ok_append [simp]: "adds_ok V (vs @ ws) \<longleftrightarrow> adds_ok V vs \<and> adds_ok (view_put V vs) ws"
  by (induction vs arbitrary: V) auto

lemma removes_ok_append [simp]:
  "removes_ok self V (vs @ ws) \<longleftrightarrow> removes_ok self V vs \<and> removes_ok self (view_del V vs) ws"
  by (induction vs arbitrary: V) auto

lemma updates_ok_append [simp]:
  "updates_ok self V (vs @ ws) \<longleftrightarrow> updates_ok self V vs \<and> updates_ok self (view_put V vs) ws"
  by (induction vs arbitrary: V) auto

lemma ok_untouched:
  assumes "a \<notin> logic ` set vs"
  shows "removes_ok self (V(a := x)) vs \<longleftrightarrow> removes_ok self V vs"
    and "updates_ok self (V(a := x)) vs \<longleftrightarrow> updates_ok self V vs"
  using assms by (induction vs arbitrary: V) (auto simp: known_def fun_upd_twist [of a])

lemma touched_simps [simp]:
  "touched no_change = {}"
  "touched (info\<lparr>Add := Add info @ [v]\<rparr>) = insert (logic v) (touched info)"
  "touched (info\<lparr>Remove := Remove info @ [v]\<rparr>) = insert (logic v) (touched info)"
  "touched (info\<lparr>Update := Update info @ [v]\<rparr>) = insert (logic v) (touched info)"
  by (auto simp: touched_def)

lemma apply_untouched: "a \<notin> touched info \<Longrightarrow> apply_info V info a = V a"
  by (simp add: apply_info_def touched_def view_untouched image_Un)

text \<open>A change starts empty and is extended by members it does not mention yet.\<close>

lemma tally_empty: "tally self V no_change V"
  by (simp add: tally_def info_ok_def apply_info_def)

lemma tally_add:
  assumes "tally self V info W" "logic v \<notin> touched info" "W (logic v) = None"
  shows "tally self V (info\<lparr>Add := Add info @ [v]\<rparr>) (W(logic v \<mapsto> v))"
proof -
  have new: "logic v \<notin> logic ` set (Add info)" "logic v \<notin> logic ` set (Remove info)"
    "logic v \<notin> logic ` set (Update info)"
    using assms(2) by (auto simp: touched_def)
  have "V (logic v) = None"
    using assms apply_untouched [OF assms(2), of V] by (simp add: tally_def)
  then show ?thesis
    using assms(1) new by (auto simp: tally_def info_ok_def apply_info_def view_untouched ok_untouched)
qed

lemma tally_remove:
  assumes "tally self V info W" "logic v \<notin> touched info" "known self W v"
  shows "tally self V (info\<lparr>Remove := Remove info @ [v]\<rparr>) (W(logic v := None))"
proof -
  have new: "logic v \<notin> logic ` set (Add info)" "logic v \<notin> logic ` set (Remove info)"
    "logic v \<notin> logic ` set (Update info)"
    using assms(2) by (auto simp: touched_def)
  have "W (logic v) = V (logic v)"
    using assms apply_untouched [OF assms(2), of V] by (simp add: tally_def)
  then have "known self (view_del (view_put V (Add info)) (Remove info)) v"
    using assms(3) new by (simp add: known_def view_untouched)
  then show ?thesis
    using assms(1) new by (auto simp: tally_def info_ok_def apply_info_def view_untouched ok_untouched)
qed

text \<open>An update may come on top of anything, because updates are applied last.\<close>

lemma tally_update:
  assumes "tally self V info W" "known self W v"
  shows "tally self V (info\<lparr>Update := Update info @ [v]\<rparr>) (W(logic v \<mapsto> v))"
  using assms by (auto simp: tally_def info_ok_def apply_info_def)

section \<open>The subscriber's state\<close>

text \<open>
  The fields that the \<open>Membership\<close> structs share. The keys of \<open>alive\<close> and \<open>members\<close> are the
  texts of logical addresses; \<open>cb\<close> says whether a callback is set, \<open>closeFunc\<close> whether a
  cancel function is, and \<open>cancelled\<close> whether it was called. The last two fields are the
  state of the goroutine \<open>watch\<close>: whether it runs, and its local variable.
\<close>

record subscriber =
  alive :: "string set"
  members :: "string \<rightharpoonup> Node"
  cb :: bool
  once :: bool
  closeFunc :: bool
  closed :: bool
  cancelled :: bool
  watching :: bool
  hadError :: bool

definition isAlive :: "'a subscriber_scheme \<Rightarrow> string \<Rightarrow> bool" where
  "isAlive s k \<longleftrightarrow> k \<in> alive s"

text \<open>The literal \<open>membership.Node{Addr: n.Addr, Export: n.Export, Available: b}\<close>.\<close>

definition node_of :: "Node \<Rightarrow> bool \<Rightarrow> Node" where
  "node_of n b = \<lparr>nAddr = nAddr n, Export = Export n, Available = b\<rparr>"

lemma node_of_simps [simp]:
  "nAddr (node_of n b) = nAddr n" "Export (node_of n b) = Export n" "Available (node_of n b) = b"
  "visible self (node_of n b) = visible self n"
  by (simp_all add: node_of_def visible_def)

text \<open>The result of a call that reports changes: its error, the reported changes and the state.\<close>

type_synonym 's reporting = "go_error option \<times> MemberInfo list \<times> 's"

text \<open>The callback is called when it is set and there is a change to report.\<close>

definition report :: "'a subscriber_scheme \<Rightarrow> MemberInfo \<Rightarrow> MemberInfo list" where
  "report s info =
     (if cb s \<and> (length (Add info) > 0 \<or> length (Update info) > 0 \<or> length (Remove info) > 0)
      then [info] else [])"

text \<open>
  \<open>n.Unmarshal\<close> on a fresh \<open>Node\<close>: the node, or \<open>None\<close> if there is an error.
\<close>

definition unmarshal ::
    "(bytes \<Rightarrow> nodeJson \<Rightarrow> go_error + nodeJson) \<Rightarrow> (string \<Rightarrow> go_error + tcp_addr) \<Rightarrow> bytes \<Rightarrow> Node option" where
  "unmarshal json_Unmarshal resolve data =
     (case Node_Unmarshal json_Unmarshal resolve data \<lparr>nAddr = zero_Addr, Export = False, Available = False\<rparr> of
        (None, n) \<Rightarrow> Some n
      | (Some err, n) \<Rightarrow> None)"

text \<open>Going over a Go map visits every key once, in some order.\<close>

definition ranges :: "'k list \<Rightarrow> ('k \<rightharpoonup> 'v) \<Rightarrow> bool" where
  "ranges ks m \<longleftrightarrow> distinct ks \<and> set ks = dom m"

text \<open>The members of a snapshot: the values that unmarshal, under the texts of their addresses.\<close>

fun collect :: "(bytes \<Rightarrow> Node option) \<Rightarrow> bytes list \<Rightarrow> (string \<rightharpoonup> Node) \<Rightarrow> (string \<rightharpoonup> Node)" where
  "collect U [] m = m"
| "collect U (b # bs) m =
     collect U bs (case U b of None \<Rightarrow> m | Some n \<Rightarrow> m(LogicAddr_String (logic n) \<mapsto> n))"

section \<open>What the subscriber shows\<close>

definition view :: "'a subscriber_scheme \<Rightarrow> members" where
  "view s a =
     (case members s (LogicAddr_String a) of
        None \<Rightarrow> None
      | Some n \<Rightarrow> Some (node_of n (isAlive s (LogicAddr_String a) \<and> Available n)))"

text \<open>
  The members are stored under the text of their address, and the export flag of a member
  depends on its address only (\<open>ex\<close>): it is never changed while the member is configured,
  which is the case the node cache cannot handle.
\<close>

definition keyed :: "(logic_addr \<Rightarrow> bool) \<Rightarrow> (string \<rightharpoonup> Node) \<Rightarrow> bool" where
  "keyed ex m \<longleftrightarrow>
     (\<forall>k n. m k = Some n \<longrightarrow> k = LogicAddr_String (logic n) \<and> Export n = ex (logic n))"

definition sub_inv :: "(logic_addr \<Rightarrow> bool) \<Rightarrow> 'a subscriber_scheme \<Rightarrow> bool" where
  "sub_inv ex s \<longleftrightarrow> cb s \<and> keyed ex (members s)"

lemma String_eq [simp]: "LogicAddr_String a = LogicAddr_String b \<longleftrightarrow> a = b"
  using LogicAddr_String_inj by (auto dest: injD)

lemma visible_fixed: "logic v = logic w \<Longrightarrow> Export v = Export w \<Longrightarrow> visible self v = visible self w"
  by (simp add: visible_def)

lemma keyed_simps [simp]:
  "keyed ex Map.empty"
  "keyed ex m \<Longrightarrow> Export n = ex (logic n) \<Longrightarrow> keyed ex (m(LogicAddr_String (logic n) \<mapsto> n))"
  "keyed ex m \<Longrightarrow> keyed ex (m(k := None))"
  by (auto simp: keyed_def)

text \<open>The stored configurations keep to the export flags \<open>ex\<close>.\<close>

definition exports_fixed :: "(logic_addr \<Rightarrow> bool) \<Rightarrow> (bytes \<Rightarrow> Node option) \<Rightarrow> bytes list \<Rightarrow> bool" where
  "exports_fixed ex U bs \<longleftrightarrow> (\<forall>b \<in> set bs. \<forall>n. U b = Some n \<longrightarrow> Export n = ex (logic n))"

lemma keyed_collect: "keyed ex m \<Longrightarrow> exports_fixed ex U bs \<Longrightarrow> keyed ex (collect U bs m)"
  by (induction bs arbitrary: m) (auto simp: exports_fixed_def split: option.split)

lemma keyed_at: "keyed ex m \<Longrightarrow> m (LogicAddr_String a) = Some n \<Longrightarrow> logic n = a \<and> Export n = ex a"
  unfolding keyed_def by (metis String_eq)

lemma view_cong: "alive s = alive s' \<Longrightarrow> members s = members s' \<Longrightarrow> view s = view s'"
  by (rule ext) (simp add: view_def isAlive_def split: option.split)

lemma view_fields [simp]:
  "view (s\<lparr>cb := b\<rparr>) = view s" "view (s\<lparr>once := b\<rparr>) = view s" "view (s\<lparr>closeFunc := b\<rparr>) = view s"
  "view (s\<lparr>watching := b\<rparr>) = view s" "view (s\<lparr>hadError := b\<rparr>) = view s" "view (s\<lparr>cancelled := b\<rparr>) = view s"
  by (rule view_cong; simp)+

lemma view_empty: "members s = Map.empty \<Longrightarrow> view s = Map.empty"
  by (simp add: view_def fun_eq_iff)

text \<open>A member in the view is known, with whatever availability it is reported.\<close>

lemma known_view:
  assumes "keyed ex (members s)" "members s (LogicAddr_String (logic v)) \<noteq> None"
    and "Export v = ex (logic v)"
  shows "known self (view s) v"
proof -
  obtain n where n: "members s (LogicAddr_String (logic v)) = Some n" using assms(2) by blast
  have "visible self v = visible self n"
    using keyed_at [OF assms(1) n] assms(3) by (intro visible_fixed) simp_all
  then show ?thesis using n by (simp add: known_def view_def)
qed

section \<open>One member or one heartbeat changes\<close>

text \<open>A configuration for member \<open>n\<close> arrives.\<close>

definition put_member :: "Node \<Rightarrow> 'a subscriber_scheme \<times> MemberInfo \<Rightarrow> 'a subscriber_scheme \<times> MemberInfo" where
  "put_member n = (\<lambda>(s, nodeinfo).
     let la = LogicAddr_String (logic n);
         nn = node_of n (isAlive s la \<and> Available n)
     in (s\<lparr>members := (members s)(la \<mapsto> n)\<rparr>,
         if members s la \<noteq> None
         then nodeinfo\<lparr>Update := Update nodeinfo @ [nn]\<rparr>
         else nodeinfo\<lparr>Add := Add nodeinfo @ [nn]\<rparr>))"

text \<open>The configuration under a key is deleted.\<close>

definition delete_member :: "string \<Rightarrow> 'a subscriber_scheme \<times> MemberInfo \<Rightarrow> 'a subscriber_scheme \<times> MemberInfo" where
  "delete_member la = (\<lambda>(s, nodeinfo).
     (case members s la of
        None \<Rightarrow> (s, nodeinfo)
      | Some n \<Rightarrow> (s\<lparr>members := (members s)(la := None)\<rparr>,
          nodeinfo\<lparr>Remove := Remove nodeinfo @ [node_of n False]\<rparr>)))"

text \<open>A node shows a sign of life, and a node is no longer alive.\<close>

definition put_alive :: "string \<Rightarrow> 'a subscriber_scheme \<times> MemberInfo \<Rightarrow> 'a subscriber_scheme \<times> MemberInfo" where
  "put_alive k = (\<lambda>(s, nodeinfo).
     if isAlive s k then (s, nodeinfo)
     else (s\<lparr>alive := insert k (alive s)\<rparr>,
           (case members s k of
              None \<Rightarrow> nodeinfo
            | Some n \<Rightarrow> if Available n then nodeinfo\<lparr>Update := Update nodeinfo @ [node_of n True]\<rparr>
                        else nodeinfo)))"

definition delete_alive :: "string \<Rightarrow> 'a subscriber_scheme \<times> MemberInfo \<Rightarrow> 'a subscriber_scheme \<times> MemberInfo" where
  "delete_alive k = (\<lambda>(s, nodeinfo).
     (s\<lparr>alive := alive s - {k}\<rparr>,
      (case members s k of
         None \<Rightarrow> nodeinfo
       | Some n \<Rightarrow> nodeinfo\<lparr>Update := Update nodeinfo @ [node_of n False]\<rparr>)))"

text \<open>Each of them keeps the change in step with the view.\<close>

definition in_step :: "(logic_addr \<Rightarrow> bool) \<Rightarrow> logic_addr \<Rightarrow> members \<Rightarrow> 'a subscriber_scheme \<times> MemberInfo \<Rightarrow> bool" where
  "in_step ex self V = (\<lambda>(s, info). sub_inv ex s \<and> tally self V info (view s))"

lemma view_put_member:
  "view (s\<lparr>members := (members s)(LogicAddr_String (logic n) \<mapsto> n)\<rparr>) =
   (view s)(logic n \<mapsto> node_of n (isAlive s (LogicAddr_String (logic n)) \<and> Available n))"
  by (rule ext) (simp add: view_def isAlive_def split: option.split)

lemma in_step_put_member:
  assumes "in_step ex self V (s, info)" "Export n = ex (logic n)" "logic n \<notin> touched info"
  shows "in_step ex self V (put_member n (s, info))"
proof -
  let ?k = "LogicAddr_String (logic n)" and ?v = "node_of n (isAlive s (LogicAddr_String (logic n)) \<and> Available n)"
  have inv: "cb s" "keyed ex (members s)" and t: "tally self V info (view s)"
    using assms(1) by (simp_all add: in_step_def sub_inv_def)
  have "tally self V (snd (put_member n (s, info))) ((view s)(logic n \<mapsto> ?v))"
  proof (cases "members s ?k")
    case None
    then show ?thesis
      using tally_add [OF t, of ?v] assms(3) by (simp add: put_member_def Let_def view_def)
  next
    case (Some m)
    then have "known self (view s) ?v" using known_view [OF inv(2), of ?v self] assms(2) by simp
    with Some show ?thesis
      using tally_update [OF t, of ?v] by (simp add: put_member_def Let_def)
  qed
  then show ?thesis
    using inv assms(2) by (simp add: in_step_def put_member_def Let_def sub_inv_def view_put_member)
qed

lemma in_step_delete_member:
  assumes "in_step ex self V (s, info)" "\<And>n. members s k = Some n \<Longrightarrow> logic n \<notin> touched info"
  shows "in_step ex self V (delete_member k (s, info))"
proof (cases "members s k")
  case None
  then show ?thesis using assms(1) by (simp add: delete_member_def)
next
  case (Some n)
  have inv: "cb s" "keyed ex (members s)" and t: "tally self V info (view s)"
    using assms(1) by (simp_all add: in_step_def sub_inv_def)
  have k: "k = LogicAddr_String (logic n)" "Export n = ex (logic n)"
    using inv(2) Some by (auto simp: keyed_def)
  have "known self (view s) (node_of n False)"
    using known_view [OF inv(2), of "node_of n False" self] Some k by simp
  from tally_remove [OF t _ this]
  have "tally self V (info\<lparr>Remove := Remove info @ [node_of n False]\<rparr>) ((view s)(logic n := None))"
    using assms(2) [OF Some] by simp
  moreover have "view (s\<lparr>members := (members s)(k := None)\<rparr>) = (view s)(logic n := None)"
    by (rule ext) (simp add: view_def isAlive_def k split: option.split)
  ultimately show ?thesis
    using Some inv by (simp add: delete_member_def in_step_def sub_inv_def)
qed

text \<open>The other fields stay as they are.\<close>

lemma changes_keep [simp]:
  "once (fst (put_member n x)) = once (fst x)" "once (fst (delete_member k x)) = once (fst x)"
  "once (fst (put_alive k x)) = once (fst x)" "once (fst (delete_alive k x)) = once (fst x)"
  "watching (fst (put_member n x)) = watching (fst x)" "watching (fst (delete_member k x)) = watching (fst x)"
  "watching (fst (put_alive k x)) = watching (fst x)" "watching (fst (delete_alive k x)) = watching (fst x)"
  "subscriber.more (fst (put_member n x)) = subscriber.more (fst x)"
  "subscriber.more (fst (delete_member k x)) = subscriber.more (fst x)"
  "subscriber.more (fst (put_alive k x)) = subscriber.more (fst x)"
  "subscriber.more (fst (delete_alive k x)) = subscriber.more (fst x)"
  by (auto simp: put_member_def delete_member_def put_alive_def delete_alive_def Let_def
      split: prod.split option.split)

text \<open>The view when only the sign of life under one key changes.\<close>

lemma view_alive:
  assumes "keyed ex (members s)" "members s k = Some n"
  shows "view (s\<lparr>alive := insert k (alive s)\<rparr>) = (view s)(logic n \<mapsto> node_of n (Available n))"
    and "view (s\<lparr>alive := alive s - {k}\<rparr>) = (view s)(logic n \<mapsto> node_of n False)"
proof -
  have k: "k = LogicAddr_String (logic n)" using assms by (auto simp: keyed_def)
  show "view (s\<lparr>alive := insert k (alive s)\<rparr>) = (view s)(logic n \<mapsto> node_of n (Available n))"
    "view (s\<lparr>alive := alive s - {k}\<rparr>) = (view s)(logic n \<mapsto> node_of n False)"
    using assms(2) by (auto simp: view_def isAlive_def k fun_eq_iff split: option.split)
qed

lemma view_alive_unknown:
  assumes "members s k = None"
  shows "view (s\<lparr>alive := insert k (alive s)\<rparr>) = view s" "view (s\<lparr>alive := alive s - {k}\<rparr>) = view s"
proof -
  have "view (s\<lparr>alive := insert k (alive s)\<rparr>) a = view s a \<and> view (s\<lparr>alive := alive s - {k}\<rparr>) a = view s a" for a
    using assms by (cases "LogicAddr_String a = k") (auto simp: view_def isAlive_def split: option.split)
  then show "view (s\<lparr>alive := insert k (alive s)\<rparr>) = view s" "view (s\<lparr>alive := alive s - {k}\<rparr>) = view s"
    by (simp_all add: fun_eq_iff)
qed

lemma in_step_alive:
  assumes "in_step ex self V (s, info)"
  shows "in_step ex self V (put_alive k (s, info))" "in_step ex self V (delete_alive k (s, info))"
proof -
  have inv: "cb s" "keyed ex (members s)" and t: "tally self V info (view s)"
    using assms(1) by (simp_all add: in_step_def sub_inv_def)
  have upd: "tally self V (info\<lparr>Update := Update info @ [node_of n b]\<rparr>) ((view s)(logic n \<mapsto> node_of n b))"
    if "members s k = Some n" for n b
  proof -
    have "known self (view s) (node_of n b)"
      using known_view [OF inv(2), of "node_of n b" self] inv(2) that by (auto simp: keyed_def)
    from tally_update [OF t this] show ?thesis by simp
  qed
  have same: "(view s)(logic n \<mapsto> node_of n False) = view s"
    if "members s k = Some n" "\<not> Available n" for n
    using that inv(2) by (auto simp: view_def keyed_def fun_eq_iff)
  show "in_step ex self V (delete_alive k (s, info))"
    using inv t upd
    by (auto simp: delete_alive_def in_step_def sub_inv_def view_alive view_alive_unknown split: option.split)
  show "in_step ex self V (put_alive k (s, info))"
    using inv t upd same assms
    by (auto simp: put_alive_def in_step_def sub_inv_def view_alive view_alive_unknown split: option.split)
qed

lemma alive_change_in_step:
  assumes "in_step ex self V (s, info)"
    and "put_alive k (s, info) = (s', info') \<or> delete_alive k (s, info) = (s', info')"
  shows "in_step ex self V (s', info') \<and> once s' = once s \<and> subscriber.more s' = subscriber.more s"
  using in_step_alive [OF assms(1), of k] assms(2) changes_keep(3,4,11,12) [of k "(s, info)"]
  by (metis fst_conv)

lemma in_step_start: "sub_inv ex s \<Longrightarrow> in_step ex self (view s) (s, no_change)"
  using tally_empty by (simp add: in_step_def)

section \<open>A whole snapshot is compared with the subscriber's maps\<close>

text \<open>
  The loops of \<open>getMembers\<close>: over the members that were known (\<open>gone\<close> says what is reported as
  their availability) and over the members of the snapshot.
\<close>

fun remove_loop ::
    "'a subscriber_scheme \<Rightarrow> (string \<Rightarrow> Node \<Rightarrow> bool) \<Rightarrow> (string \<rightharpoonup> Node) \<Rightarrow> string list \<Rightarrow> MemberInfo \<Rightarrow> MemberInfo" where
  "remove_loop s gone current [] nodeinfo = nodeinfo"
| "remove_loop s gone current (k # ks) nodeinfo =
     remove_loop s gone current ks
       (case members s k of
          None \<Rightarrow> nodeinfo
        | Some n \<Rightarrow>
            if current k = None then nodeinfo\<lparr>Remove := Remove nodeinfo @ [node_of n (gone k n)]\<rparr>
            else nodeinfo)"

fun current_loop :: "'a subscriber_scheme \<Rightarrow> (string \<rightharpoonup> Node) \<Rightarrow> string list \<Rightarrow> MemberInfo \<Rightarrow> MemberInfo" where
  "current_loop s current [] nodeinfo = nodeinfo"
| "current_loop s current (k # ks) nodeinfo =
     current_loop s current ks
       (case current k of
          None \<Rightarrow> nodeinfo
        | Some n \<Rightarrow>
            let nn = node_of n (isAlive s k \<and> Available n)
            in if members s k \<noteq> None then nodeinfo\<lparr>Update := Update nodeinfo @ [nn]\<rparr>
               else nodeinfo\<lparr>Add := Add nodeinfo @ [nn]\<rparr>)"

text \<open>The loops of \<open>getAlives\<close>: over the snapshot and over the nodes that were alive.\<close>

fun alive_loop :: "'a subscriber_scheme \<Rightarrow> string list \<Rightarrow> MemberInfo \<Rightarrow> MemberInfo" where
  "alive_loop s [] nodeinfo = nodeinfo"
| "alive_loop s (k # ks) nodeinfo =
     alive_loop s ks
       (if isAlive s k then nodeinfo
        else (case members s k of
                None \<Rightarrow> nodeinfo
              | Some n \<Rightarrow>
                  if Available n then nodeinfo\<lparr>Update := Update nodeinfo @ [node_of n True]\<rparr>
                  else nodeinfo))"

fun dead_loop :: "'a subscriber_scheme \<Rightarrow> string set \<Rightarrow> string list \<Rightarrow> MemberInfo \<Rightarrow> MemberInfo" where
  "dead_loop s current [] nodeinfo = nodeinfo"
| "dead_loop s current (k # ks) nodeinfo =
     dead_loop s current ks
       (if k \<in> current then nodeinfo
        else (case members s k of
                None \<Rightarrow> nodeinfo
              | Some n \<Rightarrow> nodeinfo\<lparr>Update := Update nodeinfo @ [node_of n False]\<rparr>))"

text \<open>
  Each loop does what the single changes would do one after the other, on a state in which
  the keys gone through so far are already up to date.
\<close>

lemma remove_loop_in_step:
  assumes "in_step ex self V (s\<lparr>members := m\<rparr>, info)" "distinct ks" "\<forall>k \<in> set ks. m k = members s k"
    and "\<forall>a \<in> touched info. LogicAddr_String a \<notin> set ks \<and> current (LogicAddr_String a) = None"
  shows "in_step ex self V (s\<lparr>members := m |` (- {k \<in> set ks. current k = None})\<rparr>, remove_loop s gone current ks info) \<and>
    (\<forall>a \<in> touched (remove_loop s gone current ks info). current (LogicAddr_String a) = None)"
  using assms
proof (induction ks arbitrary: m info)
  case Nil
  then show ?case by (simp add: restrict_map_def)
next
  case (Cons k ks)
  show ?case
  proof (cases "members s k \<noteq> None \<and> current k = None")
    case False
    then have "m |` (- {q \<in> set (k # ks). current q = None}) = m |` (- {q \<in> set ks. current q = None})"
      using Cons.prems(2,3) by (auto simp: restrict_map_def fun_eq_iff)
    with False Cons.IH [OF Cons.prems(1)] Cons.prems(2-4) show ?thesis by (auto split: option.split)
  next
    case True
    then obtain n where n: "members s k = Some n" by blast
    define m' where "m' = m(k := None)"
    let ?info = "info\<lparr>Remove := Remove info @ [node_of n (gone k n)]\<rparr>"
    have inv: "keyed ex m" "sub_inv ex (s\<lparr>members := m\<rparr>)" and t: "tally self V info (view (s\<lparr>members := m\<rparr>))"
      using Cons.prems(1) by (simp_all add: in_step_def sub_inv_def)
    have mk: "m k = Some n" using n Cons.prems(3) by simp
    have k: "k = LogicAddr_String (logic n)" "Export n = ex (logic n)" using inv mk by (auto simp: keyed_def)
    have "known self (view (s\<lparr>members := m\<rparr>)) (node_of n (gone k n))"
      using known_view [of ex "s\<lparr>members := m\<rparr>" "node_of n (gone k n)" self] inv mk k by simp
    moreover have "logic n \<notin> touched info" using Cons.prems(4) k by auto
    ultimately have "tally self V ?info ((view (s\<lparr>members := m\<rparr>))(logic n := None))"
      using tally_remove [OF t, of "node_of n (gone k n)"] by simp
    moreover have "(view (s\<lparr>members := m\<rparr>))(logic n := None) = view (s\<lparr>members := m'\<rparr>)"
      by (rule ext) (simp add: view_def isAlive_def k m'_def split: option.split)
    ultimately have 1: "in_step ex self V (s\<lparr>members := m'\<rparr>, ?info)"
      using inv by (simp add: in_step_def sub_inv_def m'_def)
    have 2: "\<forall>a \<in> touched ?info. LogicAddr_String a \<notin> set ks \<and> current (LogicAddr_String a) = None"
      using Cons.prems(2,4) True k by auto
    have 3: "m |` (- {q \<in> set (k # ks). current q = None}) = m' |` (- {q \<in> set ks. current q = None})"
      using True by (auto simp: m'_def restrict_map_def fun_eq_iff)
    have 4: "\<forall>q \<in> set ks. m' q = members s q" using Cons.prems(2,3) by (auto simp: m'_def)
    have "distinct ks" using Cons.prems(2) by simp
    from Cons.IH [OF 1 this 4 2] show ?thesis unfolding 3 using True n by simp
  qed
qed

lemma current_loop_in_step:
  assumes "in_step ex self V (s\<lparr>members := m\<rparr>, info)" "distinct ks" "\<forall>k \<in> set ks. m k = members s k"
    and "keyed ex current" "\<forall>a \<in> touched info. LogicAddr_String a \<notin> set ks"
  shows "in_step ex self V (s\<lparr>members := m ++ (current |` set ks)\<rparr>, current_loop s current ks info)"
  using assms
proof (induction ks arbitrary: m info)
  case Nil
  then show ?case by simp
next
  case (Cons k ks)
  show ?case
  proof (cases "current k")
    case None
    then have "m ++ (current |` set (k # ks)) = m ++ (current |` set ks)"
      by (auto simp: map_add_def restrict_map_def fun_eq_iff)
    with None Cons.IH [OF Cons.prems(1)] Cons.prems(2-5) show ?thesis by simp
  next
    case (Some n)
    then have k: "k = LogicAddr_String (logic n)" "Export n = ex (logic n)"
      using Cons.prems(4) by (auto simp: keyed_def)
    define m' where "m' = m(k \<mapsto> n)"
    let ?s = "s\<lparr>members := m\<rparr>"
    have mk: "m k = members s k" using Cons.prems(3) by simp
    have "in_step ex self V (put_member n (?s, info))"
      using in_step_put_member [OF Cons.prems(1) k(2)] Cons.prems(5) k(1) by auto
    moreover obtain info' where p: "put_member n (?s, info) = (s\<lparr>members := m'\<rparr>, info')"
      by (simp add: put_member_def Let_def k m'_def)
    ultimately have 1: "in_step ex self V (s\<lparr>members := m'\<rparr>, info')" by simp
    have 2: "current_loop s current (k # ks) info = current_loop s current ks info'"
      using p Some mk by (auto simp: put_member_def Let_def k isAlive_def)
    have 3: "\<forall>a \<in> touched info'. LogicAddr_String a \<notin> set ks"
      using p Cons.prems(2,5) k by (auto simp: put_member_def Let_def split: if_splits)
    have 4: "m ++ (current |` set (k # ks)) = m' ++ (current |` set ks)"
      using Some Cons.prems(2) by (auto simp: m'_def map_add_def restrict_map_def fun_eq_iff split: option.split)
    have 5: "distinct ks" "\<forall>q \<in> set ks. m' q = members s q" using Cons.prems(2,3) by (auto simp: m'_def)
    from Cons.IH [OF 1 5 Cons.prems(4) 3] show ?thesis unfolding 2 4 .
  qed
qed

lemma members_snapshot:
  assumes "sub_inv ex s" "ranges ks (members s)" "ranges ks' current" "keyed ex current"
  shows "in_step ex self (view s) (s\<lparr>members := current\<rparr>,
    current_loop s current ks' (remove_loop s gone current ks no_change))"
proof -
  let ?m = "members s |` (- {k \<in> set ks. current k = None})"
  let ?info = "remove_loop s gone current ks no_change"
  have "in_step ex self (view s) (s\<lparr>members := members s\<rparr>, no_change)"
    using assms(1) tally_empty by (simp add: in_step_def)
  from remove_loop_in_step [OF this, of ks current gone] assms(2)
  have 1: "in_step ex self (view s) (s\<lparr>members := ?m\<rparr>, ?info)"
    and 2: "\<forall>a \<in> touched ?info. current (LogicAddr_String a) = None"
    by (simp_all add: ranges_def)
  have 3: "\<forall>k \<in> set ks'. ?m k = members s k" "\<forall>a \<in> touched ?info. LogicAddr_String a \<notin> set ks'"
    using assms(3) 2 by (auto simp: ranges_def restrict_map_def)
  have "?m ++ (current |` set ks') = current"
    using assms(2,3) by (auto simp: ranges_def map_add_def restrict_map_def fun_eq_iff dom_def split: option.split)
  moreover have "distinct ks'" using assms(3) by (simp add: ranges_def)
  ultimately show ?thesis using current_loop_in_step [OF 1 _ 3(1) assms(4) 3(2)] by simp
qed

lemma alive_loop_in_step:
  assumes "in_step ex self V (s\<lparr>alive := A\<rparr>, info)" "distinct ks" "\<forall>k \<in> set ks. k \<in> A \<longleftrightarrow> isAlive s k"
  shows "in_step ex self V (s\<lparr>alive := A \<union> set ks\<rparr>, alive_loop s ks info)"
  using assms
proof (induction ks arbitrary: A info)
  case Nil
  then show ?case by simp
next
  case (Cons k ks)
  obtain info' where p: "put_alive k (s\<lparr>alive := A\<rparr>, info) = (s\<lparr>alive := insert k A\<rparr>, info')"
    "alive_loop s (k # ks) info = alive_loop s ks info'"
    using Cons.prems(3) by (auto simp: put_alive_def isAlive_def insert_absorb split: option.split)
  have "in_step ex self V (s\<lparr>alive := insert k A\<rparr>, info')"
    using in_step_alive(1) [OF Cons.prems(1), of k] p(1) by simp
  from Cons.IH [OF this] Cons.prems(2,3) p(2) show ?case by auto
qed

lemma dead_loop_in_step:
  assumes "in_step ex self V (s\<lparr>alive := A\<rparr>, info)"
  shows "in_step ex self V (s\<lparr>alive := A - (set ks - current)\<rparr>, dead_loop s current ks info)"
  using assms
proof (induction ks arbitrary: A info)
  case Nil
  then show ?case by simp
next
  case (Cons k ks)
  show ?case
  proof (cases "k \<in> current")
    case True
    then have "A - (set (k # ks) - current) = A - (set ks - current)" by auto
    with True Cons.IH [OF Cons.prems] show ?thesis by simp
  next
    case False
    obtain info' where p: "delete_alive k (s\<lparr>alive := A\<rparr>, info) = (s\<lparr>alive := A - {k}\<rparr>, info')"
      "dead_loop s current (k # ks) info = dead_loop s current ks info'"
      using False by (auto simp: delete_alive_def split: option.split)
    have "in_step ex self V (s\<lparr>alive := A - {k}\<rparr>, info')"
      using in_step_alive(2) [OF Cons.prems, of k] p(1) by simp
    moreover have "A - {k} - (set ks - current) = A - (set (k # ks) - current)" using False by auto
    ultimately show ?thesis using Cons.IH [of "A - {k}" info'] p(2) by simp
  qed
qed

lemma alives_snapshot:
  assumes "sub_inv ex s" "distinct ks" "set ks = current" "set ks' = alive s"
  shows "in_step ex self (view s) (s\<lparr>alive := current\<rparr>, dead_loop s current ks' (alive_loop s ks no_change))"
proof -
  have "in_step ex self (view s) (s\<lparr>alive := alive s\<rparr>, no_change)"
    using assms(1) tally_empty by (simp add: in_step_def)
  from alive_loop_in_step [OF this assms(2)]
  have "in_step ex self (view s) (s\<lparr>alive := alive s \<union> set ks\<rparr>, alive_loop s ks no_change)"
    by (simp add: isAlive_def)
  from dead_loop_in_step [OF this, of ks' current]
  moreover have "alive s \<union> set ks - (set ks' - current) = current" using assms(3,4) by auto
  ultimately show ?thesis by simp
qed

section \<open>The contract of a provider\<close>

text \<open>\<open>reports self V infos V'\<close>: the changes \<open>infos\<close> may be given one after the other and lead to \<open>V'\<close>.\<close>

fun reports :: "logic_addr \<Rightarrow> members \<Rightarrow> MemberInfo list \<Rightarrow> members \<Rightarrow> bool" where
  "reports self V [] V' \<longleftrightarrow> V = V'"
| "reports self V (info # infos) V' \<longleftrightarrow> info_ok self V info \<and> reports self (apply_info V info) infos V'"

lemma reports_append: "reports self V is W \<Longrightarrow> reports self W js X \<Longrightarrow> reports self V (is @ js) X"
  by (induction "is" arbitrary: V) auto

lemma report_reports:
  assumes "in_step ex self V (s, info)"
  shows "reports self V (report s info) (view s)"
proof -
  have "info = no_change" if "Add info = []" "Remove info = []" "Update info = []"
    using that by (cases info) simp
  then show ?thesis using assms by (auto simp: in_step_def tally_def report_def sub_inv_def apply_info_def)
qed

text \<open>A call of a subscribed provider that reports what it changes.\<close>

definition good :: "(logic_addr \<Rightarrow> bool) \<Rightarrow> 'a subscriber_scheme \<Rightarrow> MemberInfo list \<Rightarrow> 'a subscriber_scheme \<Rightarrow> bool" where
  "good ex s infos s' \<longleftrightarrow> sub_inv ex s' \<and> once s' = once s \<and> (\<forall>self. reports self (view s) infos (view s'))"

lemma good_refl: "sub_inv ex s \<Longrightarrow> good ex s [] s"
  by (simp add: good_def)

lemma good_fields [simp]:
  "good ex s infos (s'\<lparr>watching := b\<rparr>) = good ex s infos s'"
  "good ex s infos (s'\<lparr>hadError := b\<rparr>) = good ex s infos s'"
  "good ex s infos (s'\<lparr>cancelled := b\<rparr>) = good ex s infos s'"
  by (simp_all add: good_def sub_inv_def)

lemma good_same:
  "good ex s infos s' \<Longrightarrow> members t = members s' \<Longrightarrow> alive t = alive s' \<Longrightarrow> cb t = cb s' \<Longrightarrow> once t = once s' \<Longrightarrow>
   good ex s infos t"
  using view_cong [of t s'] by (simp add: good_def sub_inv_def)

lemma good_trans: "good ex s is s' \<Longrightarrow> good ex s' js s'' \<Longrightarrow> good ex s (is @ js) s''"
  unfolding good_def using reports_append by metis

lemma good_change:
  assumes "\<And>self. in_step ex self (view s) (s', info)" "once s' = once s"
  shows "good ex s (report s' info) s'"
  using assms report_reports by (fastforce simp: good_def in_step_def)

lemma good_members:
  assumes "sub_inv ex s" "ranges ks (members s)" "ranges ks' current" "keyed ex current"
  shows "good ex s (report (s\<lparr>members := current\<rparr>)
    (current_loop s current ks' (remove_loop s gone current ks no_change))) (s\<lparr>members := current\<rparr>)"
  by (rule good_change [OF members_snapshot [OF assms]]) simp

lemma good_alives:
  assumes "sub_inv ex s" "distinct ks" "set ks = current" "set ks' = alive s"
  shows "good ex s (report (s\<lparr>alive := current\<rparr>)
    (dead_loop s current ks' (alive_loop s ks no_change))) (s\<lparr>alive := current\<rparr>)"
  by (rule good_change [OF alives_snapshot [OF assms]]) simp

text \<open>
  Between creation and the end of the subscription: without a callback nothing is known and
  nothing is watched.
\<close>

definition life_ok :: "(logic_addr \<Rightarrow> bool) \<Rightarrow> 'a subscriber_scheme \<Rightarrow> bool" where
  "life_ok ex s \<longleftrightarrow> keyed ex (members s) \<and> (cb s \<longrightarrow> once s) \<and>
     (\<not> cb s \<longrightarrow> members s = Map.empty \<and> \<not> watching s)"

lemma life_ok_watching: "life_ok ex s \<Longrightarrow> watching s \<Longrightarrow> sub_inv ex s"
  by (auto simp: life_ok_def sub_inv_def)

lemma life_ok_good: "good ex s infos s' \<Longrightarrow> once s \<Longrightarrow> life_ok ex s'"
  by (simp add: good_def life_ok_def sub_inv_def)

text \<open>
  The subscriber's side: the callback that \<open>Node.Start\<close> registers hands every change to the
  node cache, until the node is told to stop.
\<close>

fun feed :: "MemberInfo list \<Rightarrow> nodeCache \<Rightarrow> node list \<Rightarrow> (bool \<times> nodeCache \<times> node list) option" where
  "feed [] C H = Some (False, C, H)"
| "feed (info # infos) C H =
     (case onNodeInfoUpdate info C H of
        None \<Rightarrow> None
      | Some (C, H, evs) \<Rightarrow> if StopSelf \<in> set evs then Some (True, C, H) else feed infos C H)"

lemma feed_reports:
  assumes "cache_rel V C H" "reports (localAddr C) V infos V'"
  shows "\<exists>stop C' H'. feed infos C H = Some (stop, C', H') \<and> (\<not> stop \<longrightarrow> cache_rel V' C' H')"
  using assms
proof (induction infos arbitrary: V C H)
  case Nil
  then show ?case by auto
next
  case (Cons info infos)
  have "info_ok (localAddr C) V info" "reports (localAddr C) (apply_info V info) infos V'" using Cons.prems(2) by simp_all
  with onNodeInfoUpdate_rel [OF Cons.prems(1)] Cons.IH show ?case
    by (fastforce split: option.split)
qed

text \<open>Any number of steps of a provider, with all changes reported on the way.\<close>

inductive steps ::
    "('s \<Rightarrow> MemberInfo list \<Rightarrow> 's \<Rightarrow> bool) \<Rightarrow> 's \<Rightarrow> MemberInfo list \<Rightarrow> 's \<Rightarrow> bool" for step s where
  steps_refl: "steps step s [] s"
| steps_step: "steps step s infos s' \<Longrightarrow> step s' infos' s'' \<Longrightarrow> steps step s (infos @ infos') s''"

lemma steps_one:
  assumes "step s infos s'"
  shows "steps step s infos s'"
  using steps_step [OF steps_refl, of step s infos s'] assms by simp

locale provider =
  fixes step :: "'s \<Rightarrow> MemberInfo list \<Rightarrow> 's \<Rightarrow> bool"
    and shown :: "'s \<Rightarrow> members"
    and inv :: "'s \<Rightarrow> bool"
  assumes inv_step: "inv s \<Longrightarrow> step s infos s' \<Longrightarrow> inv s'"
    and reports_step: "inv s \<Longrightarrow> step s infos s' \<Longrightarrow> reports self (shown s) infos (shown s')"
begin

lemma steps_reports: "steps step s infos s' \<Longrightarrow> inv s \<Longrightarrow> inv s' \<and> reports self (shown s) infos (shown s')"
  by (induction rule: steps.induct) (auto intro: inv_step reports_step reports_append)

lemma cache_follows:
  assumes "steps step s infos s'" "inv s" "shown s = Map.empty"
  shows "\<exists>stop C H. feed infos (new_cache self) [] = Some (stop, C, H) \<and> (\<not> stop \<longrightarrow> cache_rel (shown s') C H)"
proof -
  have "reports (localAddr (new_cache self)) Map.empty infos (shown s')"
    using steps_reports [OF assms(1,2)] assms(3) by simp
  from feed_reports [OF cache_rel_new this] show ?thesis .
qed

end

text \<open>A concrete decoder of configurations, for examples: every value is that of one node.\<close>

definition demo_unmarshal :: "bytes \<Rightarrow> nodeJson \<Rightarrow> go_error + nodeJson" where
  "demo_unmarshal b j = Inr \<lparr>LogicAddr = LogicAddr_String 526339, NetAddr = ''127.0.0.1:8110'',
     jExport = False, jAvailable = True\<rparr>"

lemma demo_unmarshal_node: "unmarshal demo_unmarshal (\<lambda>s. Inr (TCPAddr s)) b = Some demo_node"
  by (simp add: unmarshal_def Node_Unmarshal_def demo_unmarshal_def demo_node_def MakeAddr_def
      MakeLogicAddr_String field_eqs HarbarType_def Let_def)

end
