(* ===== verification/Etcd.thy ===== *)
theory Etcd
  imports Provider
begin

text \<open>
  The etcd provider (\<open>membership/etcd/etcd.go\<close>): snapshots of the configured members and of
  the live nodes, the handlers of watch events, the watch loop, subscribing and closing, and
  the operations of a configuration tool.

  The etcd client is outside the repository: what its calls return (errors, key-value pairs,
  watch responses) are arguments, and what the code asks it to do is returned as a list of
  requests. A Go map is gone through in an order that is an argument as well.
\<close>

record kv =
  Key :: string
  Value :: bytes

record etcd = subscriber +
  PrefixConfig :: string
  PrefixAlive :: string
  etcdCli :: bool
  cliClosed :: bool

text \<open>\<open>init\<close>; \<open>cliErr\<close> is the error of \<open>clientv3.New\<close>.\<close>

definition etcd_init :: "go_error option \<Rightarrow> etcd \<Rightarrow> go_error option \<times> etcd" where
  "etcd_init cliErr s =
     (if etcdCli s then (None, s)
      else (case cliErr of Some err \<Rightarrow> (Some err, s) | None \<Rightarrow> (None, s\<lparr>etcdCli := True\<rparr>)))"

definition etcd_getMembers ::
    "(bytes \<Rightarrow> Node option) \<Rightarrow> go_error + kv list \<Rightarrow> string list \<times> string list \<Rightarrow> etcd \<Rightarrow> etcd reporting" where
  "etcd_getMembers U resp order s =
     (case resp of
        Inl err \<Rightarrow> (Some err, [], s)
      | Inr kvs \<Rightarrow>
          let currentMembers = collect U (map Value kvs) Map.empty;
              nodeinfo = remove_loop s (\<lambda>k n. isAlive s k \<and> Available n) currentMembers (fst order) no_change;
              nodeinfo = current_loop s currentMembers (snd order) nodeinfo;
              s = s\<lparr>members := currentMembers\<rparr>
          in (None, report s nodeinfo, s))"

text \<open>\<open>string(key)[len(prefix):]\<close>, which panics when the key is shorter than the prefix.\<close>

definition after_prefix :: "string \<Rightarrow> string \<Rightarrow> string option" where
  "after_prefix prefix key = (if length prefix \<le> length key then Some (drop (length prefix) key) else None)"

definition etcd_getAlives ::
    "go_error + kv list \<Rightarrow> string list \<times> string list \<Rightarrow> etcd \<Rightarrow> etcd reporting option" where
  "etcd_getAlives resp order s =
     (case resp of
        Inl err \<Rightarrow> Some (Some err, [], s)
      | Inr kvs \<Rightarrow>
          (case those (map (\<lambda>kv. after_prefix (PrefixAlive s) (Key kv)) kvs) of
             None \<Rightarrow> None
           | Some names \<Rightarrow>
               let nodeinfo = alive_loop s (fst order) no_change;
                   nodeinfo = dead_loop s (set names) (snd order) nodeinfo;
                   s = s\<lparr>alive := set names\<rparr>
               in Some (None, report s nodeinfo, s)))"

section \<open>Watch events\<close>

datatype etcd_event = EventTypePut kv | EventTypeDelete kv

fun config_event :: "(bytes \<Rightarrow> Node option) \<Rightarrow> etcd_event \<Rightarrow> etcd \<times> MemberInfo \<Rightarrow> (etcd \<times> MemberInfo) option" where
  "config_event U (EventTypePut kv) (s, nodeinfo) =
     Some (case U (Value kv) of None \<Rightarrow> (s, nodeinfo) | Some n \<Rightarrow> put_member n (s, nodeinfo))"
| "config_event U (EventTypeDelete kv) (s, nodeinfo) =
     (case after_prefix (PrefixConfig s) (Key kv) of
        None \<Rightarrow> None
      | Some la \<Rightarrow> Some (delete_member la (s, nodeinfo)))"

fun alive_event :: "etcd_event \<Rightarrow> etcd \<times> MemberInfo \<Rightarrow> (etcd \<times> MemberInfo) option" where
  "alive_event (EventTypePut kv) (s, nodeinfo) =
     (case after_prefix (PrefixAlive s) (Key kv) of
        None \<Rightarrow> None
      | Some k \<Rightarrow> Some (put_alive k (s, nodeinfo)))"
| "alive_event (EventTypeDelete kv) (s, nodeinfo) =
     (case after_prefix (PrefixAlive s) (Key kv) of
        None \<Rightarrow> None
      | Some k \<Rightarrow> Some (if isAlive s k then delete_alive k (s, nodeinfo) else (s, nodeinfo)))"

fun each :: "('e \<Rightarrow> 'x \<Rightarrow> 'x option) \<Rightarrow> 'e list \<Rightarrow> 'x \<Rightarrow> 'x option" where
  "each f [] x = Some x"
| "each f (e # es) x = (case f e x of None \<Rightarrow> None | Some x \<Rightarrow> each f es x)"

definition handleConfigEvents ::
    "(bytes \<Rightarrow> Node option) \<Rightarrow> etcd_event list \<Rightarrow> etcd \<Rightarrow> (MemberInfo list \<times> etcd) option" where
  "handleConfigEvents U events s =
     (case each (config_event U) events (s, no_change) of
        None \<Rightarrow> None
      | Some (s, nodeinfo) \<Rightarrow> Some (report s nodeinfo, s))"

definition handleAliveEvents :: "etcd_event list \<Rightarrow> etcd \<Rightarrow> (MemberInfo list \<times> etcd) option" where
  "handleAliveEvents events s =
     (case each alive_event events (s, no_change) of
        None \<Rightarrow> None
      | Some (s, nodeinfo) \<Rightarrow> Some (report s nodeinfo, s))"

text \<open>
  What one round of the select in \<open>watch\<close> receives: from either watch channel that it is
  closed, a response with an error or events; a tick, with the answers to the two requests
  it makes and the orders of their loops; or that the context is done.
\<close>

datatype 'e etcd_received = Closed | WatchErr go_error | Events 'e

datatype etcd_select =
    ConfigWatch "etcd_event list etcd_received"
  | AliveWatch "etcd_event list etcd_received"
  | Tick "go_error + kv list" "string list \<times> string list" "go_error + kv list" "string list \<times> string list"
  | CtxDone

definition etcd_watch ::
    "(bytes \<Rightarrow> Node option) \<Rightarrow> etcd_select \<Rightarrow> etcd \<Rightarrow> (MemberInfo list \<times> etcd) option" where
  "etcd_watch U sel s =
     (case sel of
        ConfigWatch Closed \<Rightarrow> Some ([], s\<lparr>watching := False\<rparr>)
      | ConfigWatch (WatchErr err) \<Rightarrow> Some ([], s\<lparr>hadError := True\<rparr>)
      | ConfigWatch (Events events) \<Rightarrow> handleConfigEvents U events s
      | AliveWatch Closed \<Rightarrow> Some ([], s\<lparr>watching := False\<rparr>)
      | AliveWatch (WatchErr err) \<Rightarrow> Some ([], s\<lparr>hadError := True\<rparr>)
      | AliveWatch (Events events) \<Rightarrow> handleAliveEvents events s
      | Tick resp1 order1 resp2 order2 \<Rightarrow>
          let (err1, infos1, s) = etcd_getMembers U resp1 order1 s
          in (case etcd_getAlives resp2 order2 s of
                None \<Rightarrow> None
              | Some (err2, infos2, s) \<Rightarrow>
                  let s = (if err1 \<noteq> None \<or> err2 \<noteq> None then s\<lparr>hadError := True\<rparr> else s);
                      s = (if hadError s \<and> err1 = None \<and> err2 = None then s\<lparr>hadError := False\<rparr> else s)
                  in Some (infos1 @ infos2, s))
      | CtxDone \<Rightarrow> Some ([], s\<lparr>watching := False\<rparr>))"

section \<open>Subscribing and closing\<close>

text \<open>
  \<open>callback\<close> says whether the given callback is not nil. After \<open>cancel()\<close> the context is
  done (\<open>cancelled\<close>).
\<close>

definition etcd_Subscribe ::
    "(bytes \<Rightarrow> Node option) \<Rightarrow> bool \<Rightarrow> go_error option \<Rightarrow> go_error + kv list \<Rightarrow> string list \<times> string list \<Rightarrow>
     go_error + kv list \<Rightarrow> string list \<times> string list \<Rightarrow> etcd \<Rightarrow> etcd reporting option" where
  "etcd_Subscribe U callback cliErr resp1 order1 resp2 order2 s =
     (if once s then Some (None, [], s)
      else
        (case etcd_init cliErr (s\<lparr>once := True, alive := {}, members := Map.empty\<rparr>) of
           (Some err, s) \<Rightarrow> Some (Some err, [], s)
         | (None, s) \<Rightarrow>
             (case etcd_getMembers U resp1 order1 (s\<lparr>cb := callback, closeFunc := True\<rparr>) of
                (Some err, infos, s) \<Rightarrow> Some (Some err, infos, s\<lparr>cancelled := True, cliClosed := True\<rparr>)
              | (None, infos1, s) \<Rightarrow>
                  (case etcd_getAlives resp2 order2 s of
                     None \<Rightarrow> None
                   | Some (Some err, infos2, s) \<Rightarrow>
                       Some (Some err, infos1 @ infos2, s\<lparr>cancelled := True, cliClosed := True\<rparr>)
                   | Some (None, infos2, s) \<Rightarrow> Some (None, infos1 @ infos2, s\<lparr>watching := True\<rparr>)))))"

definition etcd_close :: "etcd \<Rightarrow> etcd" where
  "etcd_close s =
     (if closed s then s
      else
        let s = s\<lparr>closed := True\<rparr>;
            s = (if closeFunc s then s\<lparr>cancelled := True\<rparr> else s)
        in if etcdCli s then s\<lparr>cliClosed := True\<rparr> else s)"

section \<open>The operations of a configuration tool\<close>

text \<open>Requests to the store; a \<open>Put\<close> may be bound to a lease.\<close>

datatype etcd_request = Grant int | Put string bytes "nat option" | Delete string

definition etcd_UpdateMember ::
    "(nodeJson \<Rightarrow> go_error + bytes) \<Rightarrow> go_error option \<Rightarrow> go_error option \<Rightarrow> Node \<Rightarrow> etcd \<Rightarrow>
     go_error option \<times> etcd_request list \<times> etcd" where
  "etcd_UpdateMember json_Marshal cliErr putErr n s =
     (case etcd_init cliErr s of
        (Some err, s) \<Rightarrow> (Some err, [], s)
      | (None, s) \<Rightarrow>
          (case Node_Marshal json_Marshal n of
             Inl err \<Rightarrow> (Some err, [], s)
           | Inr jsonBytes \<Rightarrow>
               (putErr, [Put (PrefixConfig s @ LogicAddr_String (logic n)) jsonBytes None], s)))"

definition etcd_RemoveMember ::
    "go_error option \<Rightarrow> go_error option \<Rightarrow> logic_addr \<Rightarrow> etcd \<Rightarrow> go_error option \<times> etcd_request list \<times> etcd" where
  "etcd_RemoveMember cliErr delErr n s =
     (case etcd_init cliErr s of
        (Some err, s) \<Rightarrow> (Some err, [], s)
      | (None, s) \<Rightarrow> (delErr, [Delete (PrefixConfig s @ LogicAddr_String n)], s))"

definition etcd_KeepAlive ::
    "go_error option \<Rightarrow> go_error + nat \<Rightarrow> go_error option \<Rightarrow> logic_addr \<Rightarrow> int \<Rightarrow> etcd \<Rightarrow>
     go_error option \<times> etcd_request list \<times> etcd" where
  "etcd_KeepAlive cliErr lease putErr n second s =
     (case etcd_init cliErr s of
        (Some err, s) \<Rightarrow> (Some err, [], s)
      | (None, s) \<Rightarrow>
          (case lease of
             Inl err \<Rightarrow> (Some err, [Grant second], s)
           | Inr leaseId \<Rightarrow>
               (putErr, [Grant second, Put (PrefixAlive s @ LogicAddr_String n) (bytes_of_string ''1'') (Some leaseId)], s)))"

section \<open>The changes fit the view\<close>

text \<open>The address an event is about; an event that does not unmarshal is about none.\<close>

fun config_name :: "(bytes \<Rightarrow> Node option) \<Rightarrow> string \<Rightarrow> etcd_event \<Rightarrow> string option" where
  "config_name U prefix (EventTypePut kv) = map_option (\<lambda>n. LogicAddr_String (logic n)) (U (Value kv))"
| "config_name U prefix (EventTypeDelete kv) = after_prefix prefix (Key kv)"

definition names :: "(bytes \<Rightarrow> Node option) \<Rightarrow> string \<Rightarrow> etcd_event list \<Rightarrow> string list" where
  "names U prefix evs = List.map_filter (config_name U prefix) evs"

fun event_kv :: "etcd_event \<Rightarrow> kv" where
  "event_kv (EventTypePut kv) = kv"
| "event_kv (EventTypeDelete kv) = kv"

lemma names_simps [simp]:
  "names U prefix [] = []"
  "names U prefix (e # es) =
     (case config_name U prefix e of None \<Rightarrow> names U prefix es | Some k \<Rightarrow> k # names U prefix es)"
  by (simp_all add: names_def List.map_filter_simps split: option.split)

lemma touched_put_member: "touched (snd (put_member n (s, info))) = insert (logic n) (touched info)"
  by (simp add: put_member_def Let_def)

lemma touched_delete_member:
  "touched (snd (delete_member k (s, info))) =
     (case members s k of None \<Rightarrow> touched info | Some n \<Rightarrow> insert (logic n) (touched info))"
  by (simp add: delete_member_def split: option.split)

lemma config_event_in_step:
  assumes "config_event U e (s, info) = Some (s', info')" "in_step ex self V (s, info)"
    and "exports_fixed ex U [Value (event_kv e)]"
    and "\<forall>a \<in> touched info. config_name U (PrefixConfig s) e \<noteq> Some (LogicAddr_String a)"
  shows "in_step ex self V (s', info') \<and> once s' = once s \<and> subscriber.more s' = subscriber.more s \<and>
    (\<forall>a \<in> touched info'. a \<in> touched info \<or> config_name U (PrefixConfig s) e = Some (LogicAddr_String a))"
proof (cases e)
  case (EventTypePut kv)
  show ?thesis
  proof (cases "U (Value kv)")
    case None
    then show ?thesis using assms EventTypePut by simp
  next
    case (Some n)
    then have p: "put_member n (s, info) = (s', info')" using assms(1) EventTypePut by simp
    have "in_step ex self V (s', info')"
      using in_step_put_member [OF assms(2), of n] assms(3,4) EventTypePut Some p
      by (auto simp: exports_fixed_def)
    moreover have "touched info' = insert (logic n) (touched info)" using touched_put_member [of n s info] p by simp
    ultimately show ?thesis
      using changes_keep(1,9) [of n "(s, info)"] p Some EventTypePut by auto
  qed
next
  case (EventTypeDelete kv)
  then obtain k where k: "after_prefix (PrefixConfig s) (Key kv) = Some k" and p: "delete_member k (s, info) = (s', info')"
    using assms(1) by (auto split: option.splits)
  have key: "LogicAddr_String (logic n) = k" if "members s k = Some n" for n
    using assms(2) that by (auto simp: in_step_def sub_inv_def keyed_def)
  have "in_step ex self V (s', info')"
    using in_step_delete_member [OF assms(2), of k] assms(4) EventTypeDelete k key p by auto
  moreover have "\<forall>a \<in> touched info'. a \<in> touched info \<or> LogicAddr_String a = k"
    using touched_delete_member [of k s info] p key by (auto split: option.splits)
  ultimately show ?thesis
    using changes_keep(2,10) [of k "(s, info)"] p k EventTypeDelete by auto
qed

lemma more_eq: "subscriber.more s = subscriber.more s' \<Longrightarrow>
    PrefixConfig s = PrefixConfig s'"
  by (cases s; cases s') simp

lemma config_events_in_step:
  assumes "each (config_event U) evs (s, info) = Some (s', info')" "in_step ex self V (s, info)"
    and "exports_fixed ex U (map (Value \<circ> event_kv) evs)"
    and "distinct (names U (PrefixConfig s) evs)"
    and "\<forall>a \<in> touched info. LogicAddr_String a \<notin> set (names U (PrefixConfig s) evs)"
  shows "in_step ex self V (s', info') \<and> once s' = once s \<and> subscriber.more s' = subscriber.more s"
  using assms
proof (induction evs arbitrary: s info)
  case Nil
  then show ?case by simp
next
  case (Cons e es)
  obtain s1 info1 where 1: "config_event U e (s, info) = Some (s1, info1)"
    "each (config_event U) es (s1, info1) = Some (s', info')"
    using Cons.prems(1) by (auto split: option.splits)
  have 2: "in_step ex self V (s1, info1)" "once s1 = once s" "subscriber.more s1 = subscriber.more s"
    "\<forall>a \<in> touched info1. a \<in> touched info \<or> config_name U (PrefixConfig s) e = Some (LogicAddr_String a)"
    using config_event_in_step [OF 1(1) Cons.prems(2)] Cons.prems(3,5)
    by (auto simp: exports_fixed_def split: option.splits)
  have p: "PrefixConfig s1 = PrefixConfig s" using more_eq [OF 2(3)] by simp
  have "distinct (names U (PrefixConfig s1) es)" "exports_fixed ex U (map (Value \<circ> event_kv) es)"
    "\<forall>a \<in> touched info1. LogicAddr_String a \<notin> set (names U (PrefixConfig s1) es)"
    using Cons.prems(3,4,5) 2(4) p by (auto simp: exports_fixed_def split: option.splits)
  from Cons.IH [OF 1(2) 2(1) this(2,1,3)] 2(2,3) show ?case by simp
qed

lemma alive_events_in_step:
  assumes "each alive_event evs (s, info) = Some (s', info')" "in_step ex self V (s, info)"
  shows "in_step ex self V (s', info') \<and> once s' = once s \<and> subscriber.more s' = subscriber.more s"
  using assms
proof (induction evs arbitrary: s info)
  case Nil
  then show ?case by simp
next
  case (Cons e es)
  obtain s1 info1 where 1: "alive_event e (s, info) = Some (s1, info1)"
    "each alive_event es (s1, info1) = Some (s', info')"
    using Cons.prems(1) by (auto split: option.splits)
  have "in_step ex self V (s1, info1) \<and> once s1 = once s \<and> subscriber.more s1 = subscriber.more s"
  proof -
    have "(\<exists>k. put_alive k (s, info) = (s1, info1) \<or> delete_alive k (s, info) = (s1, info1)) \<or> (s1, info1) = (s, info)"
      using 1(1) by (cases e) (auto split: option.splits if_splits)
    then show ?thesis using alive_change_in_step [OF Cons.prems(2)] Cons.prems(2) by blast
  qed
  with Cons.IH [OF 1(2)] show ?case by simp
qed

text \<open>
  What the store and the watch may deliver: stored configurations keep to the export flags,
  a snapshot is gone through in some order, and no two events of one watch response are
  about the same member.
\<close>

definition etcd_members_fit ::
    "(logic_addr \<Rightarrow> bool) \<Rightarrow> (bytes \<Rightarrow> Node option) \<Rightarrow> go_error + kv list \<Rightarrow> string list \<times> string list \<Rightarrow> etcd \<Rightarrow> bool" where
  "etcd_members_fit ex U resp order s \<longleftrightarrow>
     (case resp of
        Inl err \<Rightarrow> True
      | Inr kvs \<Rightarrow> exports_fixed ex U (map Value kvs) \<and> ranges (fst order) (members s) \<and>
          ranges (snd order) (collect U (map Value kvs) Map.empty))"

definition etcd_alives_fit :: "go_error + kv list \<Rightarrow> string list \<times> string list \<Rightarrow> etcd \<Rightarrow> bool" where
  "etcd_alives_fit resp order s \<longleftrightarrow>
     (case resp of
        Inl err \<Rightarrow> True
      | Inr kvs \<Rightarrow>
          (case those (map (\<lambda>kv. after_prefix (PrefixAlive s) (Key kv)) kvs) of
             None \<Rightarrow> True
           | Some ns \<Rightarrow> distinct (fst order) \<and> set (fst order) = set ns \<and>
               distinct (snd order) \<and> set (snd order) = alive s))"

fun etcd_select_fits :: "(logic_addr \<Rightarrow> bool) \<Rightarrow> (bytes \<Rightarrow> Node option) \<Rightarrow> etcd_select \<Rightarrow> etcd \<Rightarrow> bool" where
  "etcd_select_fits ex U (ConfigWatch (Events evs)) s \<longleftrightarrow>
     exports_fixed ex U (map (Value \<circ> event_kv) evs) \<and> distinct (names U (PrefixConfig s) evs)"
| "etcd_select_fits ex U (Tick resp1 order1 resp2 order2) s \<longleftrightarrow>
     etcd_members_fit ex U resp1 order1 s \<and> etcd_alives_fit resp2 order2 s"
| "etcd_select_fits ex U _ s \<longleftrightarrow> True"

inductive etcd_step ::
    "(logic_addr \<Rightarrow> bool) \<Rightarrow> (bytes \<Rightarrow> Node option) \<Rightarrow> etcd \<Rightarrow> MemberInfo list \<Rightarrow> etcd \<Rightarrow> bool" for ex U where
  subscribes: "etcd_Subscribe U True cliErr resp1 order1 resp2 order2 s = Some (err, infos, s') \<Longrightarrow>
     etcd_members_fit ex U resp1 order1 (s\<lparr>members := Map.empty\<rparr>) \<Longrightarrow> etcd_alives_fit resp2 order2 (s\<lparr>alive := {}\<rparr>) \<Longrightarrow>
     etcd_step ex U s infos s'"
| watches: "watching s \<Longrightarrow> etcd_watch U sel s = Some (infos, s') \<Longrightarrow> etcd_select_fits ex U sel s \<Longrightarrow>
     etcd_step ex U s infos s'"

lemma etcd_good_getMembers:
  assumes "etcd_getMembers U resp order s = (err, infos, s')" "sub_inv ex s" "etcd_members_fit ex U resp order s"
  shows "good ex s infos s' \<and> alive s' = alive s \<and> PrefixAlive s' = PrefixAlive s"
proof (cases resp)
  case (Inl e)
  then show ?thesis using assms by (auto simp: good_refl etcd_getMembers_def)
next
  case (Inr kvs)
  let ?m = "collect U (map Value kvs) Map.empty"
  have "ranges (fst order) (members s)" "ranges (snd order) ?m" "keyed ex ?m"
    using assms(3) Inr keyed_collect [OF keyed_simps(1)] by (auto simp: etcd_members_fit_def)
  from good_members [OF assms(2) this] show ?thesis
    using assms(1) Inr by (auto simp: etcd_getMembers_def Let_def)
qed

lemma etcd_good_getAlives:
  assumes "etcd_getAlives resp order s = Some (err, infos, s')" "sub_inv ex s" "etcd_alives_fit resp order s"
  shows "good ex s infos s'"
proof (cases resp)
  case (Inl e)
  then show ?thesis using assms by (auto simp: good_refl etcd_getAlives_def)
next
  case (Inr kvs)
  then obtain ns where ns: "those (map (\<lambda>kv. after_prefix (PrefixAlive s) (Key kv)) kvs) = Some ns"
    using assms(1) by (auto simp: etcd_getAlives_def split: option.splits)
  have "distinct (fst order)" "set (fst order) = set ns" "set (snd order) = alive s"
    using assms(3) Inr ns by (simp_all add: etcd_alives_fit_def)
  from good_alives [OF assms(2) this] show ?thesis
    using assms(1) Inr ns by (auto simp: etcd_getAlives_def Let_def)
qed

lemma cliClosed_fields [simp]:
  "view (s\<lparr>cliClosed := b\<rparr>) = view s" "good ex s infos (s'\<lparr>cliClosed := b\<rparr>) = good ex s infos s'"
proof -
  show v: "view (s\<lparr>cliClosed := b\<rparr>) = view s" for s by (rule view_cong; simp)
  show "good ex s infos (s'\<lparr>cliClosed := b\<rparr>) = good ex s infos s'" by (simp add: good_def sub_inv_def v)
qed

lemma good_handleConfigEvents:
  assumes "handleConfigEvents U evs s = Some (infos, s')" "sub_inv ex s" "etcd_select_fits ex U (ConfigWatch (Events evs)) s"
  shows "good ex s infos s'"
proof -
  obtain info where 1: "each (config_event U) evs (s, no_change) = Some (s', info)" "infos = report s' info"
    using assms(1) by (auto simp: handleConfigEvents_def split: option.splits)
  have "in_step ex self (view s) (s', info) \<and> once s' = once s" for self
    using config_events_in_step [OF 1(1) in_step_start [OF assms(2)]] assms(3) by simp
  with good_change 1(2) show ?thesis by blast
qed

lemma good_handleAliveEvents:
  assumes "handleAliveEvents evs s = Some (infos, s')" "sub_inv ex s"
  shows "good ex s infos s'"
proof -
  obtain info where 1: "each alive_event evs (s, no_change) = Some (s', info)" "infos = report s' info"
    using assms(1) by (auto simp: handleAliveEvents_def split: option.splits)
  have "in_step ex self (view s) (s', info) \<and> once s' = once s" for self
    using alive_events_in_step [OF 1(1) in_step_start [OF assms(2)]] by simp
  with good_change 1(2) show ?thesis by blast
qed

lemma etcd_fit_cong:
  "members s = members t \<Longrightarrow> etcd_members_fit ex U resp order s = etcd_members_fit ex U resp order t"
  "PrefixAlive s = PrefixAlive t \<Longrightarrow> alive s = alive t \<Longrightarrow> etcd_alives_fit resp order s = etcd_alives_fit resp order t"
  by (simp_all add: etcd_members_fit_def etcd_alives_fit_def split: sum.split option.split)

lemma etcd_good_both:
  assumes "etcd_getMembers U resp1 order1 s = (err1, infos1, s1)" "etcd_getAlives resp2 order2 s1 = Some (err2, infos2, s2)"
    and "sub_inv ex s" "etcd_members_fit ex U resp1 order1 s" "etcd_alives_fit resp2 order2 s"
  shows "good ex s (infos1 @ infos2) s2"
proof -
  have 1: "good ex s infos1 s1" "alive s1 = alive s" "PrefixAlive s1 = PrefixAlive s"
    using etcd_good_getMembers [OF assms(1,3,4)] by simp_all
  then have "etcd_alives_fit resp2 order2 s1" "sub_inv ex s1" using assms(5) etcd_fit_cong(2) [of s1 s] by (simp_all add: good_def)
  from good_trans [OF 1(1) etcd_good_getAlives [OF assms(2) this(2,1)]] show ?thesis .
qed

lemma etcd_good_watch:
  assumes "etcd_watch U sel s = Some (infos, s')" "sub_inv ex s" "etcd_select_fits ex U sel s"
  shows "good ex s infos s'"
proof (cases sel)
  case (ConfigWatch r)
  then show ?thesis using assms good_handleConfigEvents good_refl by (cases r) (auto simp: etcd_watch_def)
next
  case (AliveWatch r)
  then show ?thesis using assms good_handleAliveEvents good_refl by (cases r) (auto simp: etcd_watch_def)
next
  case (Tick resp1 order1 resp2 order2)
  obtain err1 infos1 s1 where 1: "etcd_getMembers U resp1 order1 s = (err1, infos1, s1)" by (cases "etcd_getMembers U resp1 order1 s")
  then obtain err2 infos2 s2 where 2: "etcd_getAlives resp2 order2 s1 = Some (err2, infos2, s2)"
    using assms(1) Tick by (auto simp: etcd_watch_def split: option.splits)
  from etcd_good_both [OF 1 2 assms(2)] assms(1,3) Tick 1 2 show ?thesis
    by (auto simp: etcd_watch_def Let_def split: if_splits)
next
  case CtxDone
  then show ?thesis using assms good_refl by (auto simp: etcd_watch_def)
qed

text \<open>Subscribing starts from no members, and reports everything it finds.\<close>

lemma etcd_subscribe_reports:
  assumes "etcd_Subscribe U True cliErr resp1 order1 resp2 order2 s = Some (err, infos, s')" "life_ok ex s"
    and "etcd_members_fit ex U resp1 order1 (s\<lparr>members := Map.empty\<rparr>)" "etcd_alives_fit resp2 order2 (s\<lparr>alive := {}\<rparr>)"
  shows "life_ok ex s' \<and> reports self (view s) infos (view s')"
proof (cases "once s")
  case True
  then show ?thesis using assms by (auto simp: etcd_Subscribe_def)
next
  case False
  let ?s0 = "s\<lparr>once := True, alive := {}, members := Map.empty\<rparr>"
  have e: "members s = Map.empty" "\<not> cb s" "\<not> watching s" using assms(2) False by (auto simp: life_ok_def)
  show ?thesis
  proof (cases "\<exists>err. etcd_init cliErr ?s0 = (Some err, ?s0)")
    case True
    then show ?thesis using assms(1) False e by (auto simp: etcd_Subscribe_def life_ok_def view_empty)
  next
    case ok: False
    then obtain t where i: "etcd_init cliErr ?s0 = (None, t)" and t: "members t = Map.empty" "alive t = {}" "once t"
        "PrefixAlive t = PrefixAlive s"
      by (cases "etcdCli s"; cases cliErr) (auto simp: etcd_init_def)
    define s1 where "s1 = t\<lparr>cb := True, closeFunc := True\<rparr>"
    obtain err1 infos1 s2 where 1: "etcd_getMembers U resp1 order1 s1 = (err1, infos1, s2)"
      by (cases "etcd_getMembers U resp1 order1 s1")
    have inv: "sub_inv ex s1" "etcd_members_fit ex U resp1 order1 s1" "etcd_alives_fit resp2 order2 s1" "view s = view s1"
      using assms(3,4) e t etcd_fit_cong(1) [of s1 "s\<lparr>members := Map.empty\<rparr>"] etcd_fit_cong(2) [of s1 "s\<lparr>alive := {}\<rparr>"]
      by (simp_all add: s1_def sub_inv_def view_empty)
    have keep: "life_ok ex t \<and> reports self (view s) is (view t)" if "good ex s1 is t" for "is" t
      using that inv(4) t by (auto simp: good_def life_ok_def sub_inv_def s1_def)
    show ?thesis
    proof (cases err1)
      case (Some e1)
      then show ?thesis
        using assms(1) False i 1 etcd_good_getMembers [OF 1 inv(1,2)] keep [of infos1 "s2\<lparr>cancelled := True, cliClosed := True\<rparr>"]
        by (auto simp: etcd_Subscribe_def s1_def)
    next
      case None
      then obtain err2 infos2 s3 where 2: "etcd_getAlives resp2 order2 s2 = Some (err2, infos2, s3)"
        using assms(1) False i 1 by (auto simp: etcd_Subscribe_def s1_def split: option.splits)
      have g: "good ex s1 (infos1 @ infos2) s3" by (rule etcd_good_both [OF 1 2 inv(1-3)])
      show ?thesis
        using assms(1) False i 1 2 None g keep [of "infos1 @ infos2" "s3\<lparr>cancelled := True, cliClosed := True\<rparr>"]
          keep [of "infos1 @ infos2" "s3\<lparr>watching := True\<rparr>"]
        by (cases err2) (auto simp: etcd_Subscribe_def s1_def)
    qed
  qed
qed

interpretation etcd: provider "etcd_step ex U" view "life_ok ex"
  for ex U
proof
  have "life_ok ex s' \<and> reports self (view s) infos (view s')"
    if "life_ok ex s" "etcd_step ex U s infos s'" for self s infos s'
    using that(2)
  proof cases
    case (subscribes cliErr resp1 order1 resp2 order2 err)
    from etcd_subscribe_reports [OF this(1) that(1) this(2,3)] show ?thesis .
  next
    case (watches sel)
    have "sub_inv ex s" using that(1) watches(1) by (auto simp: life_ok_def sub_inv_def)
    from etcd_good_watch [OF watches(2) this watches(3)] that(1) watches(1) show ?thesis
      by (auto simp: good_def life_ok_def sub_inv_def)
  qed
  then show "life_ok ex s \<Longrightarrow> etcd_step ex U s infos s' \<Longrightarrow> life_ok ex s'"
    "life_ok ex s \<Longrightarrow> etcd_step ex U s infos s' \<Longrightarrow> reports self (view s) infos (view s')" for s infos s' self
    by blast+
qed

text \<open>
  A subscription that failed looks like one that succeeded when it is tried again: \<open>once\<close> is
  used up, so the second call returns no error, reports nothing and watches nothing.
\<close>

lemma etcd_failed_subscribe:
  assumes "etcd_Subscribe U callback cliErr resp1 order1 resp2 order2 s = Some (Some err, infos, s')" "\<not> watching s"
  shows "etcd_Subscribe U callback' cliErr' resp1' order1' resp2' order2' s' = Some (None, [], s') \<and> \<not> watching s'"
proof -
  let ?s0 = "s\<lparr>once := True, alive := {}, members := Map.empty\<rparr>"
  obtain e t where i: "etcd_init cliErr ?s0 = (e, t)" "once t" "\<not> watching t"
    using assms(2) by (cases "etcdCli s"; cases cliErr) (auto simp: etcd_init_def)
  have m: "once u \<and> \<not> watching u" if "etcd_getMembers U resp1 order1 (t\<lparr>cb := callback, closeFunc := True\<rparr>) = (e', is, u)" for e' "is" u
    using that i by (auto simp: etcd_getMembers_def Let_def split: sum.splits)
  have a: "once v \<and> \<not> watching v" if "etcd_getAlives resp2 order2 u = Some (e', is, v)" "once u" "\<not> watching u" for e' "is" u v
    using that by (auto simp: etcd_getAlives_def Let_def split: sum.splits option.splits)
  have "once s' \<and> \<not> watching s'"
    using assms(1) i m a by (auto simp: etcd_Subscribe_def split: if_splits option.splits prod.splits)
  then show ?thesis by (simp add: etcd_Subscribe_def)
qed

section \<open>Properties\<close>


definition demo_etcd :: etcd where
  "demo_etcd = \<lparr>alive = {}, members = Map.empty, cb = False, once = False, closeFunc = False, closed = False,
     cancelled = False, watching = False, hadError = False, PrefixConfig = ''c/'', PrefixAlive = ''a/'',
     etcdCli = False, cliClosed = False\<rparr>"


text \<open>
  C40. A watch response with two events for one member breaks the subscriber. The events are
  sorted into three lists, and the node cache applies additions before removals before
  updates. So an update of a member followed by its deletion makes the cache dereference a
  nil pointer, and a deletion followed by a new configuration leaves the member out of the
  cache while the provider counts it as configured.
\<close>

theorem etcd_batch_breaks_cache:
  assumes "sub_inv ex s" "cache_rel (view s) C H" "PrefixConfig s = prefix"
    and "members s (LogicAddr_String (logic n)) = Some n0"
    and "unmarshal json_Unmarshal resolve (Value put) = Some n" "Export n = ex (logic n)"
    and "Key del = prefix @ LogicAddr_String (logic n)"
    and "visible (localAddr C) n" "logic n \<noteq> localAddr C"
  shows "(\<exists>info s'. handleConfigEvents (unmarshal json_Unmarshal resolve) [EventTypePut put, EventTypeDelete del] s =
        Some ([info], s') \<and> onNodeInfoUpdate info C H = None) \<and>
    (\<exists>info s' C' H' evs. handleConfigEvents (unmarshal json_Unmarshal resolve) [EventTypeDelete del, EventTypePut put] s =
        Some ([info], s') \<and> view s' (logic n) \<noteq> None \<and>
        onNodeInfoUpdate info C H = Some (C', H', evs) \<and> allnodes C' (logic n) = None)"
proof -
  have key: "logic n0 = logic n" "Export n0 = Export n"
    using assms(1,4,6) keyed_at [of ex "members s" "logic n" n0] by (simp_all add: sub_inv_def)
  then have vis: "visible (localAddr C) n0" using assms(8) visible_fixed by metis
  let ?v = "node_of n0 (isAlive s (LogicAddr_String (logic n)) \<and> Available n0)"
  obtain p where p: "allnodes C (logic n) = Some p" "p < length H" "logicAddr (addr (H ! p)) = logic n"
    by (rule entry_shown [OF assms(2), of "logic n" ?v]) (use assms(4) vis in \<open>simp_all add: view_def\<close>)
  note ev = handleConfigEvents_def put_member_def delete_member_def report_def after_prefix_def Let_def
  have "cb s" using assms(1) by (simp add: sub_inv_def)
  then have "\<exists>info s'. handleConfigEvents (unmarshal json_Unmarshal resolve) [EventTypePut put, EventTypeDelete del] s =
      Some ([info], s') \<and> onNodeInfoUpdate info C H = None"
    using assms(3-5,7-9) p by (simp add: ev onNodeInfoUpdate_def remove_member_def update_member_def)
  moreover have "\<exists>info s' C' H' evs. handleConfigEvents (unmarshal json_Unmarshal resolve) [EventTypeDelete del, EventTypePut put] s =
      Some ([info], s') \<and> view s' (logic n) \<noteq> None \<and>
      onNodeInfoUpdate info C H = Some (C', H', evs) \<and> allnodes C' (logic n) = None"
    using \<open>cb s\<close> assms(3-5,7-9) key vis
    by (simp add: ev onNodeInfoUpdate_def add_member_def remove_member_def view_def nth_append)
  ultimately show ?thesis by blast
qed

theorem etcd_batch_breaks_cache_witness:
  "\<exists>s C H info s'. members s (LogicAddr_String 526339) = Some demo_node \<and> cache_rel (view s) C H \<and>
     handleConfigEvents (unmarshal demo_unmarshal (\<lambda>s. Inr (TCPAddr s)))
       [EventTypePut \<lparr>Key = ''c/'' @ LogicAddr_String 526339, Value = []\<rparr>,
        EventTypeDelete \<lparr>Key = ''c/'' @ LogicAddr_String 526339, Value = []\<rparr>] s = Some ([info], s') \<and>
     onNodeInfoUpdate info C H = None"
proof -
  let ?k = "LogicAddr_String 526339"
  define s where "s = demo_etcd\<lparr>cb := True, once := True, alive := {?k}, members := [?k \<mapsto> demo_node]\<rparr>"
  have a: "logic demo_node = 526339" "\<not> Export demo_node" "Available demo_node" by (simp_all add: demo_node_def)
  have m: "members s ?k = Some demo_node" "PrefixConfig s = ''c/''" "sub_inv (\<lambda>_. False) s"
    using a by (simp_all add: s_def demo_etcd_def sub_inv_def keyed_def)
  obtain C H where CH: "add_members [demo_node] (new_cache 526340) [] = (C, H)"
    by (cases "add_members [demo_node] (new_cache 526340) []")
  have "view s = view_put Map.empty [demo_node]"
    by (rule ext) (simp add: view_def s_def isAlive_def node_of_def a)
  then have c: "cache_rel (view s) C H" "localAddr C = 526340"
    using add_members_rel [OF cache_rel_new _ CH] by (simp_all add: new_cache_def)
  have "visible (localAddr C) demo_node" "logic demo_node \<noteq> localAddr C"
    using c(2) a by (simp_all add: visible_def field_eqs)
  then obtain info s' where "handleConfigEvents (unmarshal demo_unmarshal (\<lambda>s. Inr (TCPAddr s)))
      [EventTypePut \<lparr>Key = ''c/'' @ ?k, Value = []\<rparr>, EventTypeDelete \<lparr>Key = ''c/'' @ ?k, Value = []\<rparr>] s =
      Some ([info], s')" "onNodeInfoUpdate info C H = None"
    using etcd_batch_breaks_cache [OF m(3) c(1) m(2), of demo_node demo_node demo_unmarshal "\<lambda>s. Inr (TCPAddr s)"
      "\<lparr>Key = ''c/'' @ ?k, Value = []\<rparr>" "\<lparr>Key = ''c/'' @ ?k, Value = []\<rparr>"] m(1) a
    by (auto simp: demo_unmarshal_node)
  with m(1) c(1) show ?thesis by blast
qed

end
