(* ===== verification/Natsjet.thy ===== *)
theory Natsjet
  imports Provider
begin

text \<open>
  The NATS JetStream provider (\<open>membership/natsjet\<close>): the lazily opened connection with its
  two buckets, snapshots of both buckets, the handlers of watcher entries, the watch loop
  with its recovery, subscribing and closing, and the operations of a configuration tool.

  The NATS client is outside the repository: the errors it knows are the record \<open>nats_errors\<close>,
  and what its calls return are arguments.
\<close>

section \<open>Errors\<close>

record nats_errors =
  ErrKeyNotFound :: go_error
  ErrBucketNotFound :: go_error
  ErrNoKeysFound :: go_error
  ErrStreamNameAlreadyInUse :: go_error

definition benignErrs :: "nats_errors \<Rightarrow> go_error list" where
  "benignErrs E = [ErrKeyNotFound E, ErrBucketNotFound E, ErrNoKeysFound E]"

definition GetNatsError :: "nats_errors \<Rightarrow> go_error option \<Rightarrow> go_error option" where
  "GetNatsError E err =
     (case err of
        None \<Rightarrow> None
      | Some e \<Rightarrow> if e \<in> set (benignErrs E) then None else Some e)"

section \<open>The connection\<close>

record natsjet = subscriber +
  Prefix :: string
  AliveTTL :: int
  nc :: bool
  js :: bool
  membersKV :: bool
  aliveKV :: bool
  connClosed :: bool
  membersW :: bool
  aliveW :: bool
  membersCh :: bool
  aliveCh :: bool

definition membersBucketName :: "natsjet \<Rightarrow> string" where
  "membersBucketName s = Prefix s @ ''members''"

definition aliveBucketName :: "natsjet \<Rightarrow> string" where
  "aliveBucketName s = Prefix s @ ''alive''"

text \<open>What the calls that \<open>init\<close> makes return: for each bucket, the errors of creating and of binding it.\<close>

record nats_replies =
  connectErr :: "go_error option"
  jetErr :: "go_error option"
  membersBucket :: "go_error option \<times> go_error option"
  aliveBucket :: "go_error option \<times> go_error option"
  membersKVErr :: "go_error option"
  aliveKVErr :: "go_error option"

definition ensureBucket :: "nats_errors \<Rightarrow> go_error option \<times> go_error option \<Rightarrow> go_error option" where
  "ensureBucket E replies =
     (case fst replies of
        None \<Rightarrow> None
      | Some err \<Rightarrow> if err = ErrStreamNameAlreadyInUse E then snd replies else Some err)"

text \<open>The buckets \<open>init\<close> asks for, with their times to live in seconds.\<close>

definition buckets :: "natsjet \<Rightarrow> (string \<times> int) list" where
  "buckets s = [(membersBucketName s, 0), (aliveBucketName s, if AliveTTL s = 0 then 10 else AliveTTL s)]"

definition cleanupConn :: "natsjet \<Rightarrow> natsjet" where
  "cleanupConn s =
     (let s = (if nc s then s\<lparr>connClosed := True, nc := False, js := False\<rparr> else s)
      in s\<lparr>membersKV := False, aliveKV := False\<rparr>)"

definition nats_init :: "nats_errors \<Rightarrow> nats_replies \<Rightarrow> natsjet \<Rightarrow> go_error option \<times> natsjet" where
  "nats_init E R s =
     (if nc s then (None, s)
      else
        (case connectErr R of
           Some err \<Rightarrow> (Some err, s)
         | None \<Rightarrow>
             (case jetErr R of
                Some err \<Rightarrow> (Some err, s)
              | None \<Rightarrow>
                  let s = s\<lparr>nc := True, js := True\<rparr>
                  in (case ensureBucket E (membersBucket R) of
                        Some err \<Rightarrow> (Some err, cleanupConn s)
                      | None \<Rightarrow>
                          (case ensureBucket E (aliveBucket R) of
                             Some err \<Rightarrow> (Some err, cleanupConn s)
                           | None \<Rightarrow>
                               (case membersKVErr R of
                                  Some err \<Rightarrow> (Some err, cleanupConn s)
                                | None \<Rightarrow>
                                    let s = s\<lparr>membersKV := True\<rparr>
                                    in (case aliveKVErr R of
                                          Some err \<Rightarrow> (Some err, cleanupConn s)
                                        | None \<Rightarrow> (None, s\<lparr>aliveKV := True\<rparr>))))))))"

section \<open>Snapshots\<close>

text \<open>
  The keys of a bucket: an empty bucket has none, every other error ends the call, with the
  error that \<open>GetNatsError\<close> leaves of it.
\<close>

definition bucket_keys :: "nats_errors \<Rightarrow> go_error + string list \<Rightarrow> go_error option + string list" where
  "bucket_keys E keys =
     (case keys of
        Inl err \<Rightarrow> if err \<noteq> ErrNoKeysFound E then Inl (GetNatsError E (Some err)) else Inr []
      | Inr ks \<Rightarrow> Inr ks)"

text \<open>\<open>get\<close> is what \<open>Get\<close> returns for a key; a key whose \<open>Get\<close> fails is left out.\<close>

definition got :: "(string \<Rightarrow> go_error + bytes) \<Rightarrow> string list \<Rightarrow> bytes list" where
  "got get ks = List.map_filter (\<lambda>k. case get k of Inl err \<Rightarrow> None | Inr b \<Rightarrow> Some b) ks"

definition nats_getMembers ::
    "nats_errors \<Rightarrow> (bytes \<Rightarrow> Node option) \<Rightarrow> go_error + string list \<Rightarrow> (string \<Rightarrow> go_error + bytes) \<Rightarrow>
     string list \<times> string list \<Rightarrow> natsjet \<Rightarrow> natsjet reporting" where
  "nats_getMembers E U keys get order s =
     (case bucket_keys E keys of
        Inl err \<Rightarrow> (err, [], s)
      | Inr ks \<Rightarrow>
          let currentMembers = collect U (got get ks) Map.empty;
              nodeinfo = remove_loop s (\<lambda>k n. False) currentMembers (fst order) no_change;
              nodeinfo = current_loop s currentMembers (snd order) nodeinfo;
              s = s\<lparr>members := currentMembers\<rparr>
          in (None, report s nodeinfo, s))"

definition nats_getAlives ::
    "nats_errors \<Rightarrow> go_error + string list \<Rightarrow> string list \<times> string list \<Rightarrow> natsjet \<Rightarrow> natsjet reporting" where
  "nats_getAlives E keys order s =
     (case bucket_keys E keys of
        Inl err \<Rightarrow> (err, [], s)
      | Inr ks \<Rightarrow>
          let nodeinfo = alive_loop s (fst order) no_change;
              nodeinfo = dead_loop s (set ks) (snd order) nodeinfo;
              s = s\<lparr>alive := set ks\<rparr>
          in (None, report s nodeinfo, s))"

section \<open>Entries of the watchers\<close>

datatype kv_op = KeyValuePut | KeyValueDelete | KeyValuePurge

record kv_entry =
  eKey :: string
  eValue :: bytes
  eOperation :: kv_op

text \<open>An entry is nil (\<open>None\<close>) at the end of the initial snapshot.\<close>

definition handleConfigEntry ::
    "(bytes \<Rightarrow> Node option) \<Rightarrow> kv_entry option \<Rightarrow> natsjet \<Rightarrow> MemberInfo list \<times> natsjet" where
  "handleConfigEntry U ent s =
     (case ent of
        None \<Rightarrow> ([], s)
      | Some e \<Rightarrow>
          if eOperation e = KeyValuePut then
            (case U (eValue e) of
               None \<Rightarrow> ([], s)
             | Some n \<Rightarrow> let (s, nodeinfo) = put_member n (s, no_change) in (report s nodeinfo, s))
          else let (s, nodeinfo) = delete_member (eKey e) (s, no_change) in (report s nodeinfo, s))"

definition handleAliveEntry :: "kv_entry option \<Rightarrow> natsjet \<Rightarrow> MemberInfo list \<times> natsjet" where
  "handleAliveEntry ent s =
     (case ent of
        None \<Rightarrow> ([], s)
      | Some e \<Rightarrow>
          let (s, nodeinfo) =
            (if eOperation e = KeyValuePut then put_alive (eKey e) (s, no_change)
             else if isAlive s (eKey e) then delete_alive (eKey e) (s, no_change)
             else (s, no_change))
          in (report s nodeinfo, s))"

text \<open>
  Starting \<open>watch\<close>; the arguments say whether the two calls of \<open>WatchAll\<close> succeed. A
  watcher that could not be made leaves its channel nil, and nothing is received from it.
\<close>

definition watch_start :: "bool \<Rightarrow> bool \<Rightarrow> natsjet \<Rightarrow> natsjet" where
  "watch_start ok1 ok2 s =
     s\<lparr>membersW := ok1, aliveW := ok2, membersCh := ok1, aliveCh := ok2, hadError := False, watching := True\<rparr>"

text \<open>
  One round of the select. A tick has the answers to the requests of both snapshots with the
  orders of their loops, and whether the watchers can be made anew.
\<close>

datatype nats_select =
    MembersEntry "kv_entry option option"
  | AliveEntry "kv_entry option option"
  | NatsTick "go_error + string list" "string \<Rightarrow> go_error + bytes" "string list \<times> string list"
      "go_error + string list" "string list \<times> string list" bool bool
  | NatsDone

text \<open>The outer \<open>None\<close> of an entry says that its channel is closed.\<close>

definition nats_watch ::
    "nats_errors \<Rightarrow> (bytes \<Rightarrow> Node option) \<Rightarrow> nats_select \<Rightarrow> natsjet \<Rightarrow> MemberInfo list \<times> natsjet" where
  "nats_watch E U sel s =
     (case sel of
        MembersEntry None \<Rightarrow> ([], s\<lparr>watching := False\<rparr>)
      | MembersEntry (Some ent) \<Rightarrow> handleConfigEntry U ent s
      | AliveEntry None \<Rightarrow> ([], s\<lparr>watching := False\<rparr>)
      | AliveEntry (Some ent) \<Rightarrow> handleAliveEntry ent s
      | NatsTick keys1 get order1 keys2 order2 ok1 ok2 \<Rightarrow>
          let (err1, infos1, s) = nats_getMembers E U keys1 get order1 s;
              (err2, infos2, s) = nats_getAlives E keys2 order2 s;
              s = (if err1 \<noteq> None \<or> err2 \<noteq> None then s\<lparr>hadError := True\<rparr>
                   else if hadError s then
                     s\<lparr>membersW := ok1, aliveW := ok2, membersCh := membersCh s \<or> ok1,
                       aliveCh := aliveCh s \<or> ok2, hadError := False\<rparr>
                   else s)
          in (infos1 @ infos2, s)
      | NatsDone \<Rightarrow> ([], s\<lparr>watching := False\<rparr>))"

section \<open>Subscribing, closing and the configuration tool\<close>

definition nats_close :: "natsjet \<Rightarrow> natsjet" where
  "nats_close s =
     (if closed s then s
      else
        let s = s\<lparr>closed := True\<rparr>;
            s = (if closeFunc s then s\<lparr>cancelled := True\<rparr> else s)
        in if nc s then s\<lparr>connClosed := True\<rparr> else s)"

definition nats_Subscribe ::
    "nats_errors \<Rightarrow> (bytes \<Rightarrow> Node option) \<Rightarrow> bool \<Rightarrow> nats_replies \<Rightarrow>
     go_error + string list \<Rightarrow> (string \<Rightarrow> go_error + bytes) \<Rightarrow> string list \<times> string list \<Rightarrow>
     go_error + string list \<Rightarrow> string list \<times> string list \<Rightarrow> bool \<Rightarrow> bool \<Rightarrow> natsjet \<Rightarrow> natsjet reporting" where
  "nats_Subscribe E U callback R keys1 get order1 keys2 order2 ok1 ok2 s =
     (if once s then (None, [], s)
      else
        (case nats_init E R (s\<lparr>once := True, alive := {}, members := Map.empty\<rparr>) of
           (Some err, s) \<Rightarrow> (Some err, [], s)
         | (None, s) \<Rightarrow>
             (case nats_getMembers E U keys1 get order1 (s\<lparr>cb := callback, closeFunc := True\<rparr>) of
                (Some err, infos, s) \<Rightarrow> (Some err, infos, cleanupConn (s\<lparr>cancelled := True\<rparr>))
              | (None, infos1, s) \<Rightarrow>
                  (case nats_getAlives E keys2 order2 s of
                     (Some err, infos2, s) \<Rightarrow> (Some err, infos1 @ infos2, cleanupConn (s\<lparr>cancelled := True\<rparr>))
                   | (None, infos2, s) \<Rightarrow> (None, infos1 @ infos2, watch_start ok1 ok2 s)))))"

datatype nats_request = KVPut string string bytes | KVDelete string string

definition nats_UpdateMember ::
    "nats_errors \<Rightarrow> (nodeJson \<Rightarrow> go_error + bytes) \<Rightarrow> nats_replies \<Rightarrow> go_error option \<Rightarrow> Node \<Rightarrow> natsjet \<Rightarrow>
     go_error option \<times> nats_request list \<times> natsjet" where
  "nats_UpdateMember E json_Marshal R putErr n s =
     (case nats_init E R s of
        (Some err, s) \<Rightarrow> (Some err, [], s)
      | (None, s) \<Rightarrow>
          (case Node_Marshal json_Marshal n of
             Inl err \<Rightarrow> (Some err, [], s)
           | Inr jsonBytes \<Rightarrow>
               (GetNatsError E putErr, [KVPut (membersBucketName s) (LogicAddr_String (logic n)) jsonBytes], s)))"

definition nats_RemoveMember ::
    "nats_errors \<Rightarrow> nats_replies \<Rightarrow> go_error option \<Rightarrow> logic_addr \<Rightarrow> natsjet \<Rightarrow>
     go_error option \<times> nats_request list \<times> natsjet" where
  "nats_RemoveMember E R delErr la s =
     (case nats_init E R s of
        (Some err, s) \<Rightarrow> (Some err, [], s)
      | (None, s) \<Rightarrow> (GetNatsError E delErr, [KVDelete (membersBucketName s) (LogicAddr_String la)], s))"

text \<open>The argument for the number of seconds is not used.\<close>

definition nats_KeepAlive ::
    "nats_errors \<Rightarrow> nats_replies \<Rightarrow> go_error option \<Rightarrow> logic_addr \<Rightarrow> int \<Rightarrow> natsjet \<Rightarrow>
     go_error option \<times> nats_request list \<times> natsjet" where
  "nats_KeepAlive E R putErr la second s =
     (case nats_init E R s of
        (Some err, s) \<Rightarrow> (Some err, [], s)
      | (None, s) \<Rightarrow>
          (GetNatsError E putErr, [KVPut (aliveBucketName s) (LogicAddr_String la) (bytes_of_string ''1'')], s))"

section \<open>The connection is complete or absent\<close>

definition conn_ok :: "natsjet \<Rightarrow> bool" where
  "conn_ok s \<longleftrightarrow> js s = nc s \<and> membersKV s = nc s \<and> aliveKV s = nc s"

lemma cleanupConn_conn: "js s = nc s \<Longrightarrow> conn_ok (cleanupConn s) \<and> \<not> nc (cleanupConn s)"
  by (auto simp: conn_ok_def cleanupConn_def Let_def)

lemma nats_init_conn:
  assumes "conn_ok s"
  shows "conn_ok (snd (nats_init E R s))" "nc (snd (nats_init E R s)) \<longleftrightarrow> fst (nats_init E R s) = None"
  using assms cleanupConn_conn [of "s\<lparr>nc := True, js := True\<rparr>"]
    cleanupConn_conn [of "s\<lparr>nc := True, js := True, membersKV := True\<rparr>"]
  by (simp_all add: nats_init_def conn_ok_def Let_def split: option.split)

section \<open>The changes fit the view\<close>

definition nats_members_fit ::
    "(logic_addr \<Rightarrow> bool) \<Rightarrow> nats_errors \<Rightarrow> (bytes \<Rightarrow> Node option) \<Rightarrow> go_error + string list \<Rightarrow>
     (string \<Rightarrow> go_error + bytes) \<Rightarrow> string list \<times> string list \<Rightarrow> natsjet \<Rightarrow> bool" where
  "nats_members_fit ex E U keys get order s \<longleftrightarrow>
     (case bucket_keys E keys of
        Inl err \<Rightarrow> True
      | Inr ks \<Rightarrow> exports_fixed ex U (got get ks) \<and> ranges (fst order) (members s) \<and>
          ranges (snd order) (collect U (got get ks) Map.empty))"

definition nats_alives_fit :: "nats_errors \<Rightarrow> go_error + string list \<Rightarrow> string list \<times> string list \<Rightarrow> natsjet \<Rightarrow> bool" where
  "nats_alives_fit E keys order s \<longleftrightarrow>
     (case bucket_keys E keys of
        Inl err \<Rightarrow> True
      | Inr ks \<Rightarrow> distinct (fst order) \<and> set (fst order) = set ks \<and>
          distinct (snd order) \<and> set (snd order) = alive s)"

fun nats_select_fits ::
    "(logic_addr \<Rightarrow> bool) \<Rightarrow> nats_errors \<Rightarrow> (bytes \<Rightarrow> Node option) \<Rightarrow> nats_select \<Rightarrow> natsjet \<Rightarrow> bool" where
  "nats_select_fits ex E U (MembersEntry r) s \<longleftrightarrow>
     membersCh s \<and> (case r of Some (Some e) \<Rightarrow> exports_fixed ex U [eValue e] | _ \<Rightarrow> True)"
| "nats_select_fits ex E U (AliveEntry r) s \<longleftrightarrow> aliveCh s"
| "nats_select_fits ex E U (NatsTick keys1 get order1 keys2 order2 ok1 ok2) s \<longleftrightarrow>
     nats_members_fit ex E U keys1 get order1 s \<and> nats_alives_fit E keys2 order2 s"
| "nats_select_fits ex E U NatsDone s \<longleftrightarrow> cancelled s"

inductive nats_step ::
    "(logic_addr \<Rightarrow> bool) \<Rightarrow> nats_errors \<Rightarrow> (bytes \<Rightarrow> Node option) \<Rightarrow> natsjet \<Rightarrow> MemberInfo list \<Rightarrow> natsjet \<Rightarrow> bool"
    for ex E U where
  nats_subscribes: "nats_Subscribe E U True R keys1 get order1 keys2 order2 ok1 ok2 s = (err, infos, s') \<Longrightarrow>
     nats_members_fit ex E U keys1 get order1 (s\<lparr>members := Map.empty\<rparr>) \<Longrightarrow> nats_alives_fit E keys2 order2 (s\<lparr>alive := {}\<rparr>) \<Longrightarrow>
     nats_step ex E U s infos s'"
| nats_watches: "watching s \<Longrightarrow> nats_watch E U sel s = (infos, s') \<Longrightarrow> nats_select_fits ex E U sel s \<Longrightarrow>
     nats_step ex E U s infos s'"
| nats_closes: "nats_step ex E U s [] (nats_close s)"

lemma nats_good_getMembers:
  assumes "nats_getMembers E U keys get order s = (err, infos, s')" "sub_inv ex s" "nats_members_fit ex E U keys get order s"
  shows "good ex s infos s' \<and> alive s' = alive s"
proof (cases "bucket_keys E keys")
  case (Inl e)
  then show ?thesis using assms by (auto simp: good_refl nats_getMembers_def)
next
  case (Inr ks)
  let ?m = "collect U (got get ks) Map.empty"
  have "ranges (fst order) (members s)" "ranges (snd order) ?m" "keyed ex ?m"
    using assms(3) Inr keyed_collect [OF keyed_simps(1)] by (auto simp: nats_members_fit_def)
  from good_members [OF assms(2) this] show ?thesis
    using assms(1) Inr by (auto simp: nats_getMembers_def Let_def)
qed

lemma nats_good_getAlives:
  assumes "nats_getAlives E keys order s = (err, infos, s')" "sub_inv ex s" "nats_alives_fit E keys order s"
  shows "good ex s infos s'"
proof (cases "bucket_keys E keys")
  case (Inl e)
  then show ?thesis using assms by (auto simp: good_refl nats_getAlives_def)
next
  case (Inr ks)
  have "distinct (fst order)" "set (fst order) = set ks" "set (snd order) = alive s"
    using assms(3) Inr by (simp_all add: nats_alives_fit_def)
  from good_alives [OF assms(2) this] show ?thesis
    using assms(1) Inr by (auto simp: nats_getAlives_def Let_def)
qed

lemma nats_fit_cong:
  "members s = members t \<Longrightarrow> nats_members_fit ex E U keys get order s = nats_members_fit ex E U keys get order t"
  "alive s = alive t \<Longrightarrow> nats_alives_fit E keys order s = nats_alives_fit E keys order t"
  by (simp_all add: nats_members_fit_def nats_alives_fit_def split: sum.split)

lemma nats_good_both:
  assumes "nats_getMembers E U keys1 get order1 s = (err1, infos1, s1)" "nats_getAlives E keys2 order2 s1 = (err2, infos2, s2)"
    and "sub_inv ex s" "nats_members_fit ex E U keys1 get order1 s" "nats_alives_fit E keys2 order2 s"
  shows "good ex s (infos1 @ infos2) s2"
proof -
  have 1: "good ex s infos1 s1" "alive s1 = alive s" using nats_good_getMembers [OF assms(1,3,4)] by simp_all
  then have "nats_alives_fit E keys2 order2 s1" "sub_inv ex s1" using assms(5) nats_fit_cong(2) [of s1 s] by (simp_all add: good_def)
  from good_trans [OF 1(1) nats_good_getAlives [OF assms(2) this(2,1)]] show ?thesis .
qed

lemma good_handleConfigEntry:
  assumes "handleConfigEntry U ent s = (infos, s')" "sub_inv ex s"
    and "\<forall>e. ent = Some e \<longrightarrow> exports_fixed ex U [eValue e]"
  shows "good ex s infos s'"
proof (cases ent)
  case None
  then show ?thesis using assms by (simp add: handleConfigEntry_def good_refl)
next
  case (Some e)
  have put: "good ex s (report t i) t" if "put_member n (s, no_change) = (t, i)" "U (eValue e) = Some n" for t i n
    using in_step_put_member [OF in_step_start [OF assms(2)], of n] changes_keep(1) [of n "(s, no_change)"] that assms(3) Some
    by (intro good_change) (auto simp: exports_fixed_def)
  have del: "good ex s (report t i) t" if "delete_member k (s, no_change) = (t, i)" for t i k
    using in_step_delete_member [OF in_step_start [OF assms(2)], of k] changes_keep(2) [of k "(s, no_change)"] that
    by (intro good_change) auto
  show ?thesis using assms(1) Some put del good_refl [OF assms(2)]
    by (auto simp: handleConfigEntry_def split: if_splits option.splits prod.splits)
qed

lemma good_handleAliveEntry:
  assumes "handleAliveEntry ent s = (infos, s')" "sub_inv ex s"
  shows "good ex s infos s'"
proof -
  have alive: "good ex s (report t i) t"
    if "put_alive k (s, no_change) = (t, i) \<or> delete_alive k (s, no_change) = (t, i)" for t i k
    using alive_change_in_step [OF in_step_start [OF assms(2)] that] by (intro good_change) auto
  have "report s no_change = []" by (simp add: report_def)
  then show ?thesis using assms(1) alive good_refl [OF assms(2)]
    by (auto simp: handleAliveEntry_def Let_def split: option.splits if_splits prod.splits)
qed

lemma conn_fields [simp]:
  "members (cleanupConn s) = members s" "alive (cleanupConn s) = alive s" "cb (cleanupConn s) = cb s"
  "once (cleanupConn s) = once s" "watching (cleanupConn s) = watching s"
  "members (snd (nats_init E R s)) = members s" "alive (snd (nats_init E R s)) = alive s"
  "cb (snd (nats_init E R s)) = cb s" "once (snd (nats_init E R s)) = once s"
  "watching (snd (nats_init E R s)) = watching s"
  by (simp_all add: cleanupConn_def nats_init_def Let_def split: option.split)

lemma nats_good_watch:
  assumes "nats_watch E U sel s = (infos, s')" "sub_inv ex s" "nats_select_fits ex E U sel s"
  shows "good ex s infos s'"
proof (cases sel)
  case (MembersEntry r)
  then show ?thesis using assms good_handleConfigEntry [of U _ s infos s' ex] good_refl [OF assms(2)]
    by (auto simp: nats_watch_def split: option.splits)
next
  case (AliveEntry r)
  then show ?thesis using assms good_handleAliveEntry [of _ s infos s' ex] good_refl [OF assms(2)]
    by (auto simp: nats_watch_def split: option.splits)
next
  case (NatsTick keys1 get order1 keys2 order2 ok1 ok2)
  obtain err1 infos1 s1 where 1: "nats_getMembers E U keys1 get order1 s = (err1, infos1, s1)"
    by (cases "nats_getMembers E U keys1 get order1 s")
  obtain err2 infos2 s2 where 2: "nats_getAlives E keys2 order2 s1 = (err2, infos2, s2)"
    by (cases "nats_getAlives E keys2 order2 s1")
  have g: "good ex s (infos1 @ infos2) s2" using nats_good_both [OF 1 2 assms(2)] assms(3) NatsTick by simp
  have "infos = infos1 @ infos2" "members s' = members s2" "alive s' = alive s2" "cb s' = cb s2" "once s' = once s2"
    using assms(1) NatsTick 1 2 by (auto simp: nats_watch_def Let_def split: if_splits)
  with good_same [OF g] show ?thesis by simp
next
  case NatsDone
  then show ?thesis using assms good_refl [OF assms(2)] by (auto simp: nats_watch_def)
qed

lemma nats_subscribe_reports:
  assumes "nats_Subscribe E U True R keys1 get order1 keys2 order2 ok1 ok2 s = (err, infos, s')" "life_ok ex s"
    and "nats_members_fit ex E U keys1 get order1 (s\<lparr>members := Map.empty\<rparr>)" "nats_alives_fit E keys2 order2 (s\<lparr>alive := {}\<rparr>)"
  shows "life_ok ex s' \<and> reports self (view s) infos (view s')"
proof (cases "once s")
  case True
  then show ?thesis using assms by (auto simp: nats_Subscribe_def)
next
  case False
  let ?s0 = "s\<lparr>once := True, alive := {}, members := Map.empty\<rparr>"
  have e: "members s = Map.empty" "\<not> cb s" "\<not> watching s" using assms(2) False by (auto simp: life_ok_def)
  obtain err0 t where i: "nats_init E R ?s0 = (err0, t)" by (cases "nats_init E R ?s0")
  then have t: "members t = Map.empty" "alive t = {}" "once t" "cb t = cb s" "watching t = watching s"
    using conn_fields(6-10) [of E R ?s0] by simp_all
  define s1 where "s1 = t\<lparr>cb := True, closeFunc := True\<rparr>"
  obtain err1 infos1 s2 where 1: "nats_getMembers E U keys1 get order1 s1 = (err1, infos1, s2)"
    by (cases "nats_getMembers E U keys1 get order1 s1")
  obtain err2 infos2 s3 where 2: "nats_getAlives E keys2 order2 s2 = (err2, infos2, s3)"
    by (cases "nats_getAlives E keys2 order2 s2")
  have inv: "sub_inv ex s1" "nats_members_fit ex E U keys1 get order1 s1" "nats_alives_fit E keys2 order2 s1" "view s = view s1" "once s1"
    using assms(3,4) e t nats_fit_cong(1) [of s1 "s\<lparr>members := Map.empty\<rparr>"] nats_fit_cong(2) [of s1 "s\<lparr>alive := {}\<rparr>"]
    by (simp_all add: s1_def sub_inv_def view_empty)
  have keep: "life_ok ex u \<and> reports self (view s) is (view u)"
    if "good ex s1 is w" "members u = members w" "alive u = alive w" "cb u = cb w" "once u = once w" for "is" and u w :: natsjet
    using good_same [OF that] inv(4,5) life_ok_good by (metis good_def)
  have g: "good ex s1 infos1 s2" "good ex s1 (infos1 @ infos2) s3"
    using nats_good_getMembers [OF 1 inv(1,2)] nats_good_both [OF 1 2 inv(1-3)] by simp_all
  have r: "(err, infos, s') = (case err0 of
      Some e \<Rightarrow> (Some e, [], t)
    | None \<Rightarrow> (case err1 of
        Some e \<Rightarrow> (Some e, infos1, cleanupConn (s2\<lparr>cancelled := True\<rparr>))
      | None \<Rightarrow> (case err2 of
          Some e \<Rightarrow> (Some e, infos1 @ infos2, cleanupConn (s3\<lparr>cancelled := True\<rparr>))
        | None \<Rightarrow> (None, infos1 @ infos2, watch_start ok1 ok2 s3))))"
    unfolding assms(1) [symmetric] using False i 1 2 by (simp add: nats_Subscribe_def s1_def split: option.split)
  show ?thesis
    using r t e keep [OF g(1), of "cleanupConn (s2\<lparr>cancelled := True\<rparr>)"]
      keep [OF g(2), of "cleanupConn (s3\<lparr>cancelled := True\<rparr>)"] keep [OF g(2), of "watch_start ok1 ok2 s3"]
    by (auto simp: watch_start_def life_ok_def view_empty split: option.splits)
qed

interpretation natsjet: provider "nats_step ex E U" view "life_ok ex"
  for ex E U
proof
  have "life_ok ex s' \<and> reports self (view s) infos (view s')"
    if "life_ok ex s" "nats_step ex E U s infos s'" for self s infos s'
    using that(2)
  proof cases
    case (nats_subscribes R keys1 get order1 keys2 order2 ok1 ok2 err)
    from nats_subscribe_reports [OF this(1) that(1) this(2,3)] show ?thesis .
  next
    case (nats_watches sel)
    have "sub_inv ex s" "once s" using that(1) nats_watches(1) by (auto simp: life_ok_def sub_inv_def)
    with nats_good_watch [OF nats_watches(2) _ nats_watches(3)] life_ok_good show ?thesis by (metis good_def)
  next
    case nats_closes
    then have "view s' = view s" by (intro view_cong) (simp_all add: nats_close_def Let_def)
    moreover have "life_ok ex s'" using nats_closes that(1) by (auto simp: nats_close_def life_ok_def Let_def)
    ultimately show ?thesis using nats_closes by simp
  qed
  then show "life_ok ex s \<Longrightarrow> nats_step ex E U s infos s' \<Longrightarrow> life_ok ex s'"
    "life_ok ex s \<Longrightarrow> nats_step ex E U s infos s' \<Longrightarrow> reports self (view s) infos (view s')" for s infos s' self
    by blast+
qed

text \<open>
  The callback is not called when there is nothing to report: subscribing to two empty
  buckets succeeds without a call.
\<close>

lemma nats_empty_subscribe:
  assumes "\<not> once s" "nats_init E R (s\<lparr>once := True, alive := {}, members := Map.empty\<rparr>) = (None, t)"
    and "bucket_keys E keys1 = Inr []" "bucket_keys E keys2 = Inr []"
  shows "\<exists>s'. nats_Subscribe E U True R keys1 get ([], []) keys2 ([], []) ok1 ok2 s = (None, [], s') \<and> watching s'"
  using assms by (simp add: nats_Subscribe_def nats_getMembers_def nats_getAlives_def got_def
      List.map_filter_simps report_def watch_start_def Let_def)

section \<open>Properties\<close>


definition demo_nats :: natsjet where
  "demo_nats = \<lparr>alive = {}, members = Map.empty, cb = False, once = False, closeFunc = False, closed = False,
     cancelled = False, watching = False, hadError = False, Prefix = [], AliveTTL = 0, nc = False, js = False,
     membersKV = False, aliveKV = False, connClosed = False, membersW = False, aliveW = False,
     membersCh = False, aliveCh = False\<rparr>"

definition demo_nats_errors :: nats_errors where
  "demo_nats_errors = \<lparr>ErrKeyNotFound = GoError ''key'', ErrBucketNotFound = GoError ''bucket'',
     ErrNoKeysFound = GoError ''keys'', ErrStreamNameAlreadyInUse = GoError ''stream''\<rparr>"


end
