(* ===== verification/Redis_Scripts.thy ===== *)
theory Redis_Scripts
  imports Provider
begin

text \<open>
  The Lua scripts of the Redis provider (\<open>membership/redis/script.go\<close>), which run on the
  server, one at a time: a hash of configured members and a hash of heartbeats, each with a
  version that every change raises and whose value is stored with the changed entry.

  The commands of the Redis server are the record \<open>redis_server\<close>, with their documented
  effects as the law \<open>redis_ok\<close>; a key is used either for strings or for hashes, never for
  both. A script that fails has no result (\<open>None\<close>). Lua prints a whole number with up to 14
  digits in full, so versions and times are numbers below \<open>10 ^ 14\<close>.

  The scripts are shown to implement operations on an abstract table: a version and a map
  from addresses to the version, flag and data of their entry.
\<close>

section \<open>The server\<close>

record 'db redis_server =
  rget :: "'db \<Rightarrow> string \<Rightarrow> string option"
  rset :: "string \<Rightarrow> string \<Rightarrow> 'db \<Rightarrow> 'db"
  hget :: "'db \<Rightarrow> string \<Rightarrow> string \<Rightarrow> string option"
  hset :: "string \<Rightarrow> string \<Rightarrow> string \<Rightarrow> 'db \<Rightarrow> 'db"
  hgetall :: "'db \<Rightarrow> string \<Rightarrow> (string \<times> string) list"

definition redis_ok :: "'db redis_server \<Rightarrow> bool" where
  "redis_ok R \<longleftrightarrow>
     (\<forall>k v db k'. rget R (rset R k v db) k' = (if k' = k then Some v else rget R db k')) \<and>
     (\<forall>k v db h f. hget R (rset R k v db) h f = hget R db h f) \<and>
     (\<forall>h f v db k. rget R (hset R h f v db) k = rget R db k) \<and>
     (\<forall>h f v db h' f'. hget R (hset R h f v db) h' f' = (if h' = h \<and> f' = f then Some v else hget R db h' f')) \<and>
     (\<forall>db h. distinct (map fst (hgetall R db h)) \<and> map_of (hgetall R db h) = hget R db h)"

section \<open>Numbers and patterns\<close>

text \<open>The separator \<open>string.char(1)\<close>.\<close>

definition S :: char where "S = CHR 0x01"

definition tonumber :: "string \<Rightarrow> nat option" where
  "tonumber s = (if s = [] then None else parse_digits 0 s)"

text \<open>
  \<open>s:match('^(.-)' .. S .. '(.-)' .. S .. '(.*)$')\<close>: the text before the first separator, the
  text between the first two, and the rest.
\<close>

definition lua_match :: "string \<Rightarrow> (string \<times> string \<times> string) option" where
  "lua_match s =
     (case dropWhile (\<lambda>c. c \<noteq> S) s of
        [] \<Rightarrow> None
      | _ # t \<Rightarrow>
          (case dropWhile (\<lambda>c. c \<noteq> S) t of
             [] \<Rightarrow> None
           | _ # rest \<Rightarrow> Some (takeWhile (\<lambda>c. c \<noteq> S) s, takeWhile (\<lambda>c. c \<noteq> S) t, rest)))"

text \<open>The value of an entry.\<close>

definition entry_text :: "nat \<Rightarrow> string \<Rightarrow> string \<Rightarrow> string" where
  "entry_text ver flag data = show_nat ver @ S # flag @ S # data"

text \<open>The next version, as every script that changes something begins.\<close>

definition next_version :: "'db redis_server \<Rightarrow> 'db \<Rightarrow> string \<Rightarrow> nat option" where
  "next_version R db vkey =
     (case rget R db vkey of None \<Rightarrow> Some 1 | Some s \<Rightarrow> map_option Suc (tonumber s))"

section \<open>The scripts\<close>

text \<open>A script that changes something gives the new state of the server and what it publishes.\<close>

type_synonym 'db script_result = "('db \<times> (string \<times> string) list) option"

definition ScriptUpdateMember ::
    "'db redis_server \<Rightarrow> string \<Rightarrow> string \<Rightarrow> string \<Rightarrow> string \<Rightarrow> string \<Rightarrow> string \<Rightarrow> 'db \<Rightarrow> 'db script_result" where
  "ScriptUpdateMember R a mkey vkey action data channel db =
     (case next_version R db vkey of
        None \<Rightarrow> None
      | Some serverVer \<Rightarrow>
          let db = rset R vkey (show_nat serverVer) db
          in if action = ''insert_update'' then
               Some (hset R mkey a (entry_text serverVer ''false'' data) db, [(channel, show_nat serverVer)])
             else if action = ''delete'' then
               (case hget R db mkey a of
                  None \<Rightarrow> Some (db, [])
                | Some existing \<Rightarrow>
                    let info = (case lua_match existing of None \<Rightarrow> [] | Some (_, _, info) \<Rightarrow> info)
                    in Some (hset R mkey a (entry_text serverVer ''true'' info) db, [(channel, show_nat serverVer)]))
             else Some (db, []))"

text \<open>
  The two scripts that read have the same loop over the entries; \<open>clientVer\<close> is 0 for a
  client that knows nothing yet, which is only told about entries with the flag \<open>false\<close>.
\<close>

fun changed_since :: "nat \<Rightarrow> (string \<times> string) list \<Rightarrow> (string \<times> string \<times> string) list option" where
  "changed_since clientVer [] = Some []"
| "changed_since clientVer ((a, v) # rest) =
     (case lua_match v of
        None \<Rightarrow> changed_since clientVer rest
      | Some (ver, flag, data) \<Rightarrow>
          if clientVer = 0 then
            if flag = ''false'' then map_option ((#) (a, data, flag)) (changed_since clientVer rest)
            else changed_since clientVer rest
          else
            (case tonumber ver of
               None \<Rightarrow> None
             | Some n \<Rightarrow>
                 if n > clientVer then map_option ((#) (a, data, flag)) (changed_since clientVer rest)
                 else changed_since clientVer rest))"

text \<open>
  The reply: the version, and the entries if the client is not up to date. Each entry is an
  address with its data and flag.
\<close>

type_synonym reply = "nat \<times> (string \<times> string \<times> string) list option"

definition ScriptGetMembers :: "'db redis_server \<Rightarrow> string \<Rightarrow> string \<Rightarrow> nat \<Rightarrow> 'db \<Rightarrow> reply option" where
  "ScriptGetMembers R mkey vkey clientVer db =
     (case rget R db vkey of
        None \<Rightarrow> Some (clientVer, None)
      | Some s \<Rightarrow>
          (case tonumber s of
             None \<Rightarrow> None
           | Some serverVer \<Rightarrow>
               if clientVer = serverVer then Some (serverVer, None)
               else map_option (\<lambda>nodes. (serverVer, Some nodes)) (changed_since clientVer (hgetall R db mkey))))"

text \<open>The same for the heartbeats; the reply has no data.\<close>

definition ScriptGetAlives :: "'db redis_server \<Rightarrow> string \<Rightarrow> string \<Rightarrow> nat \<Rightarrow> 'db \<Rightarrow> reply option" where
  "ScriptGetAlives R akey vkey clientVer db =
     map_option (\<lambda>(ver, nodes). (ver, map_option (map (\<lambda>(a, data, flag). (a, [], flag))) nodes))
       (ScriptGetMembers R akey vkey clientVer db)"

definition ScriptHeartbeat ::
    "'db redis_server \<Rightarrow> string \<Rightarrow> string \<Rightarrow> string \<Rightarrow> nat \<Rightarrow> string \<Rightarrow> nat \<Rightarrow> 'db \<Rightarrow> 'db script_result" where
  "ScriptHeartbeat R a akey vkey timeout channel now db =
     (let nodeData = hget R db akey a;
          deadline = show_nat (now + timeout);
          fields = (case nodeData of None \<Rightarrow> None | Some d \<Rightarrow> lua_match d);
          prevDead = (case fields of None \<Rightarrow> ''false'' | Some (_, d, _) \<Rightarrow> d)
      in if prevDead = ''false'' then
           (case next_version R db vkey of
              None \<Rightarrow> None
            | Some serverVer \<Rightarrow>
                Some (hset R akey a (show_nat serverVer @ S # ''false'' @ S # deadline) (rset R vkey (show_nat serverVer) db),
                  [(channel, show_nat serverVer)]))
         else
           (case fields of
              None \<Rightarrow> None
            | Some (ver, _, _) \<Rightarrow> Some (hset R akey a (ver @ S # deadline) db, [])))"

text \<open>
  \<open>ScriptCheckTimeout\<close>: the loop over all heartbeats, with whether anything changed so far;
  the pattern wants a deadline that is not empty.
\<close>

fun expire ::
    "'db redis_server \<Rightarrow> string \<Rightarrow> string \<Rightarrow> nat \<Rightarrow> nat \<Rightarrow> (string \<times> string) list \<Rightarrow> bool \<times> 'db \<Rightarrow> (bool \<times> 'db) option" where
  "expire R akey vkey now serverVer [] (change, db) = Some (change, db)"
| "expire R akey vkey now serverVer ((a, v) # rest) (change, db) =
     (case lua_match v of
        Some (_, dead, dl) \<Rightarrow>
          if dead = ''false'' \<and> dl \<noteq> [] then
            (case tonumber dl of
               None \<Rightarrow> None
             | Some deadline \<Rightarrow>
                 if now > deadline then
                   let db = (if change then db else rset R vkey (show_nat serverVer) db)
                   in expire R akey vkey now serverVer rest
                        (True, hset R akey a (entry_text serverVer ''true'' dl) db)
                 else expire R akey vkey now serverVer rest (change, db))
          else expire R akey vkey now serverVer rest (change, db)
      | None \<Rightarrow> expire R akey vkey now serverVer rest (change, db))"

definition ScriptCheckTimeout ::
    "'db redis_server \<Rightarrow> string \<Rightarrow> string \<Rightarrow> string \<Rightarrow> nat \<Rightarrow> 'db \<Rightarrow> 'db script_result" where
  "ScriptCheckTimeout R akey vkey channel now db =
     (case next_version R db vkey of
        None \<Rightarrow> None
      | Some serverVer \<Rightarrow>
          (case expire R akey vkey now serverVer (hgetall R db akey) (False, db) of
             None \<Rightarrow> None
           | Some (change, db) \<Rightarrow> Some (db, if change then [(channel, show_nat serverVer)] else [])))"

section \<open>Running a script\<close>

fun contains :: "string \<Rightarrow> string \<Rightarrow> bool" where
  "contains [] sub \<longleftrightarrow> sub = []"
| "contains (c # s) sub \<longleftrightarrow> take (length sub) (c # s) = sub \<or> contains s sub"

record script =
  src :: string
  sha :: string

definition newScript :: "(string \<Rightarrow> string) \<Rightarrow> string \<Rightarrow> script" where
  "newScript sha1_hex text = \<lparr>src = text, sha = sha1_hex text\<rparr>"

text \<open>
  \<open>script.eval\<close>: run by its hash, and by its text if the server does not know the hash; both
  calls are arguments.
\<close>

definition script_eval ::
    "(string \<Rightarrow> 'r \<times> go_error option) \<Rightarrow> (string \<Rightarrow> 'r \<times> go_error option) \<Rightarrow> (go_error \<Rightarrow> string) \<Rightarrow> script \<Rightarrow>
     'r \<times> go_error option" where
  "script_eval EvalSha Eval error_text s =
     (case EvalSha (sha s) of
        (result, Some err) \<Rightarrow>
          if contains (error_text err) ''NOSCRIPT'' then Eval (src s) else (result, Some err)
      | (result, None) \<Rightarrow> (result, None))"

section \<open>The abstract table\<close>

definition version :: "'db redis_server \<Rightarrow> 'db \<Rightarrow> string \<Rightarrow> nat" where
  "version R db vkey =
     (case rget R db vkey of None \<Rightarrow> 0 | Some s \<Rightarrow> (case tonumber s of None \<Rightarrow> 0 | Some n \<Rightarrow> n))"

definition row_of :: "string \<Rightarrow> (nat \<times> string \<times> string) option" where
  "row_of v =
     (case lua_match v of
        None \<Rightarrow> None
      | Some (ver, flag, data) \<Rightarrow> (case tonumber ver of None \<Rightarrow> None | Some n \<Rightarrow> Some (n, flag, data)))"

definition rows :: "'db redis_server \<Rightarrow> 'db \<Rightarrow> string \<Rightarrow> string \<rightharpoonup> nat \<times> string \<times> string" where
  "rows R db h a = (case hget R db h a of None \<Rightarrow> None | Some v \<Rightarrow> row_of v)"

definition is_flag :: "string \<Rightarrow> bool" where
  "is_flag flag \<longleftrightarrow> flag = ''true'' \<or> flag = ''false''"

text \<open>
  Well-formed: the version is a positive number, and an entry that matches the scripts'
  pattern has a number and a flag, the number positive and not above the version.
\<close>

definition table_ok :: "'db redis_server \<Rightarrow> string \<Rightarrow> string \<Rightarrow> 'db \<Rightarrow> bool" where
  "table_ok R h vkey db \<longleftrightarrow>
     (\<forall>s. rget R db vkey = Some s \<longrightarrow> (\<exists>n > 0. s = show_nat n)) \<and>
     (\<forall>a v. hget R db h a = Some v \<longrightarrow> lua_match v = None \<or>
        (\<exists>n flag data. v = entry_text n flag data \<and> is_flag flag \<and> 0 < n \<and> n \<le> version R db vkey))"

lemma is_flag_simps [simp]: "is_flag ''true''" "is_flag ''false''"
  by (simp_all add: is_flag_def)

lemma S_not_in: "S \<notin> set (show_nat n)" "is_flag flag \<Longrightarrow> S \<notin> set flag"
  by (auto simp: S_def show_nat_no_low_char is_flag_def)

lemma tonumber_show_nat [simp]: "tonumber (show_nat n) = Some n"
  by (simp add: tonumber_def parse_digits_show_nat)

lemma while_sep:
  "S \<notin> set a \<Longrightarrow> dropWhile (\<lambda>c. c \<noteq> S) (a @ S # r) = S # r"
  "S \<notin> set a \<Longrightarrow> takeWhile (\<lambda>c. c \<noteq> S) (a @ S # r) = a"
  "S \<notin> set a \<Longrightarrow> dropWhile (\<lambda>c. c \<noteq> S) a = []"
  by (induction a) auto

lemma lua_match_two: "S \<notin> set a \<Longrightarrow> S \<notin> set b \<Longrightarrow> lua_match (a @ S # b @ S # c) = Some (a, b, c)"
  by (simp add: lua_match_def while_sep)

lemma lua_match_one: "S \<notin> set a \<Longrightarrow> S \<notin> set b \<Longrightarrow> lua_match (a @ S # b) = None"
  by (simp add: lua_match_def while_sep)

lemma lua_match_entry [simp]:
  "is_flag flag \<Longrightarrow> lua_match (entry_text n flag data) = Some (show_nat n, flag, data)"
  unfolding entry_text_def by (rule lua_match_two) (use S_not_in in auto)

lemma row_of_entry [simp]:
  "is_flag flag \<Longrightarrow> row_of (entry_text n flag data) = Some (n, flag, data)"
  by (simp add: row_of_def)

lemma table_entry:
  assumes "table_ok R h vkey db" "hget R db h a = Some v" "lua_match v \<noteq> None"
  shows "\<exists>n flag data. v = entry_text n flag data \<and> is_flag flag \<and> 0 < n \<and> n \<le> version R db vkey"
proof -
  have "\<forall>a v. hget R db h a = Some v \<longrightarrow> lua_match v = None \<or>
      (\<exists>n flag data. v = entry_text n flag data \<and> is_flag flag \<and> 0 < n \<and> n \<le> version R db vkey)"
    using assms(1) [unfolded table_ok_def] by (rule conjunct2)
  then have "lua_match v = None \<or>
      (\<exists>n flag data. v = entry_text n flag data \<and> is_flag flag \<and> 0 < n \<and> n \<le> version R db vkey)"
    using assms(2) by (elim allE impE)
  then show ?thesis using assms(3) by blast
qed

lemma table_rows:
  assumes "table_ok R h vkey db" "rows R db h a = Some (n, flag, data)"
  shows "hget R db h a = Some (entry_text n flag data)" "is_flag flag" "0 < n" "n \<le> version R db vkey"
proof -
  obtain v where v: "hget R db h a = Some v" "row_of v = Some (n, flag, data)"
    using assms(2) by (auto simp: rows_def split: option.splits)
  then have "lua_match v \<noteq> None" by (auto simp: row_of_def split: option.splits)
  then obtain n' flag' data' where "v = entry_text n' flag' data'" "is_flag flag'" "0 < n'"
    "n' \<le> version R db vkey"
    using table_entry [OF assms(1) v(1)] by auto
  with v show "hget R db h a = Some (entry_text n flag data)" "is_flag flag" "0 < n" "n \<le> version R db vkey"
    by auto
qed

lemma lua_match_row:
  assumes "table_ok R h vkey db" "hget R db h a = Some v"
  shows "lua_match v = (case rows R db h a of None \<Rightarrow> None | Some (n, flag, data) \<Rightarrow> Some (show_nat n, flag, data))"
  using assms unfolding table_ok_def by (fastforce simp: rows_def row_of_def)

lemma next_version_eq: "table_ok R h vkey db \<Longrightarrow> next_version R db vkey = Some (Suc (version R db vkey))"
  by (auto simp: next_version_def version_def table_ok_def split: option.split)

text \<open>Storing an entry under a version that is not above the current one.\<close>

lemma hset_table:
  assumes R: "redis_ok R" and "table_ok R h vkey db" "0 < n" "n \<le> version R db vkey" and v: "is_flag flag"
  shows "table_ok R h vkey (hset R h a (entry_text n flag data) db)"
    "version R (hset R h a (entry_text n flag data) db) vkey = version R db vkey"
    "rows R (hset R h a (entry_text n flag data) db) h = (rows R db h)(a \<mapsto> (n, flag, data))"
proof -
  let ?v = "entry_text n flag data" and ?db = "hset R h a (entry_text n flag data) db"
  have g: "rget R ?db vkey = rget R db vkey" "hget R ?db h b = (if b = a then Some ?v else hget R db h b)" for b
    using R by (auto simp: redis_ok_def)
  show ver: "version R ?db vkey = version R db vkey" by (simp add: version_def g)
  show "rows R ?db h = (rows R db h)(a \<mapsto> (n, flag, data))"
    by (rule ext) (simp add: rows_def g v)
  show "table_ok R h vkey ?db"
    unfolding table_ok_def
  proof (intro conjI allI impI)
    show "\<exists>m > 0. s = show_nat m" if "rget R ?db vkey = Some s" for s
      using that assms(2) unfolding g(1) table_ok_def by simp
    fix b w
    assume w: "hget R ?db h b = Some w"
    show "lua_match w = None \<or>
        (\<exists>m flag data. w = entry_text m flag data \<and> is_flag flag \<and> 0 < m \<and> m \<le> version R ?db vkey)"
    proof (cases "b = a")
      case True
      then have "w = ?v" using w g(2) [of b] by simp
      then show ?thesis using assms(3,4) v ver by (intro disjI2) metis
    next
      case False
      then have "hget R db h b = Some w" using w g(2) [of b] by simp
      from table_entry [OF assms(2) this] show ?thesis unfolding ver by blast
    qed
  qed
qed

text \<open>Raising the version alone.\<close>

lemma bump_table:
  assumes R: "redis_ok R" and "table_ok R h vkey db" "version R db vkey \<le> n" "0 < n"
  shows "table_ok R h vkey (rset R vkey (show_nat n) db)" "version R (rset R vkey (show_nat n) db) vkey = n"
    "rows R (rset R vkey (show_nat n) db) h = rows R db h"
proof -
  let ?db = "rset R vkey (show_nat n) db"
  have g: "rget R ?db vkey = Some (show_nat n)" "hget R ?db h b = hget R db h b" for b
    using R by (auto simp: redis_ok_def)
  show ver: "version R ?db vkey = n" by (simp add: version_def g)
  show "rows R ?db h = rows R db h" by (simp add: rows_def g fun_eq_iff)
  show "table_ok R h vkey ?db"
    unfolding table_ok_def
  proof (intro conjI allI impI)
    show "\<exists>m > 0. s = show_nat m" if "rget R ?db vkey = Some s" for s using that g(1) assms(4) by auto
    fix b w
    assume "hget R ?db h b = Some w"
    then have w: "hget R db h b = Some w" using g(2) by simp
    show "lua_match w = None \<or>
        (\<exists>m flag data. w = entry_text m flag data \<and> is_flag flag \<and> 0 < m \<and> m \<le> version R ?db vkey)"
    proof (cases "lua_match w = None")
      case False
      from table_entry [OF assms(2) w False] obtain m fl d
        where m: "w = entry_text m fl d" "is_flag fl" "0 < m" "m \<le> version R db vkey" by blast
      moreover have "m \<le> version R ?db vkey" using m(4) assms(3) ver by linarith
      ultimately show ?thesis by blast
    qed simp
  qed
qed

text \<open>The effect of storing an entry with a new version.\<close>

definition put_row ::
    "'db redis_server \<Rightarrow> string \<Rightarrow> string \<Rightarrow> nat \<Rightarrow> string \<Rightarrow> string \<Rightarrow> 'db \<Rightarrow> 'db" where
  "put_row R h vkey n a v db = hset R h a v (rset R vkey (show_nat n) db)"

lemma put_row_table:
  assumes "redis_ok R" "table_ok R h vkey db" "version R db vkey \<le> n" "0 < n" "is_flag flag"
  shows "table_ok R h vkey (put_row R h vkey n a (entry_text n flag data) db)"
    "version R (put_row R h vkey n a (entry_text n flag data) db) vkey = n"
    "rows R (put_row R h vkey n a (entry_text n flag data) db) h = (rows R db h)(a \<mapsto> (n, flag, data))"
  using hset_table [OF assms(1) bump_table(1) [OF assms(1-4)] assms(4) _ assms(5)] bump_table [OF assms(1-4)]
  by (simp_all add: put_row_def)

text \<open>A table is untouched by changes under other keys.\<close>

definition same_table :: "'db redis_server \<Rightarrow> string \<Rightarrow> string \<Rightarrow> 'db \<Rightarrow> 'db \<Rightarrow> bool" where
  "same_table R h vkey db db' \<longleftrightarrow> rget R db' vkey = rget R db vkey \<and> hget R db' h = hget R db h"

lemma same_tableD:
  assumes "same_table R h vkey db db'"
  shows "version R db' vkey = version R db vkey" "rows R db' h = rows R db h"
    "table_ok R h vkey db' \<longleftrightarrow> table_ok R h vkey db"
  using assms by (simp_all add: same_table_def version_def rows_def table_ok_def fun_eq_iff)

lemma same_table_put_row:
  assumes "redis_ok R" "h' \<noteq> h" "vkey' \<noteq> vkey"
  shows "same_table R h' vkey' db (put_row R h vkey n a v db)"
  using assms by (auto simp: same_table_def put_row_def redis_ok_def fun_eq_iff)

section \<open>The scripts implement operations on the table\<close>

lemma update_inserts:
  assumes "table_ok R mkey vkey db"
  shows "ScriptUpdateMember R a mkey vkey ''insert_update'' data channel db =
    Some (put_row R mkey vkey (Suc (version R db vkey)) a (entry_text (Suc (version R db vkey)) ''false'' data) db,
      [(channel, show_nat (Suc (version R db vkey)))])"
  using next_version_eq [OF assms] by (simp add: ScriptUpdateMember_def put_row_def)

lemma update_deletes:
  assumes "redis_ok R" "table_ok R mkey vkey db" "rows R db mkey a = Some (n, flag, info)"
  shows "ScriptUpdateMember R a mkey vkey ''delete'' data channel db =
    Some (put_row R mkey vkey (Suc (version R db vkey)) a (entry_text (Suc (version R db vkey)) ''true'' info) db,
      [(channel, show_nat (Suc (version R db vkey)))])"
proof -
  have "hget R (rset R vkey v db) mkey a = Some (entry_text n flag info)" for v
    using table_rows(1) [OF assms(2,3)] assms(1) by (simp add: redis_ok_def)
  then show ?thesis
    using next_version_eq [OF assms(2)] table_rows(2) [OF assms(2,3)]
    by (simp add: ScriptUpdateMember_def put_row_def)
qed

lemma update_deletes_nothing:
  assumes "redis_ok R" "table_ok R mkey vkey db" "hget R db mkey a = None"
  shows "ScriptUpdateMember R a mkey vkey ''delete'' data channel db =
    Some (rset R vkey (show_nat (Suc (version R db vkey))) db, [])"
  using next_version_eq [OF assms(2)] assms(1,3) by (simp add: ScriptUpdateMember_def redis_ok_def)

lemma same_table_bump: "redis_ok R \<Longrightarrow> vkey' \<noteq> vkey \<Longrightarrow> same_table R h' vkey' db (rset R vkey v db)"
  by (auto simp: same_table_def redis_ok_def fun_eq_iff)

text \<open>What a client with version \<open>cv\<close> has to be told.\<close>

definition news :: "nat \<Rightarrow> nat \<times> string \<times> string \<Rightarrow> bool" where
  "news cv = (\<lambda>(n, flag, data). if cv = 0 then flag = ''false'' else n > cv)"

definition tell :: "nat \<Rightarrow> string \<times> string \<Rightarrow> (string \<times> string \<times> string) option" where
  "tell cv = (\<lambda>(a, v). case row_of v of None \<Rightarrow> None
     | Some (n, flag, data) \<Rightarrow> if news cv (n, flag, data) then Some (a, data, flag) else None)"

lemma tell_simps:
  "lua_match v = None \<Longrightarrow> tell cv (a, v) = None"
  "is_flag flag \<Longrightarrow> tell cv (a, entry_text n flag data) = (if news cv (n, flag, data) then Some (a, data, flag) else None)"
  by (simp_all add: tell_def row_of_def)

lemma changed_since_tell:
  assumes "\<forall>(a, v) \<in> set l. lua_match v = None \<or> (\<exists>n flag data. v = entry_text n flag data \<and> is_flag flag)"
  shows "changed_since cv l = Some (List.map_filter (tell cv) l)"
  using assms
proof (induction l)
  case Nil
  then show ?case by (simp add: List.map_filter_simps)
next
  case (Cons e l)
  obtain a v where e: "e = (a, v)" by (cases e)
  have IH: "changed_since cv l = Some (List.map_filter (tell cv) l)" using Cons by simp
  consider "lua_match v = None" | n flag data where "v = entry_text n flag data" "is_flag flag"
    using Cons.prems e by auto
  then show ?case
    using IH by cases (auto simp: e List.map_filter_simps tell_simps news_def)
qed

lemma map_filter_tell:
  assumes "distinct (map fst l)"
  shows "distinct (map fst (List.map_filter (tell cv) l))"
    and "set (List.map_filter (tell cv) l) =
      {(a, data, flag). \<exists>v n. (a, v) \<in> set l \<and> row_of v = Some (n, flag, data) \<and> news cv (n, flag, data)}"
proof -
  show s: "set (List.map_filter (tell cv) l) =
      {(a, data, flag). \<exists>v n. (a, v) \<in> set l \<and> row_of v = Some (n, flag, data) \<and> news cv (n, flag, data)}" for l
    by (induction l) (auto simp: List.map_filter_simps tell_def split: option.splits prod.splits if_splits)
  show "distinct (map fst (List.map_filter (tell cv) l))"
    using assms
  proof (induction l)
    case Nil
    then show ?case by (simp add: List.map_filter_simps)
  next
    case (Cons e l)
    have "a \<in> fst ` set l" if "(a, x) \<in> set (List.map_filter (tell cv) l)" for a x using that by (force simp: s)
    moreover have "fst x = fst e" if "tell cv e = Some x" for x
      using that by (auto simp: tell_def split: option.splits prod.splits if_splits)
    ultimately show ?case using Cons
      by (cases "tell cv e") (auto simp: List.map_filter_simps)
  qed
qed

lemma get_entries:
  assumes R: "redis_ok R" and t: "table_ok R h vkey db"
  obtains nodes where "changed_since cv (hgetall R db h) = Some nodes" "distinct (map fst nodes)"
    "\<And>a data flag. (a, data, flag) \<in> set nodes \<longleftrightarrow>
       (\<exists>n. rows R db h a = Some (n, flag, data) \<and> news cv (n, flag, data))"
proof -
  let ?l = "hgetall R db h"
  have l: "distinct (map fst ?l)" "map_of ?l = hget R db h" using R by (auto simp: redis_ok_def)
  have mem: "(a, v) \<in> set ?l \<longleftrightarrow> hget R db h a = Some v" for a v
    using l by (metis map_of_eq_Some_iff)
  have "\<forall>(a, v) \<in> set ?l. lua_match v = None \<or> (\<exists>n flag data. v = entry_text n flag data \<and> is_flag flag)"
    using table_entry [OF t] mem by blast
  from changed_since_tell [OF this] show ?thesis
    by (rule that) (auto simp: map_filter_tell [OF l(1)] mem rows_def split: option.splits)
qed

lemma get_members:
  assumes "redis_ok R" "table_ok R mkey vkey db" "cv \<le> version R db vkey"
  shows "cv = version R db vkey \<Longrightarrow> ScriptGetMembers R mkey vkey cv db = Some (cv, None)"
    and "cv \<noteq> version R db vkey \<Longrightarrow> \<exists>nodes. ScriptGetMembers R mkey vkey cv db = Some (version R db vkey, Some nodes) \<and>
      distinct (map fst nodes) \<and> (\<forall>a data flag. (a, data, flag) \<in> set nodes \<longleftrightarrow>
        (\<exists>n. rows R db mkey a = Some (n, flag, data) \<and> news cv (n, flag, data)))"
proof -
  show "cv = version R db vkey \<Longrightarrow> ScriptGetMembers R mkey vkey cv db = Some (cv, None)"
    using assms(2) by (auto simp: ScriptGetMembers_def version_def table_ok_def split: option.split)
  assume ne: "cv \<noteq> version R db vkey"
  then obtain s where s: "rget R db vkey = Some s" "tonumber s = Some (version R db vkey)"
    using assms(2,3) by (auto simp: version_def table_ok_def split: option.splits)
  obtain nodes where "changed_since cv (hgetall R db mkey) = Some nodes" "distinct (map fst nodes)"
    "\<And>a data flag. (a, data, flag) \<in> set nodes \<longleftrightarrow>
       (\<exists>n. rows R db mkey a = Some (n, flag, data) \<and> news cv (n, flag, data))"
    by (rule get_entries [OF assms(1,2), of cv]) auto
  with ne s show "\<exists>nodes. ScriptGetMembers R mkey vkey cv db = Some (version R db vkey, Some nodes) \<and>
      distinct (map fst nodes) \<and> (\<forall>a data flag. (a, data, flag) \<in> set nodes \<longleftrightarrow>
        (\<exists>n. rows R db mkey a = Some (n, flag, data) \<and> news cv (n, flag, data)))"
    by (simp add: ScriptGetMembers_def)
qed

text \<open>Whatever the client's version is, a reply has entries of the table, each address once.\<close>

lemma reply_entries:
  assumes "redis_ok R" "table_ok R mkey vkey db" "ScriptGetMembers R mkey vkey cv db = Some (ver, entries)"
  shows "entries = None \<Longrightarrow> ver = cv"
    and "entries = Some ns \<Longrightarrow> distinct (map fst ns) \<and>
      (\<forall>(a, data, flag) \<in> set ns. \<exists>n. rows R db mkey a = Some (n, flag, data))"
proof -
  show "entries = None \<Longrightarrow> ver = cv"
    using assms(3) by (auto simp: ScriptGetMembers_def split: option.splits if_splits)
  assume "entries = Some ns"
  then have "changed_since cv (hgetall R db mkey) = Some ns"
    using assms(3) by (auto simp: ScriptGetMembers_def split: option.splits if_splits)
  then show "distinct (map fst ns) \<and> (\<forall>(a, data, flag) \<in> set ns. \<exists>n. rows R db mkey a = Some (n, flag, data))"
    by (rule_tac get_entries [OF assms(1,2), of cv]) auto
qed

lemma reply_exists:
  assumes "redis_ok R" "table_ok R mkey vkey db"
  shows "ScriptGetMembers R mkey vkey cv db \<noteq> None"
proof -
  obtain ns where "changed_since cv (hgetall R db mkey) = Some ns" using get_entries [OF assms] by metis
  moreover have "tonumber s \<noteq> None" if "rget R db vkey = Some s" for s using assms(2) that by (auto simp: table_ok_def)
  ultimately show ?thesis by (auto simp: ScriptGetMembers_def split: option.splits)
qed

text \<open>A heartbeat of a node that is not marked as dead, and of one that is.\<close>

lemma heartbeat_alive:
  assumes "table_ok R akey vkey db" "\<And>n data. rows R db akey a \<noteq> Some (n, ''true'', data)"
  shows "ScriptHeartbeat R a akey vkey timeout channel now db =
    Some (put_row R akey vkey (Suc (version R db vkey)) a
      (entry_text (Suc (version R db vkey)) ''false'' (show_nat (now + timeout))) db,
      [(channel, show_nat (Suc (version R db vkey)))])"
proof -
  have "(case (case hget R db akey a of None \<Rightarrow> None | Some d \<Rightarrow> lua_match d) of
      None \<Rightarrow> ''false'' | Some (_, d, _) \<Rightarrow> d) = ''false''"
  proof (cases "rows R db akey a")
    case None
    then show ?thesis using lua_match_row [OF assms(1)] by (auto split: option.split)
  next
    case (Some r)
    obtain n flag data where r: "r = (n, flag, data)" by (cases r)
    have "is_flag flag" using table_rows(2) [OF assms(1)] Some r by simp
    moreover have "flag \<noteq> ''true''" using assms(2) [of n data] Some r by blast
    ultimately have "flag = ''false''" by (simp only: is_flag_def simp_thms)
    with Some r show ?thesis using table_rows(1) [OF assms(1)] by simp
  qed
  then show ?thesis
    using next_version_eq [OF assms(1)] by (simp add: ScriptHeartbeat_def Let_def put_row_def entry_text_def)
qed

lemma heartbeat_dead:
  assumes "table_ok R akey vkey db" "rows R db akey a = Some (n, ''true'', data)"
  shows "ScriptHeartbeat R a akey vkey timeout channel now db =
    Some (hset R akey a (show_nat n @ S # show_nat (now + timeout)) db, [])"
  using table_rows(1) [OF assms] by (simp add: ScriptHeartbeat_def Let_def)

text \<open>Which heartbeats are too old, and what becomes of the table.\<close>

definition late :: "nat \<Rightarrow> nat \<times> string \<times> string \<Rightarrow> bool" where
  "late now = (\<lambda>(n, flag, data). flag = ''false'' \<and> (case tonumber data of None \<Rightarrow> False | Some t \<Rightarrow> now > t))"

definition timed_out :: "nat \<Rightarrow> nat \<Rightarrow> (nat \<times> string \<times> string) option \<Rightarrow> (nat \<times> string \<times> string) option" where
  "timed_out now N row =
     (case row of
        None \<Rightarrow> None
      | Some (n, flag, data) \<Rightarrow> if late now (n, flag, data) then Some (N, ''true'', data) else Some (n, flag, data))"

text \<open>The heartbeats in the table carry deadlines.\<close>

definition deadlines_ok :: "'db redis_server \<Rightarrow> string \<Rightarrow> 'db \<Rightarrow> bool" where
  "deadlines_ok R akey db \<longleftrightarrow> (\<forall>a n flag data. rows R db akey a = Some (n, flag, data) \<longrightarrow> (\<exists>t. data = show_nat t))"

lemma expire_rows:
  assumes R: "redis_ok R" and "table_ok R akey vkey db" "version R db vkey \<le> N" "change \<Longrightarrow> version R db vkey = N" "0 < N"
    and "distinct (map fst l)" "\<forall>(a, v) \<in> set l. hget R db akey a = Some v"
    and "\<forall>a n flag data. a \<in> fst ` set l \<longrightarrow> rows R db akey a = Some (n, flag, data) \<longrightarrow> (\<exists>t. data = show_nat t)"
  shows "\<exists>change' db'. expire R akey vkey now N l (change, db) = Some (change', db') \<and> (change \<longrightarrow> change') \<and> table_ok R akey vkey db' \<and>
    version R db' vkey = (if change' then N else version R db vkey) \<and>
    (\<forall>a. rows R db' akey a = (if a \<in> fst ` set l then timed_out now N (rows R db akey a) else rows R db akey a)) \<and>
    (\<forall>h k. h \<noteq> akey \<longrightarrow> k \<noteq> vkey \<longrightarrow> same_table R h k db db')"
  using assms(2-)
proof (induction l arbitrary: change db)
  case Nil
  then show ?case by (auto simp: same_table_def)
next
  case (Cons e l)
  obtain a v where e: "e = (a, v)" by (cases e)
  have h: "hget R db akey a = Some v" using Cons.prems(6) e by simp
  note m = lua_match_row [OF Cons.prems(1) h]
  have a: "a \<notin> fst ` set l" using Cons.prems(5) e by simp
  have dl: "\<exists>t. data = show_nat t" if "rows R db akey a = Some (n, flag, data)" for n flag data
    using Cons.prems(7) [rule_format, of a n flag data] e that by simp
  show ?case
  proof (cases "\<exists>r. rows R db akey a = Some r \<and> late now r")
    case False
    have same: "timed_out now N (rows R db akey a) = rows R db akey a"
      using False by (auto simp: timed_out_def split: option.split)
    have "expire R akey vkey now N (e # l) (change, db) = expire R akey vkey now N l (change, db)"
    proof (cases "rows R db akey a")
      case None
      then show ?thesis using m by (simp add: e)
    next
      case (Some r)
      obtain n flag data where r: "r = (n, flag, data)" by (cases r)
      obtain t where "data = show_nat t" using dl Some r by blast
      then show ?thesis using m Some r False by (auto simp: e late_def)
    qed
    moreover have "\<exists>change' db'. expire R akey vkey now N l (change, db) = Some (change', db') \<and> (change \<longrightarrow> change') \<and> table_ok R akey vkey db' \<and>
        version R db' vkey = (if change' then N else version R db vkey) \<and>
        (\<forall>b. rows R db' akey b = (if b \<in> fst ` set l then timed_out now N (rows R db akey b) else rows R db akey b)) \<and>
        (\<forall>h k. h \<noteq> akey \<longrightarrow> k \<noteq> vkey \<longrightarrow> same_table R h k db db')"
      by (rule Cons.IH) (use Cons.prems in auto)
    ultimately show ?thesis using same a e by auto
  next
    case True
    then obtain n data t where row: "rows R db akey a = Some (n, ''false'', data)" "data = show_nat t" "now > t"
      using dl by (fastforce simp: late_def)
    define d1 where "d1 = (if change then db else rset R vkey (show_nat N) db)"
    define d2 where "d2 = hset R akey a (entry_text N ''true'' data) d1"
    have d1: "table_ok R akey vkey d1" "version R d1 vkey = N" "rows R d1 akey = rows R db akey"
        "hget R d1 akey b = hget R db akey b" for b
      using bump_table [OF R Cons.prems(1,2,4)] Cons.prems(1,3) R by (auto simp: d1_def redis_ok_def)
    have d2: "table_ok R akey vkey d2" "version R d2 vkey = N" "rows R d2 akey = (rows R db akey)(a \<mapsto> (N, ''true'', data))"
        "hget R d2 akey b = (if b = a then Some (entry_text N ''true'' data) else hget R db akey b)" for b
      using hset_table [OF R d1(1) Cons.prems(4), of "''true''" a data] d1(2-4) R by (auto simp: d2_def redis_ok_def)
    have same: "same_table R h k db d2" if "h \<noteq> akey" "k \<noteq> vkey" for h k
      using that R by (auto simp: same_table_def d1_def d2_def redis_ok_def fun_eq_iff)
    have go: "expire R akey vkey now N (e # l) (change, db) = expire R akey vkey now N l (True, d2)"
      using m row by (simp add: e d1_def d2_def)
    have 6: "\<forall>(b, w) \<in> set l. hget R d2 akey b = Some w"
    proof clarify
      fix b w
      assume bw: "(b, w) \<in> set l"
      then have "b \<noteq> a" using a by force
      then show "hget R d2 akey b = Some w" using bw Cons.prems(6) d2(4) [of b] by auto
    qed
    have 7: "\<forall>b n flag dat. b \<in> fst ` set l \<longrightarrow> rows R d2 akey b = Some (n, flag, dat) \<longrightarrow> (\<exists>t. dat = show_nat t)"
      using Cons.prems(7) a d2(3) by auto
    have "\<exists>change' db'. expire R akey vkey now N l (True, d2) = Some (change', db') \<and> (True \<longrightarrow> change') \<and> table_ok R akey vkey db' \<and>
        version R db' vkey = (if change' then N else version R d2 vkey) \<and>
        (\<forall>b. rows R db' akey b = (if b \<in> fst ` set l then timed_out now N (rows R d2 akey b) else rows R d2 akey b)) \<and>
        (\<forall>h k. h \<noteq> akey \<longrightarrow> k \<noteq> vkey \<longrightarrow> same_table R h k d2 db')"
      by (rule Cons.IH [OF d2(1) _ _ Cons.prems(4) _ 6 7]) (use Cons.prems(5) d2(2) in auto)
    then obtain db' where r: "expire R akey vkey now N l (True, d2) = Some (True, db')" "table_ok R akey vkey db'"
        "version R db' vkey = N"
        "\<And>b. rows R db' akey b = (if b \<in> fst ` set l then timed_out now N (rows R d2 akey b) else rows R d2 akey b)"
        "\<And>h k. h \<noteq> akey \<Longrightarrow> k \<noteq> vkey \<Longrightarrow> same_table R h k d2 db'"
      using d2(2) by auto
    have "timed_out now N (rows R db akey a) = Some (N, ''true'', data)"
      using row by (simp add: timed_out_def late_def)
    then have "\<forall>b. rows R db' akey b = (if b \<in> fst ` set (e # l) then timed_out now N (rows R db akey b) else rows R db akey b)"
      using r(4) a e d2(3) by auto
    moreover have "\<forall>h k. h \<noteq> akey \<longrightarrow> k \<noteq> vkey \<longrightarrow> same_table R h k db db'"
      using r(5) same by (simp add: same_table_def)
    ultimately show ?thesis unfolding go r(1) using r(2,3) by auto
  qed
qed

lemma check_timeout:
  assumes R: "redis_ok R" and t: "table_ok R akey vkey db" and d: "deadlines_ok R akey db"
  obtains db' pub where "ScriptCheckTimeout R akey vkey channel now db = Some (db', pub)" "table_ok R akey vkey db'"
    "version R db vkey \<le> version R db' vkey" "deadlines_ok R akey db'"
    "\<And>a. rows R db' akey a = timed_out now (Suc (version R db vkey)) (rows R db akey a)"
    "\<And>h k. h \<noteq> akey \<Longrightarrow> k \<noteq> vkey \<Longrightarrow> same_table R h k db db'"
proof -
  let ?l = "hgetall R db akey" and ?N = "Suc (version R db vkey)"
  have l: "distinct (map fst ?l)" "map_of ?l = hget R db akey" using R by (auto simp: redis_ok_def)
  then have mem: "(a, v) \<in> set ?l \<longleftrightarrow> hget R db akey a = Some v" for a v by (metis map_of_eq_Some_iff)
  have "\<exists>change' db'. expire R akey vkey now ?N ?l (False, db) = Some (change', db') \<and> (False \<longrightarrow> change') \<and>
      table_ok R akey vkey db' \<and> version R db' vkey = (if change' then ?N else version R db vkey) \<and>
      (\<forall>a. rows R db' akey a = (if a \<in> fst ` set ?l then timed_out now ?N (rows R db akey a) else rows R db akey a)) \<and>
      (\<forall>h k. h \<noteq> akey \<longrightarrow> k \<noteq> vkey \<longrightarrow> same_table R h k db db')"
    by (rule expire_rows [OF R t _ _ _ l(1)]) (use mem d in \<open>auto simp: deadlines_ok_def\<close>)
  then obtain c db' where r: "expire R akey vkey now ?N ?l (False, db) = Some (c, db')" "table_ok R akey vkey db'"
      "version R db' vkey = (if c then ?N else version R db vkey)"
      "\<And>a. rows R db' akey a = (if a \<in> fst ` set ?l then timed_out now ?N (rows R db akey a) else rows R db akey a)"
      "\<And>h k. h \<noteq> akey \<Longrightarrow> k \<noteq> vkey \<Longrightarrow> same_table R h k db db'"
    by auto
  have "rows R db akey a = None" if "a \<notin> fst ` set ?l" for a
  proof (cases "hget R db akey a")
    case (Some v)
    then have "(a, v) \<in> set ?l" using mem by simp
    then have "fst (a, v) \<in> fst ` set ?l" by (rule imageI)
    with that show ?thesis by simp
  qed (simp add: rows_def)
  then have row: "rows R db' akey a = timed_out now ?N (rows R db akey a)" for a
    using r(4) [of a] by (auto simp: timed_out_def)
  have "\<exists>t. data = show_nat t" if "rows R db' akey a = Some (n, flag, data)" for a n flag data
    using that d row [of a] by (auto simp: timed_out_def deadlines_ok_def split: option.splits if_splits)
  then have d': "deadlines_ok R akey db'" unfolding deadlines_ok_def by blast
  have s: "ScriptCheckTimeout R akey vkey channel now db = Some (db', if c then [(channel, show_nat ?N)] else [])"
    using next_version_eq [OF t] r(1) by (simp add: ScriptCheckTimeout_def)
  show ?thesis by (rule that [OF s r(2) _ d' row r(5)]) (simp_all add: r(3))
qed

end
