(* ===== verification/Redis.thy ===== *)
theory Redis
  imports Redis_Scripts
begin

text \<open>
  The Redis provider (\<open>membership/redis/redis.go\<close>, \<open>admin.go\<close>, \<open>subscribe.go\<close>): the subscriber
  that polls the server for what changed since the version it knows, its watch loop with
  resubscription and recovery, and the operations of a configuration tool.

  The subscriber is shown to meet the contract of a provider, and to be exactly up to date
  with the server after each poll.

  \<open>ask\<close> is what running a script returns for the client's version: the reply and an error.
  The connection to the server is outside the repository.
\<close>

record redis = subscriber +
  MemberKey :: string
  AliveKey :: string
  memberVersion :: nat
  aliveVersion :: nat

definition getMemberKey :: "redis \<Rightarrow> string" where
  "getMemberKey m = (if MemberKey m = [] then ''members'' else MemberKey m)"

definition getAliveKey :: "redis \<Rightarrow> string" where
  "getAliveKey m = (if AliveKey m = [] then ''alive'' else AliveKey m)"

definition getMemberVersionKey :: "redis \<Rightarrow> string" where
  "getMemberVersionKey m = getMemberKey m @ ''_version''"

definition getAliveVersionKey :: "redis \<Rightarrow> string" where
  "getAliveVersionKey m = getAliveKey m @ ''_version''"

definition GetRedisError :: "go_error option \<Rightarrow> go_error option" where
  "GetRedisError err = (if err = None \<or> err = Some (GoError ''redis: nil'') then None else err)"

section \<open>Polling\<close>

type_synonym asking = "nat \<Rightarrow> reply option \<times> go_error option"

fun alive_entries :: "(string \<times> string \<times> string) list \<Rightarrow> redis \<times> MemberInfo \<Rightarrow> redis \<times> MemberInfo" where
  "alive_entries [] x = x"
| "alive_entries ((a, _, dead) # rest) x =
     alive_entries rest (if dead = ''true'' then delete_alive a x else put_alive a x)"

text \<open>The reply must be a list, and must have a second element when the version is new.\<close>

definition redis_getAlives :: "asking \<Rightarrow> redis \<Rightarrow> redis reporting option" where
  "redis_getAlives ask cli =
     (let (re, err) = ask (aliveVersion cli)
      in (case GetRedisError err of
            Some err \<Rightarrow> Some (Some err, [], cli)
          | None \<Rightarrow>
              (case re of
                 None \<Rightarrow> None
               | Some (ver, entries) \<Rightarrow>
                   if ver = aliveVersion cli then Some (None, [], cli)
                   else
                     (case entries of
                        None \<Rightarrow> None
                      | Some ns \<Rightarrow>
                          let (cli, nodeinfo) = alive_entries ns (cli\<lparr>aliveVersion := ver\<rparr>, no_change)
                          in Some (None, report cli nodeinfo, cli)))))"

text \<open>A member that is marked as deleted is reported with the data of the reply.\<close>

definition remove_entry :: "Node \<Rightarrow> redis \<times> MemberInfo \<Rightarrow> redis \<times> MemberInfo" where
  "remove_entry n = (\<lambda>(cli, nodeinfo).
     let la = LogicAddr_String (logic n)
     in if members cli la \<noteq> None then
          (cli\<lparr>members := (members cli)(la := None)\<rparr>,
           nodeinfo\<lparr>Remove := Remove nodeinfo @ [n\<lparr>Available := isAlive cli la \<and> Available n\<rparr>]\<rparr>)
        else (cli, nodeinfo))"

fun member_entries ::
    "(bytes \<Rightarrow> Node option) \<Rightarrow> (string \<times> string \<times> string) list \<Rightarrow> redis \<times> MemberInfo \<Rightarrow> redis \<times> MemberInfo" where
  "member_entries U [] x = x"
| "member_entries U ((_, m, markdel) # rest) x =
     member_entries U rest
       (case U (bytes_of_string m) of
          None \<Rightarrow> x
        | Some n \<Rightarrow> if markdel = ''true'' then remove_entry n x else put_member n x)"

definition redis_getMembers :: "(bytes \<Rightarrow> Node option) \<Rightarrow> asking \<Rightarrow> redis \<Rightarrow> redis reporting option" where
  "redis_getMembers U ask cli =
     (let (re, err) = ask (memberVersion cli)
      in (case GetRedisError err of
            Some err \<Rightarrow> Some (Some err, [], cli)
          | None \<Rightarrow>
              (case re of
                 None \<Rightarrow> None
               | Some (ver, entries) \<Rightarrow>
                   if ver = memberVersion cli then Some (None, [], cli)
                   else
                     (case entries of
                        None \<Rightarrow> None
                      | Some ns \<Rightarrow>
                          let (cli, nodeinfo) = member_entries U ns (cli\<lparr>memberVersion := ver\<rparr>, no_change)
                          in Some (None, report cli nodeinfo, cli)))))"

section \<open>Watching\<close>

text \<open>
  \<open>resubscribe\<close>: each attempt finds the context done, or fails to subscribe, or succeeds. The
  result says whether there is a new subscription; without another attempt it goes on.
\<close>

datatype resubscribing = ContextDone | ReceiveFails | Receives

fun resubscribe :: "resubscribing list \<Rightarrow> bool option" where
  "resubscribe [] = None"
| "resubscribe (ContextDone # rest) = Some False"
| "resubscribe (ReceiveFails # rest) = resubscribe rest"
| "resubscribe (Receives # rest) = Some True"

text \<open>
  One round of the select: the subscription's channel is closed, a message arrives, a tick,
  with the answers to its four possible requests, or the context is done.
\<close>

datatype redis_select =
    ChannelClosed "resubscribing list"
  | Message string asking
  | RedisTick asking asking asking asking
  | RedisDone

text \<open>A second request whose result is ignored.\<close>

definition ignoring :: "redis reporting option \<Rightarrow> (MemberInfo list \<times> redis) option" where
  "ignoring r = map_option (\<lambda>(err, infos, s). (infos, s)) r"

definition redis_watch ::
    "(bytes \<Rightarrow> Node option) \<Rightarrow> redis_select \<Rightarrow> redis \<Rightarrow> (MemberInfo list \<times> redis) option" where
  "redis_watch U sel cli =
     (case sel of
        ChannelClosed attempts \<Rightarrow>
          (case resubscribe attempts of
             None \<Rightarrow> Some ([], cli)
           | Some _ \<Rightarrow> Some ([], cli\<lparr>hadError := True\<rparr>))
      | Message channel ask \<Rightarrow>
          if channel = getMemberKey cli then
            map_option (\<lambda>(err, infos, cli). (infos, if err \<noteq> None then cli\<lparr>hadError := True\<rparr> else cli))
              (redis_getMembers U ask cli)
          else if channel = getAliveKey cli then
            map_option (\<lambda>(err, infos, cli). (infos, if err \<noteq> None then cli\<lparr>hadError := True\<rparr> else cli))
              (redis_getAlives ask cli)
          else Some ([], cli)
      | RedisTick ask1 ask2 ask3 ask4 \<Rightarrow>
          (case redis_getMembers U ask1 cli of
             None \<Rightarrow> None
           | Some (err1, infos1, cli) \<Rightarrow>
               (case redis_getAlives ask2 cli of
                  None \<Rightarrow> None
                | Some (err2, infos2, cli) \<Rightarrow>
                    let cli = (if err1 \<noteq> None \<or> err2 \<noteq> None then cli\<lparr>hadError := True\<rparr> else cli)
                    in if hadError cli \<and> err1 = None \<and> err2 = None then
                         (case ignoring (redis_getMembers U ask3 (cli\<lparr>memberVersion := 0, aliveVersion := 0\<rparr>)) of
                            None \<Rightarrow> None
                          | Some (infos3, cli) \<Rightarrow>
                              (case ignoring (redis_getAlives ask4 cli) of
                                 None \<Rightarrow> None
                               | Some (infos4, cli) \<Rightarrow>
                                   Some (infos1 @ infos2 @ infos3 @ infos4, cli\<lparr>hadError := False\<rparr>)))
                       else Some (infos1 @ infos2, cli)))
      | RedisDone \<Rightarrow> Some ([], cli\<lparr>watching := False\<rparr>))"

definition redis_close :: "redis \<Rightarrow> redis" where
  "redis_close cli =
     (if closed cli then cli
      else let cli = cli\<lparr>closed := True\<rparr> in if closeFunc cli then cli\<lparr>cancelled := True\<rparr> else cli)"

definition redis_Subscribe ::
    "(bytes \<Rightarrow> Node option) \<Rightarrow> bool \<Rightarrow> asking \<Rightarrow> asking \<Rightarrow> redis \<Rightarrow> redis reporting option" where
  "redis_Subscribe U callback ask1 ask2 cli =
     (if once cli then Some (None, [], cli)
      else
        (case redis_getMembers U ask1 (cli\<lparr>once := True, alive := {}, members := Map.empty, cb := callback\<rparr>) of
           None \<Rightarrow> None
         | Some (Some err, infos, cli) \<Rightarrow> Some (Some err, infos, cli)
         | Some (None, infos1, cli) \<Rightarrow>
             (case redis_getAlives ask2 cli of
                None \<Rightarrow> None
              | Some (Some err, infos2, cli) \<Rightarrow> Some (Some err, infos1 @ infos2, cli)
              | Some (None, infos2, cli) \<Rightarrow>
                  Some (None, infos1 @ infos2, cli\<lparr>closeFunc := True, watching := True, hadError := False\<rparr>))))"

section \<open>The operations of a configuration tool\<close>

text \<open>An error of \<open>Marshal\<close> is ignored, and the member is stored with empty data.\<close>

definition redis_UpdateMember ::
    "'db redis_server \<Rightarrow> (nodeJson \<Rightarrow> go_error + bytes) \<Rightarrow> Node \<Rightarrow> redis \<Rightarrow> 'db \<Rightarrow> 'db script_result" where
  "redis_UpdateMember R json_Marshal n cli db =
     (let jsonBytes = (case Node_Marshal json_Marshal n of Inl err \<Rightarrow> [] | Inr b \<Rightarrow> b)
      in ScriptUpdateMember R (LogicAddr_String (logic n)) (getMemberKey cli) (getMemberVersionKey cli)
           ''insert_update'' (string_of_bytes jsonBytes) (getMemberKey cli) db)"

definition redis_RemoveMember :: "'db redis_server \<Rightarrow> logic_addr \<Rightarrow> redis \<Rightarrow> 'db \<Rightarrow> 'db script_result" where
  "redis_RemoveMember R n cli db =
     ScriptUpdateMember R (LogicAddr_String n) (getMemberKey cli) (getMemberVersionKey cli)
       ''delete'' [] (getMemberKey cli) db"

definition redis_KeepAlive :: "'db redis_server \<Rightarrow> logic_addr \<Rightarrow> nat \<Rightarrow> nat \<Rightarrow> redis \<Rightarrow> 'db \<Rightarrow> 'db script_result" where
  "redis_KeepAlive R n second now cli db =
     ScriptHeartbeat R (LogicAddr_String n) (getAliveKey cli) (getAliveVersionKey cli) second (getAliveKey cli) now db"

definition CheckTimeout :: "'db redis_server \<Rightarrow> nat \<Rightarrow> redis \<Rightarrow> 'db \<Rightarrow> 'db script_result" where
  "CheckTimeout R now cli db =
     ScriptCheckTimeout R (getAliveKey cli) (getAliveVersionKey cli) (getAliveKey cli) now db"

section \<open>The entries of a reply\<close>

lemma version_fields [simp]:
  "view (s\<lparr>memberVersion := v\<rparr>) = view s" "view (s\<lparr>aliveVersion := v\<rparr>) = view s"
  by (rule view_cong; simp)+

lemma in_step_remove_entry:
  assumes "in_step ex self V (s, info)" "Export n = ex (logic n)" "logic n \<notin> touched info"
  shows "in_step ex self V (remove_entry n (s, info))"
proof (cases "members s (LogicAddr_String (logic n))")
  case None
  then show ?thesis using assms(1) by (simp add: remove_entry_def Let_def)
next
  case (Some m)
  let ?k = "LogicAddr_String (logic n)" and ?v = "n\<lparr>Available := isAlive s (LogicAddr_String (logic n)) \<and> Available n\<rparr>"
  have inv: "cb s" "keyed ex (members s)" and t: "tally self V info (view s)"
    using assms(1) by (simp_all add: in_step_def sub_inv_def)
  have "known self (view s) ?v" using known_view [OF inv(2), of ?v self] Some assms(2) by simp
  from tally_remove [OF t _ this] assms(3)
  have "tally self V (info\<lparr>Remove := Remove info @ [?v]\<rparr>) ((view s)(logic n := None))" by simp
  moreover have "view (s\<lparr>members := (members s)(?k := None)\<rparr>) = (view s)(logic n := None)"
    by (rule ext) (simp add: view_def isAlive_def split: option.split)
  ultimately show ?thesis using Some inv by (simp add: remove_entry_def Let_def in_step_def sub_inv_def)
qed

lemma touched_entry:
  "touched (snd (remove_entry n (s, info))) \<subseteq> insert (logic n) (touched info)"
  "touched (snd (put_member n (s, info))) \<subseteq> insert (logic n) (touched info)"
  by (auto simp: remove_entry_def put_member_def Let_def)

text \<open>The entry of an address is about the node with that address.\<close>

definition about :: "(logic_addr \<Rightarrow> bool) \<Rightarrow> (bytes \<Rightarrow> Node option) \<Rightarrow> string \<Rightarrow> string \<Rightarrow> bool" where
  "about ex U a data \<longleftrightarrow>
     (\<forall>n. U (bytes_of_string data) = Some n \<longrightarrow> LogicAddr_String (logic n) = a \<and> Export n = ex (logic n))"

text \<open>What reading a reply leaves alone.\<close>

definition kept :: "redis \<Rightarrow> redis \<Rightarrow> bool" where
  "kept s s' \<longleftrightarrow> once s' = once s \<and> watching s' = watching s \<and> memberVersion s' = memberVersion s \<and>
     aliveVersion s' = aliveVersion s \<and> MemberKey s' = MemberKey s \<and> AliveKey s' = AliveKey s \<and> hadError s' = hadError s"

lemma kept_refl [simp]: "kept s s"
  by (simp add: kept_def)

lemma kept_trans: "kept s t \<Longrightarrow> kept t u \<Longrightarrow> kept s u"
  by (simp add: kept_def)

lemma kept_changes:
  "kept s (fst (remove_entry n (s, info)))" "kept s (fst (put_member n (s, info)))"
  "kept s (fst (put_alive k (s, info)))" "kept s (fst (delete_alive k (s, info)))"
  by (simp_all add: kept_def remove_entry_def put_member_def put_alive_def delete_alive_def Let_def)

lemma member_entries_in_step:
  assumes "member_entries U ns (s, info) = (s', info')" "in_step ex self V (s, info)"
    and "distinct (map fst ns)" "\<forall>(a, m, flag) \<in> set ns. about ex U a m"
    and "\<forall>a \<in> touched info. LogicAddr_String a \<notin> fst ` set ns"
  shows "in_step ex self V (s', info') \<and> kept s s'"
  using assms
proof (induction ns arbitrary: s info)
  case Nil
  then show ?case by simp
next
  case (Cons e ns)
  obtain a m flag where e: "e = (a, m, flag)" by (cases e)
  obtain s1 info1 where 1: "(case U (bytes_of_string m) of None \<Rightarrow> (s, info)
      | Some n \<Rightarrow> if flag = ''true'' then remove_entry n (s, info) else put_member n (s, info)) = (s1, info1)"
    by (rule prod.exhaust)
  have "in_step ex self V (s1, info1) \<and> kept s s1 \<and> (\<forall>b \<in> touched info1. b \<in> touched info \<or> LogicAddr_String b = a)"
  proof (cases "U (bytes_of_string m)")
    case None
    then show ?thesis using 1 Cons.prems(2) by simp
  next
    case (Some n)
    have n: "LogicAddr_String (logic n) = a" "Export n = ex (logic n)"
      using Cons.prems(4) e Some by (auto simp: about_def)
    then have "logic n \<notin> touched info" using Cons.prems(5) e by auto
    then have step: "in_step ex self V (remove_entry n (s, info))" "in_step ex self V (put_member n (s, info))"
      using in_step_remove_entry [of ex self V s info n] in_step_put_member [of ex self V s info n] Cons.prems(2) n(2)
      by simp_all
    show ?thesis
    proof (cases "flag = ''true''")
      case True
      then have "remove_entry n (s, info) = (s1, info1)" using 1 Some by simp
      with step(1) kept_changes(1) [of s n info] touched_entry(1) [of n s info] n(1) show ?thesis by auto
    next
      case False
      then have "put_member n (s, info) = (s1, info1)" using 1 Some by simp
      with step(2) kept_changes(2) [of s n info] touched_entry(2) [of n s info] n(1) show ?thesis by auto
    qed
  qed
  then have 2: "in_step ex self V (s1, info1)" "kept s s1" "\<forall>b \<in> touched info1. b \<in> touched info \<or> LogicAddr_String b = a"
    by blast+
  have "distinct (map fst ns)" "\<forall>(a, m, flag) \<in> set ns. about ex U a m" "\<forall>b \<in> touched info1. LogicAddr_String b \<notin> fst ` set ns"
    using Cons.prems(3-5) 2(3) e by auto
  from Cons.IH [OF _ 2(1) this] Cons.prems(1) 1 2(2) kept_trans show ?case by (auto simp: e)
qed

lemma alive_entries_in_step:
  assumes "alive_entries ns (s, info) = (s', info')" "in_step ex self V (s, info)"
  shows "in_step ex self V (s', info') \<and> kept s s'"
  using assms
proof (induction ns arbitrary: s info)
  case Nil
  then show ?case by simp
next
  case (Cons e ns)
  obtain a m flag where e: "e = (a, m, flag)" by (cases e)
  obtain s1 info1 where 1: "(if flag = ''true'' then delete_alive a (s, info) else put_alive a (s, info)) = (s1, info1)"
    by (rule prod.exhaust)
  have "in_step ex self V (s1, info1)" "kept s s1"
    using 1 in_step_alive [OF Cons.prems(2), of a] kept_changes(3,4) [of s a info] by (auto split: if_splits dest: sym)
  then show ?case using Cons.IH [of s1 info1] Cons.prems(1) 1 kept_trans by (auto simp: e)
qed

section \<open>The changes fit the view\<close>

text \<open>
  The server's answers: an error, or the reply of the script on a database in which the
  entries are well-formed and every configuration is stored under its own address.
\<close>

definition configs_ok ::
    "(logic_addr \<Rightarrow> bool) \<Rightarrow> (bytes \<Rightarrow> Node option) \<Rightarrow> 'db redis_server \<Rightarrow> string \<Rightarrow> string \<Rightarrow> 'db \<Rightarrow> bool" where
  "configs_ok ex U R mkey vkey db \<longleftrightarrow> table_ok R mkey vkey db \<and>
     (\<forall>a n flag data. rows R db mkey a = Some (n, flag, data) \<longrightarrow> about ex U a data)"

definition refused :: "asking \<Rightarrow> bool" where
  "refused ask \<longleftrightarrow> (\<exists>err. GetRedisError (Some err) \<noteq> None \<and> ask = (\<lambda>cv. (None, Some err)))"

definition members_asked ::
    "(logic_addr \<Rightarrow> bool) \<Rightarrow> (bytes \<Rightarrow> Node option) \<Rightarrow> 'db redis_server \<Rightarrow> redis \<Rightarrow> asking \<Rightarrow> bool" where
  "members_asked ex U R s ask \<longleftrightarrow> refused ask \<or>
     (\<exists>db. configs_ok ex U R (getMemberKey s) (getMemberVersionKey s) db \<and>
        ask = (\<lambda>cv. (ScriptGetMembers R (getMemberKey s) (getMemberVersionKey s) cv db, None)))"

definition alives_asked :: "'db redis_server \<Rightarrow> redis \<Rightarrow> asking \<Rightarrow> bool" where
  "alives_asked R s ask \<longleftrightarrow> refused ask \<or>
     (\<exists>db. table_ok R (getAliveKey s) (getAliveVersionKey s) db \<and>
        ask = (\<lambda>cv. (ScriptGetAlives R (getAliveKey s) (getAliveVersionKey s) cv db, None)))"

fun select_asked ::
    "(logic_addr \<Rightarrow> bool) \<Rightarrow> (bytes \<Rightarrow> Node option) \<Rightarrow> 'db redis_server \<Rightarrow> redis_select \<Rightarrow> redis \<Rightarrow> bool" where
  "select_asked ex U R (Message channel ask) s \<longleftrightarrow>
     (channel = getMemberKey s \<longrightarrow> members_asked ex U R s ask) \<and>
     (channel \<noteq> getMemberKey s \<longrightarrow> channel = getAliveKey s \<longrightarrow> alives_asked R s ask)"
| "select_asked ex U R (RedisTick ask1 ask2 ask3 ask4) s \<longleftrightarrow>
     members_asked ex U R s ask1 \<and> alives_asked R s ask2 \<and> members_asked ex U R s ask3 \<and> alives_asked R s ask4"
| "select_asked ex U R _ s \<longleftrightarrow> True"

inductive redis_step ::
    "(logic_addr \<Rightarrow> bool) \<Rightarrow> (bytes \<Rightarrow> Node option) \<Rightarrow> 'db redis_server \<Rightarrow> redis \<Rightarrow> MemberInfo list \<Rightarrow> redis \<Rightarrow> bool"
    for ex U R where
  redis_subscribes: "redis_Subscribe U True ask1 ask2 s = Some (err, infos, s') \<Longrightarrow>
     members_asked ex U R s ask1 \<Longrightarrow> alives_asked R s ask2 \<Longrightarrow> redis_step ex U R s infos s'"
| redis_watches: "watching s \<Longrightarrow> redis_watch U sel s = Some (infos, s') \<Longrightarrow> select_asked ex U R sel s \<Longrightarrow>
     redis_step ex U R s infos s'"
| redis_closes: "redis_step ex U R s [] (redis_close s)"

definition same_keys :: "redis \<Rightarrow> redis \<Rightarrow> bool" where
  "same_keys s s' \<longleftrightarrow> MemberKey s' = MemberKey s \<and> AliveKey s' = AliveKey s"

lemma asked_cong:
  assumes "same_keys s s'"
  shows "members_asked ex U R s' ask = members_asked ex U R s ask" "alives_asked R s' ask = alives_asked R s ask"
  using assms by (simp_all add: members_asked_def alives_asked_def same_keys_def getMemberKey_def getAliveKey_def
      getMemberVersionKey_def getAliveVersionKey_def)

lemma good_redis_getMembers:
  assumes "redis_ok R" "sub_inv ex s" "members_asked ex U R s ask"
  obtains err infos s' where "redis_getMembers U ask s = Some (err, infos, s')" "good ex s infos s'" "same_keys s s'"
  using assms(3) unfolding members_asked_def
proof (elim disjE exE conjE)
  assume "refused ask"
  then show thesis using that [of _ "[]" s] good_refl [OF assms(2)]
    by (auto simp: refused_def redis_getMembers_def same_keys_def)
next
  fix db
  assume db: "configs_ok ex U R (getMemberKey s) (getMemberVersionKey s) db"
    and ask: "ask = (\<lambda>cv. (ScriptGetMembers R (getMemberKey s) (getMemberVersionKey s) cv db, None))"
  have t: "table_ok R (getMemberKey s) (getMemberVersionKey s) db" using db by (simp add: configs_ok_def)
  obtain ver entries where re: "ScriptGetMembers R (getMemberKey s) (getMemberVersionKey s) (memberVersion s) db = Some (ver, entries)"
    using reply_exists [OF assms(1) t, of "memberVersion s"] by auto
  note r = reply_entries [OF assms(1) t re]
  show thesis
  proof (cases entries)
    case None
    then show ?thesis using that [of None "[]" s] good_refl [OF assms(2)] r(1) re
      by (simp add: ask redis_getMembers_def GetRedisError_def same_keys_def)
  next
    case (Some ns)
    obtain s' info where e: "member_entries U ns (s\<lparr>memberVersion := ver\<rparr>, no_change) = (s', info)" by (rule prod.exhaust)
    have ns: "distinct (map fst ns)" "\<forall>(a, m, flag) \<in> set ns. about ex U a m"
      using r(2) [OF Some] db by (auto simp: configs_ok_def)
    have "sub_inv ex (s\<lparr>memberVersion := ver\<rparr>)" using assms(2) by (simp add: sub_inv_def)
    from member_entries_in_step [OF e in_step_start [OF this] ns]
    have "in_step ex self (view s) (s', info) \<and> kept (s\<lparr>memberVersion := ver\<rparr>) s'" for self by simp
    then have "good ex s (report s' info) s'" "same_keys s s'"
      using good_change [of ex s s' info] by (auto simp: kept_def same_keys_def)
    with that [of None "[]" s] that [of None "report s' info" s'] good_refl [OF assms(2)] show ?thesis
      using e Some re by (cases "ver = memberVersion s") (simp_all add: ask redis_getMembers_def GetRedisError_def same_keys_def)
  qed
qed

lemma good_redis_getAlives:
  assumes "redis_ok R" "sub_inv ex s" "alives_asked R s ask"
  obtains err infos s' where "redis_getAlives ask s = Some (err, infos, s')" "good ex s infos s'" "same_keys s s'"
  using assms(3) unfolding alives_asked_def
proof (elim disjE exE conjE)
  assume "refused ask"
  then show thesis using that [of _ "[]" s] good_refl [OF assms(2)]
    by (auto simp: refused_def redis_getAlives_def same_keys_def)
next
  fix db
  assume t: "table_ok R (getAliveKey s) (getAliveVersionKey s) db"
    and ask: "ask = (\<lambda>cv. (ScriptGetAlives R (getAliveKey s) (getAliveVersionKey s) cv db, None))"
  obtain ver entries where re: "ScriptGetMembers R (getAliveKey s) (getAliveVersionKey s) (aliveVersion s) db = Some (ver, entries)"
    using reply_exists [OF assms(1) t, of "aliveVersion s"] by auto
  note r = reply_entries [OF assms(1) t re]
  show thesis
  proof (cases entries)
    case None
    then show ?thesis using that [of None "[]" s] good_refl [OF assms(2)] r(1) re
      by (simp add: ask redis_getAlives_def ScriptGetAlives_def GetRedisError_def same_keys_def)
  next
    case (Some ns)
    let ?ns = "map (\<lambda>(a, data, flag). (a, [], flag)) ns"
    obtain s' info where e: "alive_entries ?ns (s\<lparr>aliveVersion := ver\<rparr>, no_change) = (s', info)" by (rule prod.exhaust)
    have "sub_inv ex (s\<lparr>aliveVersion := ver\<rparr>)" using assms(2) by (simp add: sub_inv_def)
    from alive_entries_in_step [OF e in_step_start [OF this]]
    have "in_step ex self (view s) (s', info) \<and> kept (s\<lparr>aliveVersion := ver\<rparr>) s'" for self by simp
    then have "good ex s (report s' info) s'" "same_keys s s'"
      using good_change [of ex s s' info] by (auto simp: kept_def same_keys_def)
    with that [of None "[]" s] that [of None "report s' info" s'] good_refl [OF assms(2)] show ?thesis
      using e Some re by (cases "ver = aliveVersion s")
        (simp_all add: ask redis_getAlives_def ScriptGetAlives_def GetRedisError_def same_keys_def)
  qed
qed

lemma same_keys_trans: "same_keys s t \<Longrightarrow> same_keys t u \<Longrightarrow> same_keys s u"
  by (simp add: same_keys_def)

text \<open>Both requests one after the other.\<close>

lemma good_polls:
  assumes "redis_ok R" "sub_inv ex s" "members_asked ex U R s ask1" "alives_asked R s ask2"
  obtains err1 infos1 s1 err2 infos2 s2 where "redis_getMembers U ask1 s = Some (err1, infos1, s1)"
    "redis_getAlives ask2 s1 = Some (err2, infos2, s2)" "good ex s infos1 s1" "good ex s (infos1 @ infos2) s2" "same_keys s s2"
proof -
  obtain err1 infos1 s1 where 1: "redis_getMembers U ask1 s = Some (err1, infos1, s1)" "good ex s infos1 s1" "same_keys s s1"
    by (rule good_redis_getMembers [OF assms(1-3)])
  have "sub_inv ex s1" "alives_asked R s1 ask2" using 1(2) assms(4) asked_cong(2) [OF 1(3), of R ask2] by (simp_all add: good_def)
  then obtain err2 infos2 s2 where 2: "redis_getAlives ask2 s1 = Some (err2, infos2, s2)" "good ex s1 infos2 s2" "same_keys s1 s2"
    using good_redis_getAlives [OF assms(1)] by metis
  from that [OF 1(1) 2(1) 1(2) good_trans [OF 1(2) 2(2)] same_keys_trans [OF 1(3) 2(3)]] show ?thesis .
qed

lemma good_tick:
  assumes "redis_ok R" "redis_watch U (RedisTick ask1 ask2 ask3 ask4) s = Some (infos, s')" "sub_inv ex s"
    and "select_asked ex U R (RedisTick ask1 ask2 ask3 ask4) s"
  shows "good ex s infos s'"
proof -
  have ask: "members_asked ex U R s ask1" "alives_asked R s ask2" "members_asked ex U R s ask3" "alives_asked R s ask4"
    using assms(4) by simp_all
  obtain err1 infos1 s1 err2 infos2 s2 where 1: "redis_getMembers U ask1 s = Some (err1, infos1, s1)"
    "redis_getAlives ask2 s1 = Some (err2, infos2, s2)" "good ex s (infos1 @ infos2) s2" "same_keys s s2"
    by (rule good_polls [OF assms(1,3) ask(1,2)])
  define t where "t = s2\<lparr>memberVersion := 0, aliveVersion := 0\<rparr>"
  have "same_keys s t" "sub_inv ex t" using 1(3,4) by (simp_all add: t_def same_keys_def good_def sub_inv_def)
  then obtain err3 infos3 s3 err4 infos4 s4 where 2: "redis_getMembers U ask3 t = Some (err3, infos3, s3)"
    "redis_getAlives ask4 s3 = Some (err4, infos4, s4)" "good ex t (infos3 @ infos4) s4"
    using good_polls [OF assms(1) \<open>sub_inv ex t\<close>, of U ask3 ask4] ask(3,4)
      asked_cong(1) [of s t ex U R ask3] asked_cong(2) [of s t R ask4] by metis
  have "view t = view s2" "once t = once s2" by (simp_all add: t_def)
  then have "good ex s2 (infos3 @ infos4) s4" using 2(3) by (simp add: good_def)
  with 1(3) have "good ex s (infos1 @ infos2 @ infos3 @ infos4) s4" using good_trans by fastforce
  then show ?thesis
    using assms(2) 1 2 by (auto simp: redis_watch_def ignoring_def t_def Let_def split: if_splits)
qed

lemma good_redis_watch:
  assumes "redis_ok R" "redis_watch U sel s = Some (infos, s')" "sub_inv ex s" "select_asked ex U R sel s"
  shows "good ex s infos s'"
proof (cases sel)
  case (ChannelClosed attempts)
  then show ?thesis using assms(2) good_refl [OF assms(3)] by (auto simp: redis_watch_def split: option.splits)
next
  case (Message channel ask)
  consider "channel = getMemberKey s" | "channel \<noteq> getMemberKey s" "channel = getAliveKey s"
    | "channel \<noteq> getMemberKey s" "channel \<noteq> getAliveKey s" by blast
  then show ?thesis
  proof cases
    case 1
    then have "members_asked ex U R s ask" using assms(4) Message by simp
    from good_redis_getMembers [OF assms(1,3) this] obtain err infos1 s1
      where "redis_getMembers U ask s = Some (err, infos1, s1)" "good ex s infos1 s1" by metis
    with 1 Message assms(2) show ?thesis by (auto simp: redis_watch_def)
  next
    case 2
    then have "alives_asked R s ask" using assms(4) Message by simp
    from good_redis_getAlives [OF assms(1,3) this] obtain err infos1 s1
      where "redis_getAlives ask s = Some (err, infos1, s1)" "good ex s infos1 s1" by metis
    with 2 Message assms(2) show ?thesis by (auto simp: redis_watch_def)
  next
    case 3
    then show ?thesis using Message assms(2) good_refl [OF assms(3)] by (auto simp: redis_watch_def)
  qed
next
  case (RedisTick ask1 ask2 ask3 ask4)
  then show ?thesis using good_tick assms by blast
next
  case RedisDone
  then show ?thesis using assms(2) good_refl [OF assms(3)] by (auto simp: redis_watch_def)
qed

lemma redis_subscribe_reports:
  assumes "redis_ok R" "redis_Subscribe U True ask1 ask2 s = Some (err, infos, s')" "life_ok ex s"
    and "members_asked ex U R s ask1" "alives_asked R s ask2"
  shows "life_ok ex s' \<and> reports self (view s) infos (view s')"
proof (cases "once s")
  case True
  then show ?thesis using assms(2,3) by (auto simp: redis_Subscribe_def)
next
  case False
  define t where "t = s\<lparr>once := True, alive := {}, members := Map.empty, cb := True\<rparr>"
  have e: "members s = Map.empty" using assms(3) False by (auto simp: life_ok_def)
  have t: "sub_inv ex t" "same_keys s t" "once t" "view s = view t"
    using e by (simp_all add: t_def sub_inv_def same_keys_def view_empty)
  obtain err1 infos1 s1 err2 infos2 s2 where 1: "redis_getMembers U ask1 t = Some (err1, infos1, s1)"
    "redis_getAlives ask2 s1 = Some (err2, infos2, s2)" "good ex t infos1 s1" "good ex t (infos1 @ infos2) s2"
    using good_polls [OF assms(1) t(1), of U ask1 ask2] assms(4,5) asked_cong(1) [OF t(2), of ex U R ask1]
      asked_cong(2) [OF t(2), of R ask2] by metis
  have keep: "life_ok ex u \<and> reports self (view s) is (view u)" if "good ex t is u" for "is" and u :: redis
    using life_ok_good [OF that t(3)] that t(4) by (simp add: good_def)
  define u where "u = s2\<lparr>closeFunc := True, watching := True, hadError := False\<rparr>"
  have "good ex t (infos1 @ infos2) u" by (rule good_same [OF 1(4)]) (simp_all add: u_def)
  then show ?thesis
    using assms(2) False 1(1,2) keep [OF 1(3)] keep [OF 1(4)] keep [of "infos1 @ infos2" u]
    by (cases err1; cases err2) (auto simp: redis_Subscribe_def t_def u_def)
qed

lemma redis_contract:
  assumes "redis_ok R" "life_ok ex s" "redis_step ex U R s infos s'"
  shows "life_ok ex s' \<and> reports self (view s) infos (view s')"
  using assms(3)
proof cases
  case (redis_subscribes ask1 ask2 err)
  from redis_subscribe_reports [OF assms(1) this(1) assms(2) this(2,3)] show ?thesis .
next
  case (redis_watches sel)
  have "sub_inv ex s" "once s" using assms(2) redis_watches(1) by (auto simp: life_ok_def sub_inv_def)
  with good_redis_watch [OF assms(1) redis_watches(2) _ redis_watches(3)] life_ok_good show ?thesis by (metis good_def)
next
  case redis_closes
  then have "view s' = view s" by (intro view_cong) (simp_all add: redis_close_def Let_def)
  moreover have "life_ok ex s'" using redis_closes assms(2) by (auto simp: redis_close_def life_ok_def Let_def)
  ultimately show ?thesis using redis_closes by simp
qed

text \<open>The provider's steps on a server that keeps its promises.\<close>

interpretation redis: provider "\<lambda>s infos s'. redis_ok R \<and> redis_step ex U R s infos s'" view "life_ok ex"
  for ex U R
  by unfold_locales (use redis_contract in blast)+

end
