(* ===== verification/Redis_Sync.thy ===== *)
theory Redis_Sync
  imports Redis "HOL-Library.DAList"
begin

text \<open>
  The Redis provider as a whole: the scripts on the server, the configuration tools and
  nodes that run them, and a subscriber (\<open>membership/redis\<close>). Its protocol is shown to keep
  the subscriber exactly up to date: the version it knows tells the server what to send.
\<close>

section \<open>Being up to date\<close>

text \<open>What a client should have for a row: what the live entry stands for, or nothing.\<close>

definition meant :: "'x \<Rightarrow> (string \<Rightarrow> 'x) \<Rightarrow> (nat \<times> string \<times> string) option \<Rightarrow> 'x" where
  "meant none live row =
     (case row of None \<Rightarrow> none | Some (n, flag, data) \<Rightarrow> if flag = ''false'' then live data else none)"

definition bounded :: "nat \<Rightarrow> (string \<rightharpoonup> nat \<times> string \<times> string) \<Rightarrow> bool" where
  "bounded ver table \<longleftrightarrow> (\<forall>a n flag data. table a = Some (n, flag, data) \<longrightarrow> 0 < n \<and> n \<le> ver \<and> is_flag flag)"

text \<open>
  A client that knows a version: up to date with the current version; up to date for every
  row that was not changed since its version; or up to date for every row that the server
  will not tell it about.
\<close>

definition current ::
    "'x \<Rightarrow> (string \<Rightarrow> 'x) \<Rightarrow> nat \<Rightarrow> nat \<Rightarrow> (string \<rightharpoonup> nat \<times> string \<times> string) \<Rightarrow> (string \<Rightarrow> 'x) \<Rightarrow> bool" where
  "current none live cv ver table has \<longleftrightarrow> cv = ver \<and> (\<forall>a. has a = meant none live (table a))"

definition synced ::
    "'x \<Rightarrow> (string \<Rightarrow> 'x) \<Rightarrow> nat \<Rightarrow> nat \<Rightarrow> (string \<rightharpoonup> nat \<times> string \<times> string) \<Rightarrow> (string \<Rightarrow> 'x) \<Rightarrow> bool" where
  "synced none live cv ver table has \<longleftrightarrow> cv \<le> ver \<and> (cv = 0 \<longrightarrow> (\<forall>a. has a = none)) \<and>
     (\<forall>a. (case table a of None \<Rightarrow> True | Some (n, flag, data) \<Rightarrow> n \<le> cv) \<longrightarrow> has a = meant none live (table a))"

definition told ::
    "'x \<Rightarrow> (string \<Rightarrow> 'x) \<Rightarrow> nat \<Rightarrow> nat \<Rightarrow> (string \<rightharpoonup> nat \<times> string \<times> string) \<Rightarrow> (string \<Rightarrow> 'x) \<Rightarrow> bool" where
  "told none live cv ver table has \<longleftrightarrow> cv \<le> ver \<and>
     (\<forall>a. (case table a of None \<Rightarrow> True | Some r \<Rightarrow> \<not> news cv r) \<longrightarrow> has a = meant none live (table a))"

lemma synced_grows:
  assumes "synced none live cv ver table has" "ver \<le> ver'"
    and "\<And>a. table' a = table a \<or> (\<exists>n flag data. table' a = Some (n, flag, data) \<and> ver < n)"
  shows "synced none live cv ver' table' has"
  unfolding synced_def
proof (intro conjI allI impI)
  have s: "cv \<le> ver" "cv = 0 \<Longrightarrow> has a = none"
    "(case table a of None \<Rightarrow> True | Some (n, flag, data) \<Rightarrow> n \<le> cv) \<Longrightarrow> has a = meant none live (table a)" for a
    using assms(1) by (simp_all add: synced_def)
  show "has a = none" if "cv = 0" for a using that s(2) by simp
  show "cv \<le> ver'" using s(1) assms(2) by simp
  show "has a = meant none live (table' a)"
    if "case table' a of None \<Rightarrow> True | Some (n, flag, data) \<Rightarrow> n \<le> cv" for a
    using that assms(3) [of a] s(1) s(3) [of a] by auto
qed

lemma synced_start: "bounded ver table \<Longrightarrow> synced none live 0 ver table (\<lambda>a. none)"
  by (force simp: synced_def bounded_def meant_def split: option.splits)

lemma current_synced:
  assumes "current none live cv ver table has" "bounded ver table"
  shows "synced none live cv ver table has"
proof -
  have "table a = None" if "ver = 0" for a
    using that assms(2) by (cases "table a") (auto simp: bounded_def)
  then show ?thesis using assms(1) by (simp add: current_def synced_def meant_def)
qed

lemma current_told: "current none live cv ver table has \<Longrightarrow> told none live 0 ver table has"
  by (simp add: current_def told_def)

lemma synced_told:
  assumes "synced none live cv ver table has"
  shows "told none live cv ver table has"
  using assms unfolding synced_def told_def
  by (cases "cv = 0") (auto simp: news_def meant_def split: option.splits)

lemma told_current:
  assumes "told none live ver ver table has" "bounded ver table"
  shows "current none live ver ver table has"
proof -
  have "case table a of None \<Rightarrow> True | Some r \<Rightarrow> \<not> news ver r" for a
  proof (cases "table a")
    case (Some r)
    obtain n flag data where r: "r = (n, flag, data)" by (cases r)
    have "0 < n" "n \<le> ver" using assms(2) Some r unfolding bounded_def by blast+
    then show ?thesis using Some r by (simp add: news_def)
  qed simp
  then show ?thesis using assms(1) by (simp add: current_def told_def)
qed

text \<open>Reading the reply to its version brings a client up to date.\<close>

lemma told_reply:
  assumes "told none live cv ver table has" "bounded ver table" "distinct (map fst ns)"
    and "\<And>a data flag. (a, data, flag) \<in> set ns \<longleftrightarrow> (\<exists>n. table a = Some (n, flag, data) \<and> news cv (n, flag, data))"
  shows "(case map_of ns a of None \<Rightarrow> has a | Some (data, flag) \<Rightarrow> if flag = ''true'' then none else live data) =
    meant none live (table a)"
proof (cases "map_of ns a")
  case None
  then have not: "(a, data, flag) \<notin> set ns" for data flag by (metis fst_conv image_eqI map_of_eq_None_iff)
  have "case table a of None \<Rightarrow> True | Some r \<Rightarrow> \<not> news cv r"
    using not assms(4) by (auto split: option.split)
  then show ?thesis using assms(1) None by (simp add: told_def)
next
  case (Some x)
  obtain data flag where x: "x = (data, flag)" by (cases x)
  have "(a, data, flag) \<in> set ns" using map_of_SomeD [OF Some] x by simp
  then obtain n where n: "table a = Some (n, flag, data)" using assms(4) by blast
  have "is_flag flag" using assms(2) n by (auto simp: bounded_def)
  then show ?thesis using Some x n by (auto simp: meant_def is_flag_def)
qed

lemma table_bounded: "table_ok R h vkey db \<Longrightarrow> bounded (version R db vkey) (rows R db h)"
  using table_rows(2-4) unfolding bounded_def by metis

lemma member_entries_result:
  assumes "distinct (map fst ns)" "\<forall>(a, m, flag) \<in> set ns. \<exists>n. U (bytes_of_string m) = Some n \<and> LogicAddr_String (logic n) = a"
  shows "members (fst (member_entries U ns (s, info))) a =
      (case map_of ns a of None \<Rightarrow> members s a | Some (m, flag) \<Rightarrow> if flag = ''true'' then None else U (bytes_of_string m)) \<and>
    alive (fst (member_entries U ns (s, info))) = alive s \<and> kept s (fst (member_entries U ns (s, info)))"
  using assms
proof (induction ns arbitrary: s info)
  case Nil
  then show ?case by simp
next
  case (Cons e ns)
  obtain b m flag where e: "e = (b, m, flag)" by (cases e)
  then obtain n where n: "U (bytes_of_string m) = Some n" "LogicAddr_String (logic n) = b" using Cons.prems(2) by auto
  obtain s1 info1 where 1: "(if flag = ''true'' then remove_entry n (s, info) else put_member n (s, info)) = (s1, info1)"
    by (rule prod.exhaust)
  have s1: "members s1 = (members s)(b := if flag = ''true'' then None else Some n)" "alive s1 = alive s" "kept s s1"
    using 1 n(2) kept_changes(1,2) [of s n info]
    by (auto simp: remove_entry_def put_member_def Let_def fun_upd_idem split: if_splits)
  have b: "map_of ns b = None" using Cons.prems(1) e by (simp add: map_of_eq_None_iff)
  have "member_entries U (e # ns) (s, info) = member_entries U ns (s1, info1)" using 1 n(1) by (simp add: e)
  then show ?case
    using Cons.IH [of s1 info1] Cons.prems s1 b n(1) kept_trans [OF s1(3)] by (auto simp: e split: option.split)
qed

lemma alive_entries_result:
  assumes "distinct (map fst ns)"
  shows "(a \<in> alive (fst (alive_entries ns (s, info))) \<longleftrightarrow>
      (case map_of ns a of None \<Rightarrow> a \<in> alive s | Some (m, flag) \<Rightarrow> if flag = ''true'' then False else True)) \<and>
    members (fst (alive_entries ns (s, info))) = members s \<and> kept s (fst (alive_entries ns (s, info)))"
  using assms
proof (induction ns arbitrary: s info)
  case Nil
  then show ?case by simp
next
  case (Cons e ns)
  obtain b m flag where e: "e = (b, m, flag)" by (cases e)
  obtain s1 info1 where 1: "(if flag = ''true'' then delete_alive b (s, info) else put_alive b (s, info)) = (s1, info1)"
    by (rule prod.exhaust)
  have s1: "alive s1 = (if flag = ''true'' then alive s - {b} else insert b (alive s))" "members s1 = members s" "kept s s1"
    using 1 kept_changes(3,4) [of s b info]
    by (auto simp: delete_alive_def put_alive_def isAlive_def split: if_splits)
  have b: "map_of ns b = None" using Cons.prems(1) e by (simp add: map_of_eq_None_iff)
  have "alive_entries (e # ns) (s, info) = alive_entries ns (s1, info1)" using 1 by (simp add: e)
  then show ?case
    using Cons.IH [of s1 info1] Cons.prems s1 b kept_trans [OF s1(3)] by (auto simp: e split: option.splits)
qed

section \<open>Server, tools and subscriber together\<close>

text \<open>
  The database holds well-formed tables, and every configuration decodes to the node with
  the address it is stored under.
\<close>

definition server_ok ::
    "(logic_addr \<Rightarrow> bool) \<Rightarrow> (bytes \<Rightarrow> Node option) \<Rightarrow> 'db redis_server \<Rightarrow> redis \<Rightarrow> 'db \<Rightarrow> bool" where
  "server_ok ex U R s db \<longleftrightarrow>
     table_ok R (getMemberKey s) (getMemberVersionKey s) db \<and>
     (\<forall>a. hget R db (getMemberKey s) a \<noteq> None \<longrightarrow> rows R db (getMemberKey s) a \<noteq> None) \<and>
     (\<forall>a n flag data. rows R db (getMemberKey s) a = Some (n, flag, data) \<longrightarrow>
        (\<exists>m. U (bytes_of_string data) = Some m \<and> LogicAddr_String (logic m) = a \<and> Export m = ex (logic m))) \<and>
     table_ok R (getAliveKey s) (getAliveVersionKey s) db \<and> deadlines_ok R (getAliveKey s) db"

definition asks_members :: "'db redis_server \<Rightarrow> redis \<Rightarrow> 'db \<Rightarrow> asking" where
  "asks_members R s db = (\<lambda>cv. (ScriptGetMembers R (getMemberKey s) (getMemberVersionKey s) cv db, None))"

definition asks_alives :: "'db redis_server \<Rightarrow> redis \<Rightarrow> 'db \<Rightarrow> asking" where
  "asks_alives R s db = (\<lambda>cv. (ScriptGetAlives R (getAliveKey s) (getAliveVersionKey s) cv db, None))"

abbreviation on_members where
  "on_members P U R db s \<equiv> P None (\<lambda>data. U (bytes_of_string data)) (memberVersion s)
     (version R db (getMemberVersionKey s)) (rows R db (getMemberKey s)) (members s)"

abbreviation on_alives where
  "on_alives P R db s \<equiv> P False (\<lambda>data. True) (aliveVersion s)
     (version R db (getAliveVersionKey s)) (rows R db (getAliveKey s)) (\<lambda>a. a \<in> alive s)"

definition rest_kept :: "redis \<Rightarrow> redis \<Rightarrow> bool" where
  "rest_kept s s' \<longleftrightarrow> once s' = once s \<and> watching s' = watching s \<and> hadError s' = hadError s \<and>
     MemberKey s' = MemberKey s \<and> AliveKey s' = AliveKey s"

lemma rest_kept_keys:
  assumes "rest_kept s s'"
  shows "getMemberKey s' = getMemberKey s" "getMemberVersionKey s' = getMemberVersionKey s"
    "getAliveKey s' = getAliveKey s" "getAliveVersionKey s' = getAliveVersionKey s"
  using assms
  by (simp_all add: rest_kept_def getMemberKey_def getAliveKey_def getMemberVersionKey_def getAliveVersionKey_def)

lemma members_up_to_date:
  assumes "redis_ok R" "server_ok ex U R s db" "memberVersion s = version R db (getMemberVersionKey s)"
  shows "redis_getMembers U (asks_members R s db) s = Some (None, [], s)"
proof -
  have "table_ok R (getMemberKey s) (getMemberVersionKey s) db" using assms(2) by (simp add: server_ok_def)
  from get_members(1) [OF assms(1) this, of "memberVersion s"] assms(3) show ?thesis
    by (simp add: redis_getMembers_def asks_members_def GetRedisError_def)
qed

lemma alives_up_to_date:
  assumes "redis_ok R" "server_ok ex U R s db" "aliveVersion s = version R db (getAliveVersionKey s)"
  shows "redis_getAlives (asks_alives R s db) s = Some (None, [], s)"
proof -
  have "table_ok R (getAliveKey s) (getAliveVersionKey s) db" using assms(2) by (simp add: server_ok_def)
  from get_members(1) [OF assms(1) this, of "aliveVersion s"] assms(3) show ?thesis
    by (simp add: redis_getAlives_def asks_alives_def ScriptGetAlives_def GetRedisError_def)
qed

lemma members_reply:
  assumes "redis_ok R" "server_ok ex U R s db" "memberVersion s < version R db (getMemberVersionKey s)"
  obtains ns infos s' where "redis_getMembers U (asks_members R s db) s = Some (None, infos, s')"
    "distinct (map fst ns)" "\<And>a data flag. (a, data, flag) \<in> set ns \<longleftrightarrow>
      (\<exists>n. rows R db (getMemberKey s) a = Some (n, flag, data) \<and> news (memberVersion s) (n, flag, data))"
    "\<And>a. members s' a = (case map_of ns a of None \<Rightarrow> members s a
       | Some (m, flag) \<Rightarrow> if flag = ''true'' then None else U (bytes_of_string m))"
    "memberVersion s' = version R db (getMemberVersionKey s)" "alive s' = alive s" "aliveVersion s' = aliveVersion s" "rest_kept s s'"
proof -
  let ?mk = "getMemberKey s" and ?vk = "getMemberVersionKey s" and ?cv = "memberVersion s"
  have t: "table_ok R ?mk ?vk db" using assms(2) by (simp add: server_ok_def)
  obtain ns where ns: "ScriptGetMembers R ?mk ?vk ?cv db = Some (version R db ?vk, Some ns)" "distinct (map fst ns)"
    "\<And>a data flag. (a, data, flag) \<in> set ns \<longleftrightarrow> (\<exists>n. rows R db ?mk a = Some (n, flag, data) \<and> news ?cv (n, flag, data))"
    using get_members(2) [OF assms(1) t, of ?cv] assms(3) by auto
  let ?s = "s\<lparr>memberVersion := version R db ?vk\<rparr>"
  obtain s' info where e: "member_entries U ns (?s, no_change) = (s', info)" by (rule prod.exhaust)
  have "\<forall>(a, m, flag) \<in> set ns. \<exists>n. U (bytes_of_string m) = Some n \<and> LogicAddr_String (logic n) = a"
    using ns(3) assms(2) by (fastforce simp: server_ok_def)
  from member_entries_result [OF ns(2) this, of ?s no_change]
  have r: "members s' a =
        (case map_of ns a of None \<Rightarrow> members s a | Some (m, flag) \<Rightarrow> if flag = ''true'' then None else U (bytes_of_string m)) \<and>
      alive s' = alive s \<and> kept ?s s'" for a
    using e by (simp split: option.split)
  have "redis_getMembers U (asks_members R s db) s = Some (None, report s' info, s')"
    using ns(1) assms(3) e by (simp add: redis_getMembers_def asks_members_def GetRedisError_def)
  from that [OF this ns(2,3) conjunct1 [OF r]] r show ?thesis by (simp add: kept_def rest_kept_def)
qed

lemma poll_members:
  assumes "redis_ok R" "server_ok ex U R s db" "on_members told U R db s"
  obtains infos s' where "redis_getMembers U (asks_members R s db) s = Some (None, infos, s')"
    "on_members current U R db s'" "alive s' = alive s" "aliveVersion s' = aliveVersion s" "rest_kept s s'"
proof -
  let ?mk = "getMemberKey s" and ?vk = "getMemberVersionKey s" and ?cv = "memberVersion s"
  have b: "bounded (version R db ?vk) (rows R db ?mk)" using assms(2) by (simp add: server_ok_def table_bounded)
  have cv: "?cv \<le> version R db ?vk" using assms(3) by (simp add: told_def)
  show ?thesis
  proof (cases "?cv = version R db ?vk")
    case True
    have "on_members current U R db s" using told_current [OF _ b] assms(3) True by simp
    then show ?thesis using that members_up_to_date [OF assms(1,2) True] by (simp add: rest_kept_def)
  next
    case False
    then have "?cv < version R db ?vk" using cv by simp
    then obtain ns infos s' where r: "redis_getMembers U (asks_members R s db) s = Some (None, infos, s')"
      "distinct (map fst ns)"
      "\<And>a data flag. (a, data, flag) \<in> set ns \<longleftrightarrow> (\<exists>n. rows R db ?mk a = Some (n, flag, data) \<and> news ?cv (n, flag, data))"
      "\<And>a. members s' a = (case map_of ns a of None \<Rightarrow> members s a
         | Some (m, flag) \<Rightarrow> if flag = ''true'' then None else U (bytes_of_string m))"
      "memberVersion s' = version R db ?vk" "alive s' = alive s" "aliveVersion s' = aliveVersion s" "rest_kept s s'"
      by (rule members_reply [OF assms(1,2)]) blast
    have "members s' a = meant None (\<lambda>data. U (bytes_of_string data)) (rows R db ?mk a)" for a
      unfolding r(4) by (rule told_reply [OF assms(3) b r(2,3)])
    then have "on_members current U R db s'" using r(5) rest_kept_keys [OF r(8)] by (simp add: current_def)
    then show ?thesis using that r by blast
  qed
qed

lemma poll_alives:
  assumes "redis_ok R" "server_ok ex U R s db" "on_alives told R db s"
  obtains infos s' where "redis_getAlives (asks_alives R s db) s = Some (None, infos, s')"
    "on_alives current R db s'" "members s' = members s" "memberVersion s' = memberVersion s" "rest_kept s s'"
proof -
  let ?ak = "getAliveKey s" and ?vk = "getAliveVersionKey s" and ?cv = "aliveVersion s"
  have t: "table_ok R ?ak ?vk db" using assms(2) by (simp add: server_ok_def)
  note b = table_bounded [OF t]
  have cv: "?cv \<le> version R db ?vk" using assms(3) by (simp add: told_def)
  show ?thesis
  proof (cases "?cv = version R db ?vk")
    case True
    have "on_alives current R db s" using told_current [OF _ b] assms(3) True by simp
    then show ?thesis using that alives_up_to_date [OF assms(1,2) True] by (simp add: rest_kept_def)
  next
    case False
    then obtain ns where ns: "ScriptGetMembers R ?ak ?vk ?cv db = Some (version R db ?vk, Some ns)" "distinct (map fst ns)"
      "\<And>a data flag. (a, data, flag) \<in> set ns \<longleftrightarrow> (\<exists>n. rows R db ?ak a = Some (n, flag, data) \<and> news ?cv (n, flag, data))"
      using get_members(2) [OF assms(1) t cv] by blast
    let ?s = "s\<lparr>aliveVersion := version R db ?vk\<rparr>" and ?ns = "map (\<lambda>(a, data, flag). (a, [], flag)) ns"
    obtain s' info where e: "alive_entries ?ns (?s, no_change) = (s', info)" by (rule prod.exhaust)
    have f: "map fst ?ns = map fst ns" by (induction ns) auto
    have m: "map_of ?ns a = map_option (\<lambda>(data, flag). ([], flag)) (map_of ns a)" for a by (induction ns) auto
    have d: "distinct (map fst ?ns)" using ns(2) unfolding f .
    have r: "(a \<in> alive s' \<longleftrightarrow> (case map_of ns a of None \<Rightarrow> a \<in> alive s | Some (m, flag) \<Rightarrow> if flag = ''true'' then False else True)) \<and>
        members s' = members s \<and> kept ?s s'" for a
      using alive_entries_result [OF d, of a ?s no_change] unfolding e m by (simp split: option.split prod.split)
    have k: "rest_kept s s'" "aliveVersion s' = version R db ?vk" "memberVersion s' = memberVersion s" "members s' = members s"
      using r by (simp_all add: kept_def rest_kept_def)
    have "a \<in> alive s' \<longleftrightarrow> meant False (\<lambda>data. True) (rows R db ?ak a)" for a
      unfolding conjunct1 [OF r [of a]] by (rule told_reply [OF assms(3) b ns(2,3)])
    then have "on_alives current R db s'" using k(2) rest_kept_keys [OF k(1)] by (simp add: current_def)
    moreover have "redis_getAlives (asks_alives R s db) s = Some (None, report s' info, s')"
      using ns(1) False e by (simp add: redis_getAlives_def asks_alives_def ScriptGetAlives_def GetRedisError_def)
    ultimately show ?thesis using that k by blast
  qed
qed

section \<open>Changes on the server\<close>

text \<open>The two hashes and the two versions have different keys.\<close>

definition keys_apart :: "redis \<Rightarrow> bool" where
  "keys_apart s \<longleftrightarrow> getMemberKey s \<noteq> getAliveKey s \<and> getMemberKey s \<noteq> getAliveVersionKey s \<and>
     getAliveKey s \<noteq> getMemberVersionKey s"

definition grows :: "'db redis_server \<Rightarrow> string \<Rightarrow> string \<Rightarrow> 'db \<Rightarrow> 'db \<Rightarrow> bool" where
  "grows R h vkey db db' \<longleftrightarrow> version R db vkey \<le> version R db' vkey \<and>
     (\<forall>a. rows R db' h a = rows R db h a \<or> (\<exists>n flag data. rows R db' h a = Some (n, flag, data) \<and> version R db vkey < n))"

definition server_grows ::
    "(logic_addr \<Rightarrow> bool) \<Rightarrow> (bytes \<Rightarrow> Node option) \<Rightarrow> 'db redis_server \<Rightarrow> redis \<Rightarrow> 'db \<Rightarrow> 'db \<Rightarrow> bool" where
  "server_grows ex U R s db db' \<longleftrightarrow> server_ok ex U R s db' \<and>
     grows R (getMemberKey s) (getMemberVersionKey s) db db' \<and> grows R (getAliveKey s) (getAliveVersionKey s) db db'"

lemma same_table_grows: "same_table R h vkey db db' \<Longrightarrow> grows R h vkey db db'"
  by (simp add: grows_def same_tableD)

lemma synced_server_grows:
  assumes "synced none live cv (version R db vkey) (rows R db h) has" "grows R h vkey db db'"
  shows "synced none live cv (version R db' vkey) (rows R db' h) has"
proof (rule synced_grows [OF assms(1)])
  show "version R db vkey \<le> version R db' vkey" using assms(2) by (simp add: grows_def)
  show "rows R db' h a = rows R db h a \<or> (\<exists>n flag data. rows R db' h a = Some (n, flag, data) \<and> version R db vkey < n)" for a
    using assms(2) unfolding grows_def by blast
qed

lemma version_keys_apart: "keys_apart s \<Longrightarrow> getMemberVersionKey s \<noteq> getAliveVersionKey s"
  by (simp add: keys_apart_def getMemberVersionKey_def getAliveVersionKey_def)

lemma put_row_grows:
  assumes "redis_ok R" "table_ok R h vkey db" "is_flag flag"
  shows "grows R h vkey db (put_row R h vkey (Suc (version R db vkey)) a (entry_text (Suc (version R db vkey)) flag data) db)"
  using put_row_table [OF assms(1,2), of "Suc (version R db vkey)" flag a data] assms(3) by (simp add: grows_def)

lemma member_put:
  assumes R: "redis_ok R" and ok: "server_ok ex U R s db" "keys_apart s" and "is_flag flag"
    and "U (bytes_of_string data) = Some m" "LogicAddr_String (logic m) = a" "Export m = ex (logic m)"
  shows "server_grows ex U R s db (put_row R (getMemberKey s) (getMemberVersionKey s)
    (Suc (version R db (getMemberVersionKey s))) a
    (entry_text (Suc (version R db (getMemberVersionKey s))) flag data) db)"
    (is "server_grows ex U R s db ?db")
proof -
  let ?h = "getMemberKey s" and ?vk = "getMemberVersionKey s"
  have t: "table_ok R ?h ?vk db" using ok(1) by (simp add: server_ok_def)
  have p: "table_ok R ?h ?vk ?db" "rows R ?db ?h = (rows R db ?h)(a \<mapsto> (Suc (version R db ?vk), flag, data))"
    using put_row_table [OF R t, of "Suc (version R db ?vk)" flag a data] assms(4) by simp_all
  have full: "hget R ?db ?h b = (if b = a then Some (entry_text (Suc (version R db ?vk)) flag data) else hget R db ?h b)" for b
    using R by (auto simp: put_row_def redis_ok_def)
  have same: "same_table R (getAliveKey s) (getAliveVersionKey s) db ?db"
    using same_table_put_row [OF R] ok(2) version_keys_apart [OF ok(2)] by (metis keys_apart_def)
  have "server_ok ex U R s ?db"
    using ok(1) p assms(5-7) same_tableD [OF same] unfolding server_ok_def deadlines_ok_def by (auto simp: full)
  then show ?thesis
    using put_row_grows [OF R t assms(4)] same_table_grows [OF same] by (simp add: server_grows_def)
qed

lemma alive_change:
  assumes ok: "server_ok ex U R s db" and "keys_apart s"
    and "table_ok R (getAliveKey s) (getAliveVersionKey s) db'" "deadlines_ok R (getAliveKey s) db'"
    and "grows R (getAliveKey s) (getAliveVersionKey s) db db'"
    and same: "same_table R (getMemberKey s) (getMemberVersionKey s) db db'"
  shows "server_grows ex U R s db db'"
  using assms same_tableD [OF same] same_table_grows [OF same]
  by (simp add: server_grows_def server_ok_def same_table_def)

section \<open>The system\<close>

text \<open>Each request of a select reads the database as it is, or fails.\<close>

fun select_at :: "'db redis_server \<Rightarrow> 'db \<Rightarrow> redis_select \<Rightarrow> redis \<Rightarrow> bool" where
  "select_at R db (Message channel ask) s \<longleftrightarrow>
     refused ask \<or> ask = (if channel = getMemberKey s then asks_members R s db else asks_alives R s db)"
| "select_at R db (RedisTick ask1 ask2 ask3 ask4) s \<longleftrightarrow>
     (refused ask1 \<or> ask1 = asks_members R s db) \<and> (refused ask2 \<or> ask2 = asks_alives R s db) \<and>
     ask3 = asks_members R s db \<and> ask4 = asks_alives R s db"
| "select_at R db _ s \<longleftrightarrow> True"

text \<open>
  Steps of the whole system: a member is configured, a member is removed, a node that is not
  marked as dead sends a heartbeat, timeouts are checked; the subscriber subscribes, or takes
  a round of its loop, during which the database does not change, and whose requests may
  fail, apart from the two of a recovery.
\<close>

inductive sys_step ::
    "(logic_addr \<Rightarrow> bool) \<Rightarrow> (nodeJson \<Rightarrow> go_error + bytes) \<Rightarrow> (bytes \<Rightarrow> Node option) \<Rightarrow> 'db redis_server \<Rightarrow>
     'db \<times> redis \<Rightarrow> 'db \<times> redis \<Rightarrow> bool" for ex json_Marshal U R where
  configures: "redis_UpdateMember R json_Marshal n s db = Some (db', pub) \<Longrightarrow> Node_Marshal json_Marshal n = Inr b \<Longrightarrow>
     U b = Some n \<Longrightarrow> Export n = ex (logic n) \<Longrightarrow> sys_step ex json_Marshal U R (db, s) (db', s)"
| removes: "redis_RemoveMember R a s db = Some (db', pub) \<Longrightarrow> sys_step ex json_Marshal U R (db, s) (db', s)"
| beats: "redis_KeepAlive R a second now s db = Some (db', pub) \<Longrightarrow>
     \<forall>n data. rows R db (getAliveKey s) (LogicAddr_String a) \<noteq> Some (n, ''true'', data) \<Longrightarrow>
     sys_step ex json_Marshal U R (db, s) (db', s)"
| expires: "CheckTimeout R now s db = Some (db', pub) \<Longrightarrow> sys_step ex json_Marshal U R (db, s) (db', s)"
| subscribes: "redis_Subscribe U callback ask1 ask2 s = Some (err, infos, s') \<Longrightarrow>
     refused ask1 \<or> ask1 = asks_members R s db \<Longrightarrow> refused ask2 \<or> ask2 = asks_alives R s db \<Longrightarrow>
     sys_step ex json_Marshal U R (db, s) (db, s')"
| watches: "watching s \<Longrightarrow> redis_watch U sel s = Some (infos, s') \<Longrightarrow> select_at R db sel s \<Longrightarrow>
     sys_step ex json_Marshal U R (db, s) (db, s')"

definition sys_inv ::
    "(logic_addr \<Rightarrow> bool) \<Rightarrow> (bytes \<Rightarrow> Node option) \<Rightarrow> 'db redis_server \<Rightarrow> 'db \<times> redis \<Rightarrow> bool" where
  "sys_inv ex U R = (\<lambda>(db, s). keys_apart s \<and> server_ok ex U R s db \<and> on_members synced U R db s \<and> on_alives synced R db s \<and>
     (\<not> once s \<longrightarrow> \<not> watching s \<and> memberVersion s = 0 \<and> aliveVersion s = 0))"

lemma server_grows_inv:
  assumes "sys_inv ex U R (db, s)" "server_grows ex U R s db db'"
  shows "sys_inv ex U R (db', s)"
proof -
  have "on_members synced U R db s" "on_alives synced R db s" "server_ok ex U R s db'"
    "grows R (getMemberKey s) (getMemberVersionKey s) db db'" "grows R (getAliveKey s) (getAliveVersionKey s) db db'"
    using assms by (simp_all add: sys_inv_def server_grows_def)
  with synced_server_grows [OF this(1,4)] synced_server_grows [OF this(2,5)] show ?thesis
    using assms(1) by (simp add: sys_inv_def)
qed

lemma bump_grows:
  assumes R: "redis_ok R" and ok: "server_ok ex U R s db" "keys_apart s" and n: "version R db (getMemberVersionKey s) \<le> n" "0 < n"
  shows "server_grows ex U R s db (rset R (getMemberVersionKey s) (show_nat n) db)" (is "server_grows ex U R s db ?db")
proof -
  let ?h = "getMemberKey s" and ?vk = "getMemberVersionKey s"
  have t: "table_ok R ?h ?vk db" using ok(1) by (simp add: server_ok_def)
  have p: "table_ok R ?h ?vk ?db" "version R ?db ?vk = n" "rows R ?db ?h = rows R db ?h"
    by (rule bump_table [OF R t n])+
  have g: "hget R ?db ?h = hget R db ?h" using R by (auto simp: redis_ok_def)
  have same: "same_table R (getAliveKey s) (getAliveVersionKey s) db ?db"
    using same_table_bump [OF R] version_keys_apart [OF ok(2)] by metis
  show ?thesis
    using ok(1) p n(1) g same_tableD [OF same] same_table_grows [OF same]
    by (simp add: server_grows_def server_ok_def grows_def deadlines_ok_def)
qed

lemma server_steps:
  assumes R: "redis_ok R" and ok: "server_ok ex U R s db" "keys_apart s"
  shows "redis_UpdateMember R json_Marshal n s db = Some (db', pub) \<Longrightarrow> Node_Marshal json_Marshal n = Inr b \<Longrightarrow>
      U b = Some n \<Longrightarrow> Export n = ex (logic n) \<Longrightarrow> server_grows ex U R s db db'"
    and "redis_RemoveMember R a s db = Some (db', pub) \<Longrightarrow> server_grows ex U R s db db'"
    and "redis_KeepAlive R a second now s db = Some (db', pub) \<Longrightarrow>
      \<forall>n data. rows R db (getAliveKey s) (LogicAddr_String a) \<noteq> Some (n, ''true'', data) \<Longrightarrow> server_grows ex U R s db db'"
    and "CheckTimeout R now s db = Some (db', pub) \<Longrightarrow> server_grows ex U R s db db'"
proof -
  let ?h = "getMemberKey s" and ?vk = "getMemberVersionKey s" and ?ak = "getAliveKey s" and ?avk = "getAliveVersionKey s"
  have t: "table_ok R ?h ?vk db" and ta: "table_ok R ?ak ?avk db" and d: "deadlines_ok R ?ak db"
    using ok(1) by (simp_all add: server_ok_def)
  show "server_grows ex U R s db db'"
    if "redis_UpdateMember R json_Marshal n s db = Some (db', pub)" "Node_Marshal json_Marshal n = Inr b"
      "U b = Some n" "Export n = ex (logic n)"
    using that update_inserts [OF t] member_put [OF R ok, of "''false''" "string_of_bytes b" n]
    by (simp add: redis_UpdateMember_def)
  show "server_grows ex U R s db db'" if rm: "redis_RemoveMember R a s db = Some (db', pub)"
  proof (cases "rows R db ?h (LogicAddr_String a)")
    case None
    then have "hget R db ?h (LogicAddr_String a) = None" using ok(1) unfolding server_ok_def by blast
    from update_deletes_nothing [OF R t this] show ?thesis
      using rm bump_grows [OF R ok] by (auto simp: redis_RemoveMember_def)
  next
    case (Some r)
    obtain n flag data where r: "r = (n, flag, data)" by (cases r)
    then obtain m where "U (bytes_of_string data) = Some m" "LogicAddr_String (logic m) = LogicAddr_String a" "Export m = ex (logic m)"
      using ok(1) Some unfolding server_ok_def by blast
    from member_put [OF R ok, of "''true''", OF _ this] show ?thesis
      using rm update_deletes [OF R t Some [unfolded r]] by (simp add: redis_RemoveMember_def)
  qed
  have apart: "?h \<noteq> ?ak" "?vk \<noteq> ?avk" using ok(2) version_keys_apart [OF ok(2)] by (simp_all add: keys_apart_def)
  show "server_grows ex U R s db db'" if "redis_KeepAlive R a second now s db = Some (db', pub)"
    "\<forall>n data. rows R db ?ak (LogicAddr_String a) \<noteq> Some (n, ''true'', data)"
  proof -
    let ?N = "Suc (version R db ?avk)" and ?t = "show_nat (now + second)"
    let ?db = "put_row R ?ak ?avk ?N (LogicAddr_String a) (entry_text ?N ''false'' ?t) db"
    have "db' = ?db" using that heartbeat_alive [OF ta] by (simp add: redis_KeepAlive_def)
    moreover have p: "table_ok R ?ak ?avk ?db" "rows R ?db ?ak = (rows R db ?ak)(LogicAddr_String a \<mapsto> (?N, ''false'', ?t))"
      using put_row_table [OF R ta, of ?N "''false''"] by simp_all
    moreover have "deadlines_ok R ?ak ?db" using d p(2) by (auto simp: deadlines_ok_def)
    moreover have "grows R ?ak ?avk db ?db" by (rule put_row_grows [OF R ta]) simp
    ultimately show ?thesis using alive_change [OF ok] same_table_put_row [OF R apart] by blast
  qed
  show "server_grows ex U R s db db'" if ct: "CheckTimeout R now s db = Some (db', pub)"
  proof -
    obtain db1 pub1 where c: "ScriptCheckTimeout R ?ak ?avk ?ak now db = Some (db1, pub1)" "table_ok R ?ak ?avk db1"
      "version R db ?avk \<le> version R db1 ?avk" "deadlines_ok R ?ak db1"
      "\<And>a. rows R db1 ?ak a = timed_out now (Suc (version R db ?avk)) (rows R db ?ak a)"
      "\<And>h k. h \<noteq> ?ak \<Longrightarrow> k \<noteq> ?avk \<Longrightarrow> same_table R h k db db1"
      by (rule check_timeout [OF R ta d]) blast
    have "grows R ?ak ?avk db db1"
      unfolding grows_def c(5) by (auto simp: c(3) timed_out_def split: option.split)
    then have "server_grows ex U R s db db1" by (rule alive_change [OF ok c(2,4) _ c(6) [OF apart]])
    then show ?thesis using ct c(1) by (simp add: CheckTimeout_def)
  qed
qed

section \<open>Rounds of the subscriber\<close>

definition same_names :: "redis \<Rightarrow> redis \<Rightarrow> bool" where
  "same_names s s' \<longleftrightarrow> MemberKey s' = MemberKey s \<and> AliveKey s' = AliveKey s"

lemma same_names_cong:
  assumes "same_names s s'"
  shows "getMemberKey s' = getMemberKey s" "getMemberVersionKey s' = getMemberVersionKey s"
    "getAliveKey s' = getAliveKey s" "getAliveVersionKey s' = getAliveVersionKey s"
    "server_ok ex U R s' db = server_ok ex U R s db" "keys_apart s' = keys_apart s"
    "asks_members R s' db = asks_members R s db" "asks_alives R s' db = asks_alives R s db"
proof -
  show k: "getMemberKey s' = getMemberKey s" "getMemberVersionKey s' = getMemberVersionKey s"
    "getAliveKey s' = getAliveKey s" "getAliveVersionKey s' = getAliveVersionKey s"
    using assms
    by (simp_all add: same_names_def getMemberKey_def getAliveKey_def getMemberVersionKey_def getAliveVersionKey_def)
  show "server_ok ex U R s' db = server_ok ex U R s db" unfolding server_ok_def k ..
  show "keys_apart s' = keys_apart s" unfolding keys_apart_def k ..
  show "asks_members R s' db = asks_members R s db" "asks_alives R s' db = asks_alives R s db"
    unfolding asks_members_def asks_alives_def k by (rule refl)+
qed

lemma rest_kept_names: "rest_kept s s' \<Longrightarrow> same_names s s'"
  by (simp add: rest_kept_def same_names_def)

text \<open>The subscriber reads a database.\<close>

definition reads ::
    "(logic_addr \<Rightarrow> bool) \<Rightarrow> (bytes \<Rightarrow> Node option) \<Rightarrow> 'db redis_server \<Rightarrow> 'db \<Rightarrow> redis \<Rightarrow> bool" where
  "reads ex U R db s \<longleftrightarrow> keys_apart s \<and> server_ok ex U R s db \<and> on_members synced U R db s \<and> on_alives synced R db s"

lemma server_bounded:
  assumes "server_ok ex U R s db"
  shows "bounded (version R db (getMemberVersionKey s)) (rows R db (getMemberKey s))"
    "bounded (version R db (getAliveVersionKey s)) (rows R db (getAliveKey s))"
  using assms by (simp_all add: server_ok_def table_bounded)

lemma refused_polls:
  assumes "refused ask"
  shows "\<exists>err. redis_getMembers U ask s = Some (Some err, [], s)" "\<exists>err. redis_getAlives ask s = Some (Some err, [], s)"
  using assms by (auto simp: refused_def redis_getMembers_def redis_getAlives_def)

lemma members_round:
  assumes "redis_ok R" "reads ex U R db s" "refused ask \<or> ask = asks_members R s db"
  obtains err infos s' where "redis_getMembers U ask s = Some (err, infos, s')" "reads ex U R db s'" "rest_kept s s'"
    "err = None \<longrightarrow> on_members current U R db s'" "alive s' = alive s" "aliveVersion s' = aliveVersion s"
    "ask = asks_members R s db \<longrightarrow> err = None"
proof (cases "ask = asks_members R s db")
  case False
  then obtain err where "redis_getMembers U ask s = Some (Some err, [], s)" using assms(3) refused_polls by blast
  then show ?thesis using that assms(2) False by (simp add: rest_kept_def)
next
  case True
  have o: "server_ok ex U R s db" "on_members told U R db s"
    using assms(2) synced_told by (auto simp: reads_def)
  obtain infos s' where r: "redis_getMembers U (asks_members R s db) s = Some (None, infos, s')"
      "on_members current U R db s'" "alive s' = alive s" "aliveVersion s' = aliveVersion s" "rest_kept s s'"
    by (rule poll_members [OF assms(1) o])
  note c = same_names_cong [OF rest_kept_names [OF r(5)]]
  have "on_members synced U R db s'" using current_synced [OF r(2)] server_bounded [OF o(1)] by (simp add: c)
  then have "reads ex U R db s'" using assms(2) r(3,4) by (simp add: reads_def c)
  then show ?thesis using that r True by blast
qed

lemma alives_round:
  assumes "redis_ok R" "reads ex U R db s" "refused ask \<or> ask = asks_alives R s db"
  obtains err infos s' where "redis_getAlives ask s = Some (err, infos, s')" "reads ex U R db s'" "rest_kept s s'"
    "err = None \<longrightarrow> on_alives current R db s'" "members s' = members s" "memberVersion s' = memberVersion s"
    "ask = asks_alives R s db \<longrightarrow> err = None"
proof (cases "ask = asks_alives R s db")
  case False
  then obtain err where "redis_getAlives ask s = Some (Some err, [], s)" using assms(3) refused_polls by blast
  then show ?thesis using that assms(2) False by (simp add: rest_kept_def)
next
  case True
  have o: "server_ok ex U R s db" "on_alives told R db s"
    using assms(2) synced_told by (auto simp: reads_def)
  obtain infos s' where r: "redis_getAlives (asks_alives R s db) s = Some (None, infos, s')"
      "on_alives current R db s'" "members s' = members s" "memberVersion s' = memberVersion s" "rest_kept s s'"
    by (rule poll_alives [OF assms(1) o])
  note c = same_names_cong [OF rest_kept_names [OF r(5)]]
  have "on_alives synced R db s'" using current_synced [OF r(2)] server_bounded [OF o(1)] by (simp add: c)
  then have "reads ex U R db s'" using assms(2) r(3,4) by (simp add: reads_def c)
  then show ?thesis using that r True by blast
qed

text \<open>A recovery from version 0 leaves a subscriber that was up to date up to date.\<close>

lemma recovery:
  assumes R: "redis_ok R" and ok: "keys_apart s" "server_ok ex U R s db"
    and "on_members current U R db s" "on_alives current R db s"
  obtains infos1 s1 infos2 s2
  where "redis_getMembers U (asks_members R s db) (s\<lparr>memberVersion := 0, aliveVersion := 0\<rparr>) = Some (None, infos1, s1)"
    "redis_getAlives (asks_alives R s db) s1 = Some (None, infos2, s2)" "rest_kept s s2"
    "on_members current U R db s2" "on_alives current R db s2"
proof -
  let ?s = "s\<lparr>memberVersion := 0, aliveVersion := 0\<rparr>"
  have n: "same_names s ?s" by (simp add: same_names_def)
  note c = same_names_cong [OF n]
  have m: "on_members told U R db ?s" using current_told [OF assms(4)] by (simp add: c)
  obtain infos1 s1 where 1: "redis_getMembers U (asks_members R s db) ?s = Some (None, infos1, s1)"
      "on_members current U R db s1" "alive s1 = alive s" "aliveVersion s1 = 0" "rest_kept ?s s1"
    by (rule poll_members [OF R _ m, of ex]) (use ok(2) in \<open>simp_all add: c\<close>)
  note c1 = same_names_cong [OF rest_kept_names [OF 1(5)]]
  have a: "on_alives told R db s1" using current_told [OF assms(5)] 1(3,4) by (simp add: c c1)
  obtain infos2 s2 where 2: "redis_getAlives (asks_alives R s db) s1 = Some (None, infos2, s2)"
      "on_alives current R db s2" "members s2 = members s1" "memberVersion s2 = memberVersion s1" "rest_kept s1 s2"
    by (rule poll_alives [OF R _ a, of ex U]) (use ok(2) in \<open>simp_all add: c c1\<close>)
  note c2 = same_names_cong [OF rest_kept_names [OF 2(5)]]
  have "on_members current U R db s2" using 1(2) 2(3,4) by (simp add: c1 c2)
  moreover have "rest_kept s s2" using 1(5) 2(5) by (simp add: rest_kept_def)
  ultimately show ?thesis using that 1(1) 2(1,2) by blast
qed

lemma reads_current:
  assumes "keys_apart s" "server_ok ex U R s db" "on_members current U R db s" "on_alives current R db s"
  shows "reads ex U R db s"
  using assms current_synced [OF assms(3) server_bounded(1) [OF assms(2)]]
    current_synced [OF assms(4) server_bounded(2) [OF assms(2)]] by (simp add: reads_def)

text \<open>Fields that reading does not depend on.\<close>

definition with_flags :: "redis \<Rightarrow> redis \<Rightarrow> bool" where
  "with_flags s s' \<longleftrightarrow> same_names s s' \<and> members s' = members s \<and> alive s' = alive s \<and>
     memberVersion s' = memberVersion s \<and> aliveVersion s' = aliveVersion s"

lemma with_flags_reads:
  assumes "with_flags s s'"
  shows "reads ex U R db s' = reads ex U R db s" "on_members current U R db s' = on_members current U R db s"
    "on_alives current R db s' = on_alives current R db s"
proof -
  have n: "same_names s s'" using assms by (simp add: with_flags_def)
  note c = same_names_cong [OF n]
  show "reads ex U R db s' = reads ex U R db s" "on_members current U R db s' = on_members current U R db s"
    "on_alives current R db s' = on_alives current R db s"
    using assms by (simp_all add: with_flags_def reads_def c)
qed

lemma tick_round:
  assumes R: "redis_ok R" and "reads ex U R db s" "select_at R db (RedisTick ask1 ask2 ask3 ask4) s"
  obtains infos s' where "redis_watch U (RedisTick ask1 ask2 ask3 ask4) s = Some (infos, s')" "reads ex U R db s'"
    "once s' = once s" "watching s' = watching s" "same_names s s'"
    "ask1 = asks_members R s db \<longrightarrow> ask2 = asks_alives R s db \<longrightarrow> on_members current U R db s' \<and> on_alives current R db s'"
proof -
  have sel: "refused ask1 \<or> ask1 = asks_members R s db" "refused ask2 \<or> ask2 = asks_alives R s db"
    "ask3 = asks_members R s db" "ask4 = asks_alives R s db"
    using assms(3) by simp_all
  obtain err1 infos1 s1 where 1: "redis_getMembers U ask1 s = Some (err1, infos1, s1)" "reads ex U R db s1" "rest_kept s s1"
    "err1 = None \<longrightarrow> on_members current U R db s1" "ask1 = asks_members R s db \<longrightarrow> err1 = None"
    by (rule members_round [OF R assms(2) sel(1)])
  note c1 = same_names_cong [OF rest_kept_names [OF 1(3)]]
  have "refused ask2 \<or> ask2 = asks_alives R s1 db" using sel(2) by (simp add: c1)
  then obtain err2 infos2 s2 where 2: "redis_getAlives ask2 s1 = Some (err2, infos2, s2)" "reads ex U R db s2" "rest_kept s1 s2"
    "err2 = None \<longrightarrow> on_alives current R db s2" "members s2 = members s1" "memberVersion s2 = memberVersion s1"
    "ask2 = asks_alives R s1 db \<longrightarrow> err2 = None"
    by (rule alives_round [OF R 1(2)])
  note c2 = same_names_cong [OF rest_kept_names [OF 2(3)]]
  have cur: "on_members current U R db s2" "on_alives current R db s2" if "err1 = None" "err2 = None"
    using that 1(4) 2(4-6) by (simp_all add: c2)
  have kept: "once s2 = once s" "watching s2 = watching s" "hadError s2 = hadError s" "same_names s s2"
    using 1(3) 2(3) by (simp_all add: rest_kept_def same_names_def)
  show ?thesis
  proof (cases "hadError s \<and> err1 = None \<and> err2 = None")
    case False
    define t where "t = (if err1 \<noteq> None \<or> err2 \<noteq> None then s2\<lparr>hadError := True\<rparr> else s2)"
    have f: "with_flags s2 t" by (simp add: t_def with_flags_def same_names_def)
    have w: "redis_watch U (RedisTick ask1 ask2 ask3 ask4) s = Some (infos1 @ infos2, t)"
      using False 1(1) 2(1) kept(3) by (auto simp: redis_watch_def t_def)
    have "reads ex U R db t" using 2(2) by (simp only: with_flags_reads(1) [OF f])
    moreover have "once t = once s" "watching t = watching s" "same_names s t"
      using kept by (simp_all add: t_def same_names_def)
    moreover have "on_members current U R db t \<and> on_alives current R db t"
      if "ask1 = asks_members R s db" "ask2 = asks_alives R s db"
      using cur that 1(5) 2(7) by (simp only: with_flags_reads(2,3) [OF f] c1 simp_thms)
    ultimately show ?thesis using that [OF w] by simp
  next
    case True
    have "keys_apart s2" "server_ok ex U R s2 db" using 2(2) by (simp_all add: reads_def)
    from recovery [OF R this cur] True obtain infos3 s3 infos4 s4
      where 3: "redis_getMembers U (asks_members R s2 db) (s2\<lparr>memberVersion := 0, aliveVersion := 0\<rparr>) = Some (None, infos3, s3)"
        "redis_getAlives (asks_alives R s2 db) s3 = Some (None, infos4, s4)" "rest_kept s2 s4"
        "on_members current U R db s4" "on_alives current R db s4" by metis
    let ?s = "s4\<lparr>hadError := False\<rparr>"
    note c4 = same_names_cong [OF rest_kept_names [OF 3(3)]]
    have f: "with_flags s4 ?s" by (simp add: with_flags_def same_names_def)
    have asks: "ask3 = asks_members R s2 db" "ask4 = asks_alives R s2 db"
      by (simp_all add: sel(3,4) same_names_cong(7,8) [OF kept(4)])
    have w: "redis_watch U (RedisTick ask1 ask2 ask3 ask4) s = Some (infos1 @ infos2 @ infos3 @ infos4, ?s)"
      using True 1(1) 2(1) kept(3) 3(1,2) by (simp add: redis_watch_def ignoring_def asks)
    have "reads ex U R db s4"
      by (rule reads_current [OF _ _ 3(4,5)]) (use 2(2) in \<open>simp_all add: c4 reads_def\<close>)
    then have "reads ex U R db ?s" "on_members current U R db ?s" "on_alives current R db ?s"
      using 3(4,5) by (simp_all only: with_flags_reads [OF f])
    then show ?thesis using that [OF w] 3(3) kept by (simp add: rest_kept_def same_names_def)
  qed
qed

lemma watch_round:
  assumes R: "redis_ok R" and rd: "reads ex U R db s" and w: "redis_watch U sel s = Some (infos, s')" and at: "select_at R db sel s"
  shows "reads ex U R db s'" "once s' = once s"
proof -
  have flags: "reads ex U R db t \<and> once t = once s" if "with_flags u t" "once t = once u" "reads ex U R db u" "once u = once s" for u t
    using that by (simp add: with_flags_reads(1) [OF that(1)])
  have "reads ex U R db s' \<and> once s' = once s"
  proof (cases sel)
    case (ChannelClosed attempts)
    then have "s' = s \<or> s' = s\<lparr>hadError := True\<rparr>" using w by (auto simp: redis_watch_def split: option.splits)
    moreover have "with_flags s (s\<lparr>hadError := True\<rparr>)" by (simp add: with_flags_def same_names_def)
    ultimately show ?thesis using flags rd by auto
  next
    case (Message channel ask)
    have e: "with_flags u (if err \<noteq> None then u\<lparr>hadError := True\<rparr> else u)" for u and err :: "go_error option"
      by (simp add: with_flags_def same_names_def)
    consider "channel = getMemberKey s" | "channel \<noteq> getMemberKey s" "channel = getAliveKey s" | "s' = s"
      using w Message by (auto simp: redis_watch_def split: if_splits)
    then show ?thesis
    proof cases
      case 1
      then have "refused ask \<or> ask = asks_members R s db" using at Message by simp
      then obtain err infos1 s1 where r: "redis_getMembers U ask s = Some (err, infos1, s1)" "reads ex U R db s1" "rest_kept s s1"
        by (rule members_round [OF R rd])
      then have "s' = (if err \<noteq> None then s1\<lparr>hadError := True\<rparr> else s1)" using w Message 1 by (simp add: redis_watch_def)
      then show ?thesis using flags [OF e _ r(2), of err] r(3) by (simp add: rest_kept_def)
    next
      case 2
      then have "refused ask \<or> ask = asks_alives R s db" using at Message by simp
      then obtain err infos1 s1 where r: "redis_getAlives ask s = Some (err, infos1, s1)" "reads ex U R db s1" "rest_kept s s1"
        by (rule alives_round [OF R rd])
      then have "s' = (if err \<noteq> None then s1\<lparr>hadError := True\<rparr> else s1)" using w Message 2 by (simp add: redis_watch_def)
      then show ?thesis using flags [OF e _ r(2), of err] r(3) by (simp add: rest_kept_def)
    qed (use rd in simp)
  next
    case (RedisTick ask1 ask2 ask3 ask4)
    obtain infos1 s1 where "redis_watch U (RedisTick ask1 ask2 ask3 ask4) s = Some (infos1, s1)" "reads ex U R db s1" "once s1 = once s"
      by (rule tick_round [OF R rd at [unfolded RedisTick]])
    then show ?thesis using w RedisTick by simp
  next
    case RedisDone
    moreover have "with_flags s (s\<lparr>watching := False\<rparr>)" by (simp add: with_flags_def same_names_def)
    ultimately show ?thesis using w flags rd by (auto simp: redis_watch_def)
  qed
  then show "reads ex U R db s'" "once s' = once s" by simp_all
qed

lemma subscribe_round:
  assumes R: "redis_ok R" and inv: "sys_inv ex U R (db, s)" and w: "redis_Subscribe U callback ask1 ask2 s = Some (err, infos, s')"
    and at: "refused ask1 \<or> ask1 = asks_members R s db" "refused ask2 \<or> ask2 = asks_alives R s db" and "\<not> once s"
  shows "reads ex U R db s'" "once s'"
proof -
  let ?s = "s\<lparr>once := True, alive := {}, members := Map.empty, cb := callback\<rparr>"
  have n: "same_names s ?s" by (simp add: same_names_def)
  note c = same_names_cong [OF n]
  have v: "memberVersion s = 0" "aliveVersion s = 0" "keys_apart s" "server_ok ex U R s db"
    using inv assms(6) by (simp_all add: sys_inv_def)
  have "on_members synced U R db ?s" "on_alives synced R db ?s"
    using synced_start [OF server_bounded(1) [OF v(4)]] synced_start [OF server_bounded(2) [OF v(4)], of False] v(1,2)
    by (simp_all add: c)
  then have rd: "reads ex U R db ?s" using v(3,4) by (simp add: reads_def c)
  have "refused ask1 \<or> ask1 = asks_members R ?s db" using at(1) by (simp add: c)
  then obtain err1 infos1 s1 where 1: "redis_getMembers U ask1 ?s = Some (err1, infos1, s1)" "reads ex U R db s1" "rest_kept ?s s1"
    by (rule members_round [OF R rd])
  have "refused ask2 \<or> ask2 = asks_alives R s1 db" using at(2) by (simp add: c same_names_cong [OF rest_kept_names [OF 1(3)]])
  then obtain err2 infos2 s2 where 2: "redis_getAlives ask2 s1 = Some (err2, infos2, s2)" "reads ex U R db s2" "rest_kept s1 s2"
    by (rule alives_round [OF R 1(2)])
  let ?t = "s2\<lparr>closeFunc := True, watching := True, hadError := False\<rparr>"
  have f: "with_flags s2 ?t" by (simp add: with_flags_def same_names_def)
  have "s' = s1 \<or> s' = s2 \<or> s' = ?t"
    using w 1(1) 2(1) assms(6) by (auto simp: redis_Subscribe_def split: option.splits)
  moreover have "reads ex U R db ?t" using 2(2) by (simp only: with_flags_reads(1) [OF f])
  moreover have "once s1" "once s2" using 1(3) 2(3) by (simp_all add: rest_kept_def)
  ultimately show "reads ex U R db s'" "once s'" using 1(2) 2(2) by auto
qed

lemma subscribe_current:
  assumes R: "redis_ok R" and inv: "sys_inv ex U R (db, s)" and "\<not> once s"
  obtains infos s' where "redis_Subscribe U callback (asks_members R s db) (asks_alives R s db) s = Some (None, infos, s')"
    "on_members current U R db s'" "on_alives current R db s'" "same_names s s'"
proof -
  let ?s = "s\<lparr>once := True, alive := {}, members := Map.empty, cb := callback\<rparr>"
  have n: "same_names s ?s" by (simp add: same_names_def)
  note c = same_names_cong [OF n]
  have v: "memberVersion s = 0" "aliveVersion s = 0" "server_ok ex U R s db"
    using inv assms(3) by (simp_all add: sys_inv_def)
  have m: "on_members told U R db ?s" and a: "told False (\<lambda>data. True) 0
      (version R db (getAliveVersionKey s)) (rows R db (getAliveKey s)) (\<lambda>a. False)"
    using synced_told [OF synced_start [OF server_bounded(1) [OF v(3)]]] v(1,2)
      synced_told [OF synced_start [OF server_bounded(2) [OF v(3)]]] by (simp_all add: c)
  obtain infos1 s1 where 1: "redis_getMembers U (asks_members R s db) ?s = Some (None, infos1, s1)"
      "on_members current U R db s1" "alive s1 = {}" "aliveVersion s1 = 0" "rest_kept ?s s1"
    by (rule poll_members [OF R _ m, of ex]) (use v in \<open>simp_all add: c\<close>)
  note c1 = same_names_cong [OF rest_kept_names [OF 1(5)]]
  have a1: "on_alives told R db s1" using a 1(3,4) by (simp add: c c1)
  obtain infos2 s2 where 2: "redis_getAlives (asks_alives R s db) s1 = Some (None, infos2, s2)"
      "on_alives current R db s2" "members s2 = members s1" "memberVersion s2 = memberVersion s1" "rest_kept s1 s2"
    by (rule poll_alives [OF R _ a1, of ex U]) (use v(3) in \<open>simp_all add: c c1\<close>)
  let ?t = "s2\<lparr>closeFunc := True, watching := True, hadError := False\<rparr>"
  have f: "with_flags s2 ?t" by (simp add: with_flags_def same_names_def)
  have "on_members current U R db s2" using 1(2) 2(3,4) by (simp add: same_names_cong [OF rest_kept_names [OF 2(5)]])
  then have "on_members current U R db ?t" "on_alives current R db ?t"
    using 2(2) by (simp_all only: with_flags_reads [OF f])
  moreover have "redis_Subscribe U callback (asks_members R s db) (asks_alives R s db) s = Some (None, infos1 @ infos2, ?t)"
    using assms(3) 1(1) 2(1) by (simp add: redis_Subscribe_def)
  moreover have "same_names s ?t" using 1(5) 2(5) by (simp add: rest_kept_def same_names_def)
  ultimately show ?thesis using that by blast
qed

lemma server_asked:
  assumes "server_ok ex U R s db"
  shows "members_asked ex U R s (asks_members R s db)" "alives_asked R s (asks_alives R s db)"
proof -
  have "configs_ok ex U R (getMemberKey s) (getMemberVersionKey s) db"
    using assms unfolding server_ok_def configs_ok_def about_def by fastforce
  then show "members_asked ex U R s (asks_members R s db)" by (auto simp: members_asked_def asks_members_def)
  show "alives_asked R s (asks_alives R s db)"
    using assms by (auto simp: alives_asked_def asks_alives_def server_ok_def)
qed

lemma sys_inv_reads: "sys_inv ex U R (db, s) \<longleftrightarrow>
    reads ex U R db s \<and> (\<not> once s \<longrightarrow> \<not> watching s \<and> memberVersion s = 0 \<and> aliveVersion s = 0)"
  by (auto simp: sys_inv_def reads_def)

lemma sys_step_inv:
  assumes R: "redis_ok R" and "sys_step ex json_Marshal U R x y" "sys_inv ex U R x"
  shows "sys_inv ex U R y"
  using assms(2,3)
proof cases
  case (subscribes callback ask1 ask2 s err infos s' db)
  show ?thesis
  proof (cases "once s")
    case True
    then show ?thesis using subscribes assms(3) by (auto simp: redis_Subscribe_def)
  next
    case False
    have "sys_inv ex U R (db, s)" using subscribes(1) assms(3) by simp
    from subscribe_round [OF R this subscribes(3-5) False] subscribes(2) show ?thesis by (simp add: sys_inv_reads)
  qed
next
  case (watches s sel infos s' db)
  then have rd: "reads ex U R db s" and "once s" using assms(3) by (auto simp: sys_inv_reads)
  with watch_round [OF R rd watches(4,5)] watches(2) show ?thesis by (simp add: sys_inv_reads)
next
  case (configures n s db db' pub b)
  then have inv: "sys_inv ex U R (db, s)" "server_ok ex U R s db" "keys_apart s" using assms(3) by (simp_all add: sys_inv_def)
  from server_grows_inv [OF inv(1) server_steps(1) [OF R inv(2,3) configures(3-6)]] show ?thesis using configures(2) by simp
next
  case (removes a s db db' pub)
  then have inv: "sys_inv ex U R (db, s)" "server_ok ex U R s db" "keys_apart s" using assms(3) by (simp_all add: sys_inv_def)
  from server_grows_inv [OF inv(1) server_steps(2) [OF R inv(2,3) removes(3)]] show ?thesis using removes(2) by simp
next
  case (beats a second now s db db' pub)
  then have inv: "sys_inv ex U R (db, s)" "server_ok ex U R s db" "keys_apart s" using assms(3) by (simp_all add: sys_inv_def)
  from server_grows_inv [OF inv(1) server_steps(3) [OF R inv(2,3) beats(3,4)]] show ?thesis using beats(2) by simp
next
  case (expires now s db db' pub)
  then have inv: "sys_inv ex U R (db, s)" "server_ok ex U R s db" "keys_apart s" using assms(3) by (simp_all add: sys_inv_def)
  from server_grows_inv [OF inv(1) server_steps(4) [OF R inv(2,3) expires(3)]] show ?thesis using expires(2) by simp
qed

section \<open>A server\<close>

definition demo_redis_server :: "((string \<Rightarrow> string option) \<times> (string \<Rightarrow> (string, string) alist)) redis_server" where
  "demo_redis_server = \<lparr>rget = (\<lambda>(m, h) k. m k), rset = (\<lambda>k v (m, h). (m(k \<mapsto> v), h)),
     hget = (\<lambda>(m, h) k f. DAList.lookup (h k) f), hset = (\<lambda>k f v (m, h). (m, h(k := DAList.update f v (h k)))),
     hgetall = (\<lambda>(m, h) k. DAList.impl_of (h k))\<rparr>"

lemma demo_redis_server_ok: "redis_ok demo_redis_server"
  unfolding redis_ok_def
proof (intro conjI allI)
  fix db :: "(string \<Rightarrow> string option) \<times> (string \<Rightarrow> (string, string) alist)" and h
  show "distinct (map fst (hgetall demo_redis_server db h))"
    using DAList.impl_of [of "snd db h"] by (simp add: demo_redis_server_def case_prod_unfold)
  show "map_of (hgetall demo_redis_server db h) = hget demo_redis_server db h"
    by (simp add: demo_redis_server_def case_prod_unfold DAList.lookup.rep_eq fun_eq_iff)
qed (auto simp: demo_redis_server_def lookup_update split: prod.split)

definition demo_redis :: redis where
  "demo_redis = \<lparr>alive = {}, members = Map.empty, cb = False, once = False, closeFunc = False, closed = False,
     cancelled = False, watching = False, hadError = False, MemberKey = [], AliveKey = [], memberVersion = 0, aliveVersion = 0\<rparr>"

definition demo_db :: "(string \<Rightarrow> string option) \<times> (string \<Rightarrow> (string, string) alist)" where
  "demo_db = (Map.empty, (\<lambda>h. DAList.empty))"

lemma demo_keys: "getMemberKey demo_redis = ''members''" "getAliveKey demo_redis = ''alive''" "keys_apart demo_redis"
  by (simp_all add: demo_redis_def getMemberKey_def getAliveKey_def keys_apart_def getMemberVersionKey_def getAliveVersionKey_def)

lemma demo_db_ok: "server_ok ex U demo_redis_server s demo_db"
  by (simp add: server_ok_def table_ok_def deadlines_ok_def demo_db_def demo_redis_server_def rows_def)

section \<open>Properties\<close>


lemma demo_redis_run:
  fixes U defines "U \<equiv> unmarshal demo_unmarshal (\<lambda>s. Inr (TCPAddr s))" and "k \<equiv> LogicAddr_String 526339"
  obtains db where "(sys_step (\<lambda>_. False) (\<lambda>j. Inr []) U demo_redis_server)\<^sup>*\<^sup>* (demo_db, demo_redis) (db, demo_redis)"
    "rows demo_redis_server db ''members'' k = Some (1, ''false'', [])"
    "rows demo_redis_server db ''alive'' k = Some (1, ''false'', show_nat 15)"
proof -
  let ?R = demo_redis_server and ?s = demo_redis and ?ex = "\<lambda>_ :: logic_addr. False"
  have a: "logic demo_node = 526339" "\<not> Export demo_node" by (simp_all add: demo_node_def)
  have U: "U b = Some demo_node" for b by (simp add: U_def demo_unmarshal_node)
  have ok: "server_ok ?ex U ?R ?s demo_db" by (rule demo_db_ok)
  have t: "table_ok ?R ''members'' (getMemberVersionKey ?s) demo_db" using ok by (simp add: server_ok_def demo_keys)
  have v: "version ?R demo_db (getMemberVersionKey ?s) = 0" "version ?R demo_db (getAliveVersionKey ?s) = 0"
    by (simp_all add: version_def demo_redis_server_def demo_db_def)
  define db1 where "db1 = put_row ?R ''members'' (getMemberVersionKey ?s) 1 k (entry_text 1 ''false'' []) demo_db"
  have m: "Node_Marshal (\<lambda>j. Inr []) demo_node = Inr []" by (simp add: Node_Marshal_def demo_node_def)
  have 1: "redis_UpdateMember ?R (\<lambda>j. Inr []) demo_node ?s demo_db = Some (db1, [(''members'', show_nat 1)])"
    using update_inserts [OF t] v(1) m
    by (simp add: redis_UpdateMember_def demo_keys a db1_def k_def string_of_bytes_def)
  have grown: "server_grows ?ex U ?R ?s demo_db db1"
    using server_steps(1) [OF demo_redis_server_ok ok demo_keys(3) 1 m U] a by simp
  have ok1: "server_ok ?ex U ?R ?s db1" using grown by (simp add: server_grows_def)
  have r1: "rows ?R db1 ''members'' k = Some (1, ''false'', [])"
    using put_row_table(3) [OF demo_redis_server_ok t, of 1 "''false''" k "[]"] v(1) by (simp add: db1_def)
  have same: "same_table ?R ''alive'' (getAliveVersionKey ?s) demo_db db1"
    unfolding db1_def using version_keys_apart [OF demo_keys(3)]
    by (intro same_table_put_row [OF demo_redis_server_ok]) auto
  have t1: "table_ok ?R ''alive'' (getAliveVersionKey ?s) db1" using ok1 by (simp add: server_ok_def demo_keys)
  have e1: "rows ?R db1 ''alive'' k = None" "version ?R db1 (getAliveVersionKey ?s) = 0"
    using same_tableD [OF same] v(2) by (simp_all add: rows_def demo_redis_server_def demo_db_def)
  define db2 where "db2 = put_row ?R ''alive'' (getAliveVersionKey ?s) 1 k (entry_text 1 ''false'' (show_nat 15)) db1"
  have 2: "redis_KeepAlive ?R 526339 10 5 ?s db1 = Some (db2, [(''alive'', show_nat 1)])"
    using heartbeat_alive [OF t1, of k 10 "''alive''" 5] e1 by (simp add: redis_KeepAlive_def demo_keys db2_def k_def)
  have "same_table ?R ''members'' (getMemberVersionKey ?s) db1 db2"
    unfolding db2_def using version_keys_apart [OF demo_keys(3)]
    by (intro same_table_put_row [OF demo_redis_server_ok]) auto
  from same_tableD(2) [OF this] r1 have "rows ?R db2 ''members'' k = Some (1, ''false'', [])" by simp
  moreover have "rows ?R db2 ''alive'' k = Some (1, ''false'', show_nat 15)"
    using put_row_table(3) [OF demo_redis_server_ok t1, of 1 "''false''" k "show_nat 15"] e1(2) by (simp add: db2_def)
  moreover have "(sys_step ?ex (\<lambda>j. Inr []) U ?R)\<^sup>*\<^sup>* (demo_db, ?s) (db2, ?s)"
  proof (rule converse_rtranclp_into_rtranclp [OF _ r_into_rtranclp])
    show "sys_step ?ex (\<lambda>j. Inr []) U ?R (demo_db, ?s) (db1, ?s)" by (rule configures [OF 1 m U]) (simp add: a)
    show "sys_step ?ex (\<lambda>j. Inr []) U ?R (db1, ?s) (db2, ?s)" by (rule beats [OF 2]) (use e1 in \<open>simp add: demo_keys k_def\<close>)
  qed
  ultimately show ?thesis using that by blast
qed

lemma demo_subscribed:
  fixes U defines "U \<equiv> unmarshal demo_unmarshal (\<lambda>s. Inr (TCPAddr s))" and "k \<equiv> LogicAddr_String 526339"
  obtains db infos s where "server_ok (\<lambda>_. False) U demo_redis_server demo_redis db"
    "redis_Subscribe U True (asks_members demo_redis_server demo_redis db) (asks_alives demo_redis_server demo_redis db) demo_redis =
       Some (None, infos, s)"
    "on_members current U demo_redis_server db s" "on_alives current demo_redis_server db s" "same_names demo_redis s"
    "members s k = Some demo_node" "k \<in> alive s" "rows demo_redis_server db ''members'' k = Some (1, ''false'', [])"
proof -
  let ?R = demo_redis_server and ?ex = "\<lambda>_ :: logic_addr. False"
  obtain db where run: "(sys_step ?ex (\<lambda>j. Inr []) U ?R)\<^sup>*\<^sup>* (demo_db, demo_redis) (db, demo_redis)"
    and rows: "rows ?R db ''members'' k = Some (1, ''false'', [])" "rows ?R db ''alive'' k = Some (1, ''false'', show_nat 15)"
    unfolding U_def k_def by (rule demo_redis_run)
  have "sys_inv ?ex U ?R (demo_db, demo_redis)"
    using synced_start [OF server_bounded(1) [OF demo_db_ok]] synced_start [OF server_bounded(2) [OF demo_db_ok], of False] demo_db_ok demo_keys(3)
    by (simp add: sys_inv_def demo_redis_def)
  with run have inv: "sys_inv ?ex U ?R (db, demo_redis)"
    by (induction rule: rtranclp_induct) (use sys_step_inv [OF demo_redis_server_ok] in blast)+
  obtain infos s where sub: "redis_Subscribe U True (asks_members ?R demo_redis db) (asks_alives ?R demo_redis db) demo_redis = Some (None, infos, s)"
    and cur: "on_members current U ?R db s" "on_alives current ?R db s" "same_names demo_redis s"
    by (rule subscribe_current [OF demo_redis_server_ok inv, of True]) (simp add: demo_redis_def)
  note c = same_names_cong(1,3) [OF cur(3)] demo_keys
  have "members s k = Some demo_node" "k \<in> alive s"
    using cur(1,2) rows by (simp_all add: current_def meant_def c U_def demo_unmarshal_node)
  moreover have "server_ok ?ex U ?R demo_redis db" using inv by (simp add: sys_inv_def)
  ultimately show ?thesis using that sub cur rows by blast
qed




text \<open>Asking from version 0 tells nothing about a member that has been removed.\<close>

lemma removed_not_told:
  assumes "redis_ok R" "server_ok ex U R z db'" "memberVersion z = 0"
    and "rows R db' (getMemberKey z) k = Some (m, ''true'', data)" "members z k = Some n"
  obtains infos s where "redis_getMembers U (asks_members R z db') z = Some (None, infos, s)" "members s k = Some n"
    "memberVersion s = version R db' (getMemberVersionKey s)" "alive s = alive z" "aliveVersion s = aliveVersion z" "rest_kept z s"
proof -
  have "0 < m" "m \<le> version R db' (getMemberVersionKey z)"
    using server_bounded(1) [OF assms(2)] assms(4) unfolding bounded_def by blast+
  then have "memberVersion z < version R db' (getMemberVersionKey z)" using assms(3) by simp
  then obtain infos s ns where r: "redis_getMembers U (asks_members R z db') z = Some (None, infos, s)"
    "\<And>b data flag. (b, data, flag) \<in> set ns \<longleftrightarrow>
       (\<exists>n. rows R db' (getMemberKey z) b = Some (n, flag, data) \<and> news (memberVersion z) (n, flag, data))"
    "\<And>b. members s b = (case map_of ns b of None \<Rightarrow> members z b
       | Some (m, flag) \<Rightarrow> if flag = ''true'' then None else U (bytes_of_string m))"
    "memberVersion s = version R db' (getMemberVersionKey z)" "alive s = alive z" "aliveVersion s = aliveVersion z" "rest_kept z s"
    by (rule members_reply [OF assms(1,2)]) blast
  have "(k, d, flag) \<notin> set ns" for d flag using r(2) assms(3,4) by (auto simp: news_def)
  then have "map_of ns k = None" by (auto simp: map_of_eq_None_iff)
  then have "members s k = Some n" using r(3) assms(5) by simp
  then show ?thesis using that r(1,4-7) rest_kept_keys(2) [OF r(7)] by simp
qed

lemma settled_tick:
  assumes "redis_ok R" "server_ok ex U R s db" "\<not> hadError s"
    and "memberVersion s = version R db (getMemberVersionKey s)" "aliveVersion s = version R db (getAliveVersionKey s)"
  shows "redis_watch U (RedisTick (asks_members R s db) (asks_alives R s db) ask3 ask4) s = Some ([], s)"
  using members_up_to_date [OF assms(1,2,4)] alives_up_to_date [OF assms(1,2,5)] assms(3) by (simp add: redis_watch_def)

lemma remove_row:
  assumes "redis_ok R" "server_ok ex U R s db" "keys_apart s" "on_members current U R db s"
    and "members s (LogicAddr_String a) = Some n" "redis_RemoveMember R a s db = Some (db', pub)"
  obtains m data where "rows R db' (getMemberKey s) (LogicAddr_String a) = Some (m, ''true'', data)"
    "same_table R (getAliveKey s) (getAliveVersionKey s) db db'"
proof -
  let ?k = "LogicAddr_String a" and ?h = "getMemberKey s" and ?vk = "getMemberVersionKey s"
  let ?N = "Suc (version R db ?vk)"
  have t: "table_ok R ?h ?vk db" using assms(2) by (simp add: server_ok_def)
  have "meant None (\<lambda>data. U (bytes_of_string data)) (rows R db ?h ?k) = Some n"
    using assms(4,5) by (simp add: current_def)
  then obtain m data where row: "rows R db ?h ?k = Some (m, ''false'', data)"
    by (auto simp: meant_def split: option.splits if_splits)
  have db': "db' = put_row R ?h ?vk ?N ?k (entry_text ?N ''true'' data) db"
    using assms(6) update_deletes [OF assms(1) t row] by (simp add: redis_RemoveMember_def)
  have "rows R db' ?h ?k = Some (?N, ''true'', data)"
    using put_row_table [OF assms(1) t, of ?N "''true''" ?k data] by (simp add: db')
  moreover have "same_table R (getAliveKey s) (getAliveVersionKey s) db db'"
    unfolding db' using assms(3) version_keys_apart [OF assms(3)]
    by (intro same_table_put_row [OF assms(1)]) (auto simp: keys_apart_def)
  ultimately show ?thesis using that by blast
qed

text \<open>
  C38. A recovery can lose a removal: when a member is removed between the first requests of a
  tick and the request from version 0 that recovers from an earlier error, the subscriber
  keeps the member and has the server's version, so that no later tick removes it either.
\<close>

theorem recovery_misses_removal:
  assumes "redis_ok R" "server_ok ex U R s db" "keys_apart s" "on_members current U R db s" "on_alives current R db s"
    and "hadError s" "members s (LogicAddr_String a) = Some n" "redis_RemoveMember R a s db = Some (db', pub)"
  shows "\<exists>infos s'. redis_watch U (RedisTick (asks_members R s db) (asks_alives R s db) (asks_members R s db') (asks_alives R s db')) s =
      Some (infos, s') \<and> members s' (LogicAddr_String a) = Some n \<and>
    redis_watch U (RedisTick (asks_members R s' db') (asks_alives R s' db') ask3 ask4) s' = Some ([], s')"
proof -
  have ok: "server_ok ex U R s db'" using server_steps(2) [OF assms(1-3,8)] by (simp add: server_grows_def)
  obtain m data where row: "rows R db' (getMemberKey s) (LogicAddr_String a) = Some (m, ''true'', data)"
    and same: "same_table R (getAliveKey s) (getAliveVersionKey s) db db'"
    by (rule remove_row [OF assms(1-4,7,8)])
  define z where "z = s\<lparr>memberVersion := 0, aliveVersion := 0\<rparr>"
  have n: "same_names s z" and z: "memberVersion z = 0" "aliveVersion z = 0" "members z = members s" "alive z = alive s"
    by (simp_all add: z_def same_names_def)
  note c = same_names_cong [OF n]
  obtain infos3 s3 where 3: "redis_getMembers U (asks_members R z db') z = Some (None, infos3, s3)"
      "members s3 (LogicAddr_String a) = Some n" "memberVersion s3 = version R db' (getMemberVersionKey s3)"
      "alive s3 = alive z" "aliveVersion s3 = aliveVersion z" "rest_kept z s3"
    by (rule removed_not_told [OF assms(1), of ex U z db' "LogicAddr_String a"]) (use ok row assms(7) z in \<open>simp_all add: c\<close>)
  note c3 = same_names_cong [OF rest_kept_names [OF 3(6)]]
  have "on_alives told R db' s3"
    using current_told [OF assms(5)] same_tableD [OF same] 3(4,5) by (simp add: c c3 z)
  then obtain infos4 s4 where 4: "redis_getAlives (asks_alives R s3 db') s3 = Some (None, infos4, s4)"
      "on_alives current R db' s4" "members s4 = members s3" "memberVersion s4 = memberVersion s3" "rest_kept s3 s4"
    using ok by (rule_tac poll_alives [OF assms(1), of ex U s3 db']) (simp_all add: c c3)
  note c4 = same_names_cong [OF rest_kept_names [OF 4(5)]]
  define s' where "s' = s4\<lparr>hadError := False\<rparr>"
  have n': "same_names s4 s'" and s': "members s' = members s4" "memberVersion s' = memberVersion s4"
    "aliveVersion s' = aliveVersion s4" "\<not> hadError s'" by (simp_all add: s'_def same_names_def)
  note c' = same_names_cong [OF n']
  have cur: "memberVersion s = version R db (getMemberVersionKey s)" "aliveVersion s = version R db (getAliveVersionKey s)"
    using assms(4,5) by (simp_all add: current_def)
  have "redis_watch U (RedisTick (asks_members R s db) (asks_alives R s db) (asks_members R s db') (asks_alives R s db')) s =
      Some (infos3 @ infos4, s')"
    using members_up_to_date [OF assms(1,2) cur(1)] alives_up_to_date [OF assms(1,2) cur(2)] 3(1) 4(1) assms(6)
    by (simp add: redis_watch_def ignoring_def s'_def c c3 z_def [symmetric])
  moreover have "redis_watch U (RedisTick (asks_members R s' db') (asks_alives R s' db') ask3 ask4) s' = Some ([], s')"
    by (rule settled_tick [OF assms(1), of ex]) (use ok 3(3) 4(2,4) s' in \<open>simp_all add: c c3 c4 c' current_def\<close>)
  ultimately show ?thesis using 3(2) 4(3) s'(1) by auto
qed

theorem recovery_misses_removal_witness:
  "\<exists>db db' pub s infos s'. redis_RemoveMember demo_redis_server 526339 s db = Some (db', pub) \<and>
     redis_watch (unmarshal demo_unmarshal (\<lambda>s. Inr (TCPAddr s)))
       (RedisTick (asks_members demo_redis_server s db) (asks_alives demo_redis_server s db)
         (asks_members demo_redis_server s db') (asks_alives demo_redis_server s db')) s = Some (infos, s') \<and>
     members s' (LogicAddr_String 526339) = Some demo_node"
proof -
  let ?U = "unmarshal demo_unmarshal (\<lambda>s. Inr (TCPAddr s))" and ?R = demo_redis_server and ?k = "LogicAddr_String 526339"
  let ?ex = "\<lambda>_ :: logic_addr. False"
  obtain db infos t where ok: "server_ok ?ex ?U ?R demo_redis db"
    and cur: "on_members current ?U ?R db t" "on_alives current ?R db t" "same_names demo_redis t" "members t ?k = Some demo_node"
    and row: "rows ?R db ''members'' ?k = Some (1, ''false'', [])"
    by (rule demo_subscribed) blast
  define s where "s = t\<lparr>hadError := True\<rparr>"
  have f: "with_flags t s" by (simp add: with_flags_def same_names_def s_def)
  have n: "same_names demo_redis s" using cur(3) by (simp add: s_def same_names_def)
  note c = same_names_cong [OF n]
  have cur': "on_members current ?U ?R db s" "on_alives current ?R db s"
    using cur(1,2) by (simp_all only: with_flags_reads [OF f])
  have ok': "server_ok ?ex ?U ?R s db" "keys_apart s" "hadError s" "members s ?k = Some demo_node"
    using ok demo_keys(3) cur(4) by (simp_all add: c) (simp_all add: s_def)
  have t: "table_ok ?R (getMemberKey s) (getMemberVersionKey s) db" using ok' by (simp add: server_ok_def)
  have "rows ?R db (getMemberKey s) ?k = Some (1, ''false'', [])" using row by (simp add: c demo_keys)
  from update_deletes [OF demo_redis_server_ok t this] obtain db' pub where rm: "redis_RemoveMember ?R 526339 s db = Some (db', pub)"
    by (simp add: redis_RemoveMember_def)
  from recovery_misses_removal [OF demo_redis_server_ok ok'(1,2) cur' ok'(3,4) rm] rm show ?thesis by blast
qed

text \<open>
  C39. A node that was marked as dead needs two heartbeats to come back: the first one replaces
  its entry by one that no script can read, keeps the version and publishes nothing; only
  the second one, at any later time, makes it alive and publishes.
\<close>

theorem dead_node_heartbeats:
  assumes "redis_ok R" "table_ok R (getAliveKey s) (getAliveVersionKey s) db"
    and "rows R db (getAliveKey s) (LogicAddr_String a) = Some (n, ''true'', deadline)"
  shows "\<exists>db1 db2 ver. redis_KeepAlive R a second now s db = Some (db1, []) \<and>
    rows R db1 (getAliveKey s) = (rows R db (getAliveKey s))(LogicAddr_String a := None) \<and>
    version R db1 (getAliveVersionKey s) = version R db (getAliveVersionKey s) \<and>
    redis_KeepAlive R a second' now' s db1 = Some (db2, [(getAliveKey s, show_nat ver)]) \<and>
    rows R db2 (getAliveKey s) (LogicAddr_String a) = Some (ver, ''false'', show_nat (now' + second'))"
proof -
  let ?k = "LogicAddr_String a" and ?h = "getAliveKey s" and ?vk = "getAliveVersionKey s"
  let ?v = "show_nat n @ S # show_nat (now + second)" and ?N = "Suc (version R db ?vk)"
  define db1 where "db1 = hset R ?h ?k ?v db"
  have 1: "redis_KeepAlive R a second now s db = Some (db1, [])"
    using heartbeat_dead [OF assms(2,3)] by (simp add: redis_KeepAlive_def db1_def)
  have v: "lua_match ?v = None" by (rule lua_match_one) (simp_all add: S_not_in)
  have g: "rget R db1 ?vk = rget R db ?vk" "hget R db1 ?h b = (if b = ?k then Some ?v else hget R db ?h b)" for b
    using assms(1) by (auto simp: redis_ok_def db1_def)
  have ver: "version R db1 ?vk = version R db ?vk" by (simp add: version_def g)
  have r1: "rows R db1 ?h = (rows R db ?h)(?k := None)"
    by (rule ext) (simp add: rows_def g row_of_def v)
  have t1: "table_ok R ?h ?vk db1"
    unfolding table_ok_def
  proof (intro conjI allI impI)
    show "\<exists>m > 0. x = show_nat m" if "rget R db1 ?vk = Some x" for x
      using that assms(2) unfolding g(1) table_ok_def by simp
    show "lua_match w = None \<or> (\<exists>m flag data. w = entry_text m flag data \<and> is_flag flag \<and> 0 < m \<and> m \<le> version R db1 ?vk)"
      if w: "hget R db1 ?h b = Some w" for b w
    proof (cases "b = ?k")
      case True
      then show ?thesis using w v by (simp add: g)
    next
      case False
      then have "hget R db ?h b = Some w" using w by (simp add: g)
      from table_entry [OF assms(2) this] show ?thesis unfolding ver by blast
    qed
  qed
  have alive: "rows R db1 ?h ?k \<noteq> Some (m, ''true'', d)" for m d by (simp add: r1)
  let ?db2 = "put_row R ?h ?vk ?N ?k (entry_text ?N ''false'' (show_nat (now' + second'))) db1"
  have "redis_KeepAlive R a second' now' s db1 = Some (?db2, [(?h, show_nat ?N)])"
    using heartbeat_alive [OF t1 alive] ver by (simp add: redis_KeepAlive_def)
  moreover have "rows R ?db2 ?h ?k = Some (?N, ''false'', show_nat (now' + second'))"
    using put_row_table(3) [OF assms(1) t1, of ?N "''false''" ?k "show_nat (now' + second')"] ver by simp
  ultimately show ?thesis using 1 r1 ver by blast
qed

theorem dead_node_heartbeats_witness:
  "\<exists>db db1. rows demo_redis_server db ''alive'' (LogicAddr_String 526339) = Some (1, ''true'', show_nat 9) \<and>
     redis_KeepAlive demo_redis_server 526339 10 20 demo_redis db = Some (db1, []) \<and>
     rows demo_redis_server db1 ''alive'' (LogicAddr_String 526339) = None"
proof -
  let ?R = demo_redis_server and ?k = "LogicAddr_String 526339" and ?vk = "getAliveVersionKey demo_redis"
  have t: "table_ok ?R ''alive'' ?vk demo_db" using demo_db_ok [of _ _ demo_redis] by (simp add: server_ok_def demo_keys)
  have v: "version ?R demo_db ?vk \<le> 1" by (simp add: version_def demo_redis_server_def demo_db_def)
  define db where "db = put_row ?R ''alive'' ?vk 1 ?k (entry_text 1 ''true'' (show_nat 9)) demo_db"
  have p: "table_ok ?R ''alive'' ?vk db" "rows ?R db ''alive'' ?k = Some (1, ''true'', show_nat 9)"
    using put_row_table [OF demo_redis_server_ok t v, of "''true''" ?k "show_nat 9"] by (simp_all add: db_def)
  from dead_node_heartbeats [OF demo_redis_server_ok, of demo_redis db 526339 1 "show_nat 9" 10 20 10 30] p
  obtain db1 where "redis_KeepAlive ?R 526339 10 20 demo_redis db = Some (db1, [])"
    "rows ?R db1 ''alive'' = (rows ?R db ''alive'')(?k := None)"
    unfolding demo_keys by blast
  then show ?thesis using p(2) by (intro exI [of _ db] exI [of _ db1]) simp
qed

end
