(* ===== verification/Example_Codec.thy ===== *)
theory Example_Codec
  imports Frame_Reader
begin

text \<open>
  The codec of the example membership service (\<open>example/membership/membership.go\<close>): packets
  are JSON with a command number, in frames of their own making, which its \<open>Recv\<close> cuts off
  a connection. The JSON package is a parameter, one function for each direction.
\<close>

section \<open>Packets\<close>

record exNode =
  exLogicAddr :: string
  exNetAddr :: string
  exExport :: bool
  exAvailable :: bool

text \<open>The types that \<open>Encode\<close> knows, and any other.\<close>

datatype ex_packet =
    AddNode exNode
  | RemNode string
  | ModNode exNode
  | NodeInfo "exNode list"
  | SubscribeReq
  | OtherPacket

definition ex_addNode :: u32 where "ex_addNode = 1"
definition remNode :: u32 where "remNode = 2"
definition modNode :: u32 where "modNode = 3"
definition nodeInfo :: u32 where "nodeInfo = 4"
definition subscribe :: u32 where "subscribe = 5"

lemmas cmd_defs = ex_addNode_def remNode_def modNode_def nodeInfo_def subscribe_def

section \<open>The codec\<close>

record codec =
  cbuff :: bytes
  cw :: nat
  cr :: nat
  creader :: BufferReader
  cwriter :: BufferWriter

definition new_codec :: codec where
  "new_codec = \<lparr>cbuff = replicate 65535 0, cw = 0, cr = 0, creader = NewReader BigEndian [], cwriter = NeWriter BigEndian\<rparr>"

fun packet_cmd :: "ex_packet \<Rightarrow> u32 option" where
  "packet_cmd (AddNode _) = Some ex_addNode"
| "packet_cmd (RemNode _) = Some remNode"
| "packet_cmd (ModNode _) = Some modNode"
| "packet_cmd (NodeInfo _) = Some nodeInfo"
| "packet_cmd SubscribeReq = Some subscribe"
| "packet_cmd OtherPacket = None"

definition ex_Encode ::
    "(ex_packet \<Rightarrow> go_error + bytes) \<Rightarrow> codec \<Rightarrow> bytes list \<Rightarrow> ex_packet \<Rightarrow> bytes list \<times> nat" where
  "ex_Encode json_Marshal cc buffs pk =
     (case json_Marshal pk of
        Inl err \<Rightarrow> (buffs, 0)
      | Inr buff \<Rightarrow>
          let b = AppendUint32 (cwriter cc) [] (of_nat (length buff + 4))
          in (case packet_cmd pk of
                None \<Rightarrow> (buffs, 0)
              | Some c \<Rightarrow>
                  let b = AppendUint32 (cwriter cc) b c
                  in (buffs @ [b, buff], length b + length buff)))"

definition held_bytes :: "codec \<Rightarrow> bytes" where
  "held_bytes cc = take (cw cc - cr cc) (drop (cr cc) (cbuff cc))"

text \<open>The loop of \<open>Recv\<close> before the read.\<close>

definition ex_unpack :: "codec \<Rightarrow> (go_error + bytes) option \<times> codec" where
  "ex_unpack cc =
     (let unpackSize = cw cc - cr cc
      in if unpackSize \<ge> 4 then
           let (v, rd) = GetUint32 (Reset (creader cc) (held_bytes cc));
               cc = cc\<lparr>creader := rd\<rparr>;
               plen = unat v;
               totalSize = plen + 4
           in if plen = 0 then (Some (Inl (GoError ''zero payload'')), cc)
              else if totalSize \<le> unpackSize then
                let r = cr cc + 4;
                    pkt = take plen (drop r (cbuff cc));
                    r = r + plen;
                    cc = (if r = cw cc then cc\<lparr>cr := 0, cw := 0\<rparr> else cc\<lparr>cr := r\<rparr>)
                in (Some (Inr pkt), cc)
              else
                let b = (if totalSize > length (cbuff cc) then patch (replicate totalSize 0) 0 (held_bytes cc)
                         else patch (cbuff cc) 0 (held_bytes cc))
                in (None, cc\<lparr>cbuff := b, cw := cw cc - cr cc, cr := 0\<rparr>)
         else if cr cc > 0 then
           (None, cc\<lparr>cbuff := patch (cbuff cc) 0 (held_bytes cc), cw := cw cc - cr cc, cr := 0\<rparr>)
         else (None, cc))"

partial_function (option) ex_Recv ::
    "codec \<Rightarrow> conn_event list \<Rightarrow> ((go_error + bytes) \<times> codec \<times> conn_event list) option" where
  "ex_Recv cc conn =
     (case ex_unpack cc of
        (Some res, cc) \<Rightarrow> Some (res, cc, conn)
      | (None, cc) \<Rightarrow>
          (case conn_read (length (cbuff cc) - cw cc) conn of
             None \<Rightarrow> None
           | Some (data, err, conn) \<Rightarrow>
               let cc = cc\<lparr>cbuff := patch (cbuff cc) (cw cc) data, cw := cw cc + length data\<rparr>
               in (case err of
                     Some e \<Rightarrow> Some (Inl e, cc, conn)
                   | None \<Rightarrow> ex_Recv cc conn)))"

text \<open>
  \<open>Decode\<close> gives the object and the error of \<open>json.Unmarshal\<close>, which has the command as an
  argument in place of the type of the object. \<open>payload[4:]\<close> panics for a shorter payload.
\<close>

definition ex_Decode ::
    "(u32 \<Rightarrow> bytes \<Rightarrow> ex_packet \<times> go_error option) \<Rightarrow> codec \<Rightarrow> bytes \<Rightarrow>
     ((ex_packet option \<times> go_error option) \<times> codec) option" where
  "ex_Decode json_Unmarshal cc pkt =
     (let (c, rd) = GetUint32 (Reset (creader cc) pkt);
          cc = cc\<lparr>creader := rd\<rparr>
      in if c = ex_addNode \<or> c = remNode \<or> c = modNode \<or> c = nodeInfo \<or> c = subscribe then
           if length pkt < 4 then None
           else (case json_Unmarshal c (drop 4 pkt) of (pk, err) \<Rightarrow> Some ((Some pk, err), cc))
         else Some ((None, Some (GoError ''invaild object'')), cc))"

section \<open>Receiving\<close>

definition codec_inv :: "codec \<Rightarrow> bool" where
  "codec_inv cc \<longleftrightarrow> cr cc \<le> cw cc \<and> cw cc \<le> length (cbuff cc) \<and> 4 \<le> length (cbuff cc) \<and>
     rendian (creader cc) = BigEndian"

text \<open>No length is too large for this reader.\<close>

definition no_limit :: nat where "no_limit = 2 ^ 33"

lemma length_held: "codec_inv cc \<Longrightarrow> length (held_bytes cc) = cw cc - cr cc"
  by (auto simp: codec_inv_def held_bytes_def min_def)

lemma held_fields [simp]: "held_bytes (cc\<lparr>creader := rd\<rparr>) = held_bytes cc" "codec_inv (cc\<lparr>creader := rd\<rparr>) \<longleftrightarrow>
    cr cc \<le> cw cc \<and> cw cc \<le> length (cbuff cc) \<and> 4 \<le> length (cbuff cc) \<and> rendian rd = BigEndian"
  by (simp_all add: held_bytes_def codec_inv_def)

lemma GetUint32_Reset:
  assumes "rendian r = BigEndian" "4 \<le> length b"
  shows "\<exists>r'. GetUint32 (Reset r b) = (of_be (take 4 b), r') \<and> rendian r' = BigEndian"
  using assms by (auto simp: GetUint32_def Reset_def next_bytes_def)

lemma held_moved: "length p \<le> length b \<Longrightarrow> held_bytes (cc\<lparr>cbuff := patch b 0 p, cw := length p, cr := 0\<rparr>) = p"
  by (simp add: held_bytes_def patch_def)

lemma held_advance: "held_bytes (cc\<lparr>cr := cr cc + k\<rparr>) = drop k (held_bytes cc)"
  by (simp add: held_bytes_def drop_take add.commute)

lemma held_slice: "n + m \<le> cw cc - cr cc \<Longrightarrow> take n (drop m (held_bytes cc)) = take n (drop (cr cc + m) (cbuff cc))"
  by (auto simp: held_bytes_def drop_take min_def add.commute)

lemma held_filled:
  assumes "codec_inv cc" "cr cc = 0" "length data \<le> length (cbuff cc) - cw cc"
  shows "held_bytes (cc\<lparr>cbuff := patch (cbuff cc) (cw cc) data, cw := cw cc + length data\<rparr>) = held_bytes cc @ data"
    "codec_inv (cc\<lparr>cbuff := patch (cbuff cc) (cw cc) data, cw := cw cc + length data\<rparr>)"
  using assms by (auto simp: held_bytes_def patch_def codec_inv_def)

lemma parse_no_limit:
  "parse_frame no_limit s =
     (if length s < 4 then NeedMore
      else let n = unat (of_be (take 4 s) :: u32)
           in if n = 0 then Bad (GoError ''zero payload'')
              else if n + 4 \<le> length s then Got (take n (drop 4 s)) (drop (n + 4) s)
              else NeedMore)"
proof -
  have "unat (of_be (take 4 s) :: u32) < 2 ^ 32" using unsigned_less [of "of_be (take 4 s) :: u32"] by simp
  then show ?thesis by (simp add: parse_frame_def Let_def no_limit_def)
qed

lemma ex_unpack_done:
  assumes "codec_inv cc" "ex_unpack cc = (Some res, cc')"
  shows "(case parse_frame no_limit (held_bytes cc) of
            NeedMore \<Rightarrow> False
          | Bad e \<Rightarrow> res = Inl e
          | Got p rest \<Rightarrow> res = Inr p \<and> held_bytes cc' = rest \<and> codec_inv cc')"
proof -
  define n where "n = unat (of_be (take 4 (held_bytes cc)) :: u32)"
  have len: "length (held_bytes cc) = cw cc - cr cc" by (rule length_held [OF assms(1)])
  have size: "4 \<le> cw cc - cr cc"
    using assms(2) by (auto simp: ex_unpack_def Let_def split: if_splits prod.splits)
  obtain rd where rd: "GetUint32 (Reset (creader cc) (held_bytes cc)) = (of_be (take 4 (held_bytes cc)), rd)" "rendian rd = BigEndian"
    using GetUint32_Reset [of "creader cc" "held_bytes cc"] assms(1) len size by (auto simp: codec_inv_def)
  show ?thesis
  proof (cases "n = 0")
    case True
    then show ?thesis using assms(2) size len rd by (auto simp: ex_unpack_def Let_def parse_no_limit n_def)
  next
    case False
    then have fits: "n + 4 \<le> cw cc - cr cc" and res: "res = Inr (take n (drop (cr cc + 4) (cbuff cc)))"
      and cc': "cc' = (let cc = cc\<lparr>creader := rd\<rparr> in if cr cc + 4 + n = cw cc then cc\<lparr>cr := 0, cw := 0\<rparr> else cc\<lparr>cr := cr cc + (4 + n)\<rparr>)"
      using assms(2) size rd by (auto simp: ex_unpack_def Let_def n_def add.assoc split: if_splits)
    have "held_bytes cc' = drop (n + 4) (held_bytes cc)"
      using cc' fits len held_advance [of "cc\<lparr>creader := rd\<rparr>" "4 + n"]
      by (auto simp: Let_def held_bytes_def [of "cc\<lparr>creader := rd, cr := 0, cw := 0\<rparr>"] add.commute [of 4])
    moreover have "codec_inv cc'" using cc' fits assms(1) rd(2) by (auto simp: codec_inv_def Let_def)
    ultimately show ?thesis
      using False fits len size res held_slice [OF fits] by (simp add: parse_no_limit Let_def n_def)
  qed
qed

lemma ex_unpack_more:
  assumes "codec_inv cc" "ex_unpack cc = (None, cc')"
  shows "parse_frame no_limit (held_bytes cc) = NeedMore \<and> held_bytes cc' = held_bytes cc \<and>
    codec_inv cc' \<and> cr cc' = 0 \<and> cw cc' < length (cbuff cc')"
proof -
  note len = length_held [OF assms(1)]
  have moved: "held_bytes (c\<lparr>cbuff := patch b 0 (held_bytes cc), cw := cw cc - cr cc, cr := 0\<rparr>) = held_bytes cc"
    if "cw cc - cr cc \<le> length b" for b c
    using held_moved [of "held_bytes cc" b c] that len by simp
  show ?thesis
  proof (cases "4 \<le> cw cc - cr cc")
    case False
    then show ?thesis
      using assms len moved [of "cbuff cc"] by (auto simp: ex_unpack_def parse_no_limit codec_inv_def length_patch split: if_splits)
  next
    case True
    obtain rd where rd: "GetUint32 (Reset (creader cc) (held_bytes cc)) = (of_be (take 4 (held_bytes cc)), rd)" "rendian rd = BigEndian"
      using GetUint32_Reset [of "creader cc" "held_bytes cc"] assms(1) len True by (auto simp: codec_inv_def)
    then show ?thesis
      using assms len moved [of "cbuff cc"] moved [of "replicate _ 0"] True
      by (auto simp: ex_unpack_def Let_def parse_no_limit codec_inv_def length_patch split: if_splits)
  qed
qed

interpretation ex_frames: frame_loop ex_unpack "\<lambda>cc. length (cbuff cc) - cw cc"
  "\<lambda>data cc. cc\<lparr>cbuff := patch (cbuff cc) (cw cc) data, cw := cw cc + length data\<rparr>"
  held_bytes codec_inv "\<lambda>cc. no_limit" parse_frame ex_Recv
proof
  show "ex_Recv f conn =
      (case ex_unpack f of
         (Some res, f1) \<Rightarrow> Some (res, f1, conn)
       | (None, f1) \<Rightarrow>
           (case conn_read (length (cbuff f1) - cw f1) conn of
              None \<Rightarrow> None
            | Some (data, Some e, conn') \<Rightarrow>
                Some (Inl e, f1\<lparr>cbuff := patch (cbuff f1) (cw f1) data, cw := cw f1 + length data\<rparr>, conn')
            | Some (data, None, conn') \<Rightarrow>
                ex_Recv (f1\<lparr>cbuff := patch (cbuff f1) (cw f1) data, cw := cw f1 + length data\<rparr>) conn'))" for f conn
    by (subst ex_Recv.simps) (auto simp: Let_def split: option.split prod.split)
  fix f f' res and data :: bytes
  assume f: "codec_inv f"
  show "ex_unpack f = (Some res, f') \<Longrightarrow>
      (case parse_frame no_limit (held_bytes f) of
         NeedMore \<Rightarrow> False
       | Bad e \<Rightarrow> res = Inl e
       | Got p rest \<Rightarrow> res = Inr p \<and> held_bytes f' = rest \<and> codec_inv f' \<and> no_limit = no_limit)"
    using ex_unpack_done [OF f] by (auto split: frame_result.splits)
  assume u: "ex_unpack f = (None, f')"
  note m = ex_unpack_more [OF f u]
  show "parse_frame no_limit (held_bytes f) = NeedMore \<and> held_bytes f' = held_bytes f \<and> no_limit = no_limit \<and>
      0 < length (cbuff f') - cw f'"
    using m by simp
  assume "length data \<le> length (cbuff f') - cw f'"
  then show "codec_inv (f'\<lparr>cbuff := patch (cbuff f') (cw f') data, cw := cw f' + length data\<rparr>) \<and>
      held_bytes (f'\<lparr>cbuff := patch (cbuff f') (cw f') data, cw := cw f' + length data\<rparr>) = held_bytes f' @ data \<and>
      no_limit = no_limit"
    using held_filled [of f' data] m by simp
qed (use parse_frame_append in blast)+

lemma new_codec_inv: "codec_inv new_codec" "held_bytes new_codec = []"
  by (simp_all add: codec_inv_def new_codec_def held_bytes_def NewReader_def)

section \<open>Properties\<close>

text \<open>
  What is relied on: \<open>json.Unmarshal\<close> into an object of its type gives back what
  \<open>json.Marshal\<close> made of a packet, which is not too long.
\<close>

definition ex_json_ok :: "(ex_packet \<Rightarrow> go_error + bytes) \<Rightarrow> (u32 \<Rightarrow> bytes \<Rightarrow> ex_packet \<times> go_error option) \<Rightarrow> bool" where
  "ex_json_ok json_Marshal json_Unmarshal \<longleftrightarrow>
     (\<forall>pk c b. packet_cmd pk = Some c \<longrightarrow> json_Marshal pk = Inr b \<longrightarrow>
        json_Unmarshal c b = (pk, None) \<and> length b + 4 < 2 ^ 32)"

definition encode_all :: "(ex_packet \<Rightarrow> go_error + bytes) \<Rightarrow> codec \<Rightarrow> ex_packet list \<Rightarrow> bytes" where
  "encode_all json_Marshal cc pks = concat (fold (\<lambda>pk buffs. fst (ex_Encode json_Marshal cc buffs pk)) pks [])"

text \<open>Decoding payloads one after the other.\<close>

fun decode_all :: "(u32 \<Rightarrow> bytes \<Rightarrow> ex_packet \<times> go_error option) \<Rightarrow> codec \<Rightarrow> bytes list \<Rightarrow> ex_packet list option" where
  "decode_all json_Unmarshal cc [] = Some []"
| "decode_all json_Unmarshal cc (b # bs) =
     (case ex_Decode json_Unmarshal cc b of
        Some ((Some pk, None), cc) \<Rightarrow> map_option ((#) pk) (decode_all json_Unmarshal cc bs)
      | _ \<Rightarrow> None)"

lemma ex_Encode_frame:
  assumes "ex_json_ok json_Marshal json_Unmarshal" "packet_cmd pk = Some c" "json_Marshal pk = Inr b" "wendian (cwriter cc) = BigEndian"
  shows "ex_Encode json_Marshal cc buffs pk =
      (buffs @ [be_bytes 4 (of_nat (length b + 4) :: u32) @ be_bytes 4 c, b], length (frame (be_bytes 4 c @ b)))"
    and "be_bytes 4 (of_nat (length b + 4) :: u32) @ be_bytes 4 c @ b = frame (be_bytes 4 c @ b)"
  using assms by (simp_all add: ex_Encode_def Append_simps Let_def frame_def add.commute)

lemma encode_all_frames:
  assumes "ex_json_ok json_Marshal json_Unmarshal" "wendian (cwriter cc) = BigEndian"
    and "list_all2 (\<lambda>pk p. \<exists>c b. packet_cmd pk = Some c \<and> json_Marshal pk = Inr b \<and> p = be_bytes 4 c @ b) pks ps"
  shows "encode_all json_Marshal cc pks = concat (map frame ps)"
proof -
  have "concat (fold (\<lambda>pk buffs. fst (ex_Encode json_Marshal cc buffs pk)) pks buffs) = concat buffs @ concat (map frame ps)" for buffs
    using assms(3)
  proof (induction arbitrary: buffs)
    case (Cons pk pks p ps)
    then obtain c b where "packet_cmd pk = Some c" "json_Marshal pk = Inr b" "p = be_bytes 4 c @ b" by blast
    with ex_Encode_frame [OF assms(1) this(1,2) assms(2)] Cons.IH show ?case by simp
  qed simp
  from this [of "[]"] show ?thesis by (simp add: encode_all_def)
qed

lemma ex_Decode_frame:
  assumes "ex_json_ok json_Marshal json_Unmarshal" "packet_cmd pk = Some c" "json_Marshal pk = Inr b" "rendian (creader cc) = BigEndian"
  shows "\<exists>cc'. ex_Decode json_Unmarshal cc (be_bytes 4 c @ b) = Some ((Some pk, None), cc') \<and> rendian (creader cc') = BigEndian"
proof -
  obtain rd where "GetUint32 (Reset (creader cc) (be_bytes 4 c @ b)) = (c, rd)" "rendian rd = BigEndian"
    using GetUint32_Reset [OF assms(4), of "be_bytes 4 c @ b"] by auto
  moreover have "c \<in> {ex_addNode, remNode, modNode, nodeInfo, subscribe}" using assms(2) by (cases pk) auto
  moreover have "json_Unmarshal c b = (pk, None)" using assms(1-3) by (simp add: ex_json_ok_def)
  ultimately show ?thesis by (auto simp: ex_Decode_def)
qed

lemma decode_all_frames:
  assumes "ex_json_ok json_Marshal json_Unmarshal" "rendian (creader cc) = BigEndian"
    and "list_all2 (\<lambda>pk p. \<exists>c b. packet_cmd pk = Some c \<and> json_Marshal pk = Inr b \<and> p = be_bytes 4 c @ b) pks ps"
  shows "decode_all json_Unmarshal cc ps = Some pks"
  using assms(3,2)
proof (induction arbitrary: cc)
  case (Cons pk pks p ps)
  then obtain c b where pk: "packet_cmd pk = Some c" "json_Marshal pk = Inr b" "p = be_bytes 4 c @ b" by blast
  with ex_Decode_frame [OF assms(1) this(1,2) Cons.prems] Cons.IH show ?case by fastforce
qed simp



end
