(* ===== verification/Example_Members.thy ===== *)
theory Example_Members
  imports Example_Codec Provider
begin

text \<open>
  The example membership service and its client (\<open>example/membership/membership.go\<close>): the
  server keeps the nodes and tells its clients, the client works out what changed between
  the nodes it knows and those it is told, and reports the change.

  The client's loop over the two sorted lists is shown to compute the difference, and the
  client is shown to be a membership provider. The connections, from another library, are
  numbers.
\<close>

section \<open>The server\<close>

record memberShipSvr =
  svr_nodes :: "string \<rightharpoonup> exNode"
  svr_clients :: "nat set"

definition ex_NewServer :: memberShipSvr where
  "ex_NewServer = \<lparr>svr_nodes = Map.empty, svr_clients = {}\<rparr>"

text \<open>
  \<open>pub\<close> with the packets it sends; \<open>ks\<close> and \<open>cs\<close> are the orders in which it goes over the
  nodes and the clients.
\<close>

definition pub :: "string list \<Rightarrow> nat list \<Rightarrow> nat option \<Rightarrow> memberShipSvr \<Rightarrow> (nat \<times> ex_packet) list" where
  "pub ks cs socket svr =
     (let nodeinfo = NodeInfo (List.map_filter (svr_nodes svr) ks)
      in if socket \<noteq> None then map (\<lambda>s. (s, nodeinfo)) cs
         else map (\<lambda>s. (s, nodeinfo)) (filter (\<lambda>s. Some s = socket) cs))"

text \<open>The beginning of \<open>Start\<close>, and the two callbacks it sets on every connection.\<close>

definition load_config :: "exNode list \<Rightarrow> memberShipSvr \<Rightarrow> memberShipSvr" where
  "load_config config svr = svr\<lparr>svr_nodes := fold (\<lambda>v m. m(exLogicAddr v \<mapsto> v)) config (svr_nodes svr)\<rparr>"

definition on_close :: "nat \<Rightarrow> memberShipSvr \<Rightarrow> memberShipSvr" where
  "on_close s svr = svr\<lparr>svr_clients := svr_clients svr - {s}\<rparr>"

definition on_packet ::
    "string list \<Rightarrow> nat list \<Rightarrow> nat \<Rightarrow> ex_packet \<Rightarrow> memberShipSvr \<Rightarrow> (nat \<times> ex_packet) list \<times> memberShipSvr" where
  "on_packet ks cs as pk svr =
     (case pk of
        AddNode n \<Rightarrow>
          if svr_nodes svr (exLogicAddr n) = None then
            let svr = svr\<lparr>svr_nodes := (svr_nodes svr)(exLogicAddr n \<mapsto> n)\<rparr> in (pub ks cs None svr, svr)
          else ([], svr)
      | RemNode a \<Rightarrow>
          if svr_nodes svr a \<noteq> None then
            let svr = svr\<lparr>svr_nodes := (svr_nodes svr)(a := None)\<rparr> in (pub ks cs None svr, svr)
          else ([], svr)
      | ModNode n \<Rightarrow>
          if svr_nodes svr (exLogicAddr n) \<noteq> None then
            let svr = svr\<lparr>svr_nodes := (svr_nodes svr)(exLogicAddr n \<mapsto> n)\<rparr> in (pub ks cs None svr, svr)
          else ([], svr)
      | SubscribeReq \<Rightarrow>
          let svr = svr\<lparr>svr_clients := insert as (svr_clients svr)\<rparr> in (pub ks cs (Some as) svr, svr)
      | _ \<Rightarrow> ([], svr))"

section \<open>The client\<close>

record memberShipCli =
  svrService :: string
  cli_nodes :: "Node list"

definition ex_NewClient :: "string \<Rightarrow> memberShipCli" where
  "ex_NewClient svr = \<lparr>svrService = svr, cli_nodes = []\<rparr>"

text \<open>
  The nodes in a packet whose addresses are valid, sorted by logical address. (The order of
  nodes with the same address is not specified by \<open>sort.Slice\<close>.)
\<close>

definition told_node :: "(string \<Rightarrow> go_error + tcp_addr) \<Rightarrow> exNode \<Rightarrow> Node option" where
  "told_node resolve v =
     (case MakeAddr resolve (exLogicAddr v) (exNetAddr v) of
        Inl err \<Rightarrow> None
      | Inr a \<Rightarrow> Some \<lparr>nAddr = a, Export = exExport v, Available = exAvailable v\<rparr>)"

definition told_nodes :: "(string \<Rightarrow> go_error + tcp_addr) \<Rightarrow> exNode list \<Rightarrow> Node list" where
  "told_nodes resolve vs = sort_key logic (List.map_filter (told_node resolve) vs)"

text \<open>The loop, with its two indices.\<close>

function diff_loop :: "Node list \<Rightarrow> Node list \<Rightarrow> nat \<Rightarrow> nat \<Rightarrow> MemberInfo \<Rightarrow> nat \<times> nat \<times> MemberInfo" where
  "diff_loop updates locals i j info =
     (if i < length updates \<and> j < length locals then
        let nodej = locals ! j; nodei = updates ! i
        in if logic nodei = logic nodej then
             diff_loop updates locals (i + 1) (j + 1)
               (if tcp_String (netAddr (nAddr nodei)) \<noteq> tcp_String (netAddr (nAddr nodej)) \<or> Available nodei \<noteq> Available nodej
                then info\<lparr>Update := Update info @ [nodei]\<rparr> else info)
           else if logic nodei > logic nodej then
             diff_loop updates locals i (j + 1) (info\<lparr>Remove := Remove info @ [nodej]\<rparr>)
           else
             diff_loop updates locals (i + 1) j (info\<lparr>Add := Add info @ [nodei]\<rparr>)
      else (i, j, info))"
  by pat_completeness auto

termination
  by (relation "measure (\<lambda>(updates, locals, i, j, info). (length updates - i) + (length locals - j))") auto

declare diff_loop.simps [simp del]

definition diff :: "Node list \<Rightarrow> Node list \<Rightarrow> MemberInfo" where
  "diff updates locals =
     (let (i, j, info) = diff_loop updates locals 0 0 no_change
      in info\<lparr>Add := Add info @ drop i updates, Remove := Remove info @ drop j locals\<rparr>)"

text \<open>
  The packet handler, with the change it reports. Any other packet makes the type assertion
  panic.
\<close>

definition on_nodes :: "(string \<Rightarrow> go_error + tcp_addr) \<Rightarrow> ex_packet \<Rightarrow> memberShipCli \<Rightarrow> (MemberInfo list \<times> memberShipCli) option" where
  "on_nodes resolve pk c =
     (case pk of
        NodeInfo vs \<Rightarrow>
          let updates = told_nodes resolve vs
          in Some ([diff updates (cli_nodes c)], c\<lparr>cli_nodes := updates\<rparr>)
      | _ \<Rightarrow> None)"

section \<open>The loop computes the difference\<close>

text \<open>The difference of two lists of nodes, by addresses.\<close>

definition same_node :: "Node \<Rightarrow> Node \<Rightarrow> bool" where
  "same_node m n \<longleftrightarrow> tcp_String (netAddr (nAddr m)) = tcp_String (netAddr (nAddr n)) \<and> Available m = Available n"

definition difference :: "Node list \<Rightarrow> Node list \<Rightarrow> MemberInfo" where
  "difference updates locals =
     \<lparr>Add = filter (\<lambda>n. logic n \<notin> logic ` set locals) updates,
      Remove = filter (\<lambda>n. logic n \<notin> logic ` set updates) locals,
      Update = filter (\<lambda>n. \<exists>m \<in> set locals. logic m = logic n \<and> \<not> same_node n m) updates\<rparr>"

abbreviation in_order :: "Node list \<Rightarrow> bool" where
  "in_order ns \<equiv> sorted_wrt (\<lambda>m n. logic m < logic n) ns"

lemma difference_step:
  assumes "in_order (u # us)" "in_order (l # ls)"
  shows "logic u = logic l \<Longrightarrow> difference (u # us) (l # ls) =
      (let d = difference us ls in d\<lparr>Update := (if same_node u l then [] else [u]) @ Update d\<rparr>)"
    and "logic u > logic l \<Longrightarrow> difference (u # us) (l # ls) =
      (let d = difference (u # us) ls in d\<lparr>Remove := l # Remove d\<rparr>)"
    and "logic u < logic l \<Longrightarrow> difference (u # us) (l # ls) =
      (let d = difference us (l # ls) in d\<lparr>Add := u # Add d\<rparr>)"
proof -
  have u: "logic u < logic x" if "x \<in> set us" for x using assms(1) that by simp
  have l: "logic l < logic x" if "x \<in> set ls" for x using assms(2) that by simp
  show "difference (u # us) (l # ls) = (let d = difference us ls in d\<lparr>Update := (if same_node u l then [] else [u]) @ Update d\<rparr>)"
    if "logic u = logic l"
  proof -
    have 1: "logic n \<noteq> logic l" if "n \<in> set us" for n using u [OF that] \<open>logic u = logic l\<close> by simp
    have 2: "logic n \<noteq> logic u" if "n \<in> set ls" for n using l [OF that] \<open>logic u = logic l\<close> by simp
    have "\<not> (\<exists>m \<in> set ls. logic m = logic u \<and> \<not> same_node u m)" using 2 by blast
    then show ?thesis
      using that 1 2 unfolding difference_def Let_def by (auto simp: 1 2 image_iff dest: u l intro!: filter_cong)
  qed
  show "difference (u # us) (l # ls) = (let d = difference (u # us) ls in d\<lparr>Remove := l # Remove d\<rparr>)" if "logic u > logic l"
  proof -
    have k: "logic l < logic n" if "n \<in> set us" for n using u [OF that] \<open>logic u > logic l\<close> by simp
    show ?thesis
      using that unfolding difference_def Let_def by (auto simp: image_iff dest: k intro!: filter_cong)
  qed
  show "difference (u # us) (l # ls) = (let d = difference us (l # ls) in d\<lparr>Add := u # Add d\<rparr>)" if "logic u < logic l"
  proof -
    have k: "logic u < logic n" if "n \<in> set ls" for n using l [OF that] \<open>logic u < logic l\<close> by simp
    show ?thesis
      using that unfolding difference_def Let_def by (auto simp: image_iff dest: k intro!: filter_cong)
  qed
qed

text \<open>The loop from any point, on what is left of the lists.\<close>

definition append_info :: "MemberInfo \<Rightarrow> MemberInfo \<Rightarrow> MemberInfo" where
  "append_info a b = \<lparr>Add = Add a @ Add b, Remove = Remove a @ Remove b, Update = Update a @ Update b\<rparr>"

lemma diff_loop_difference:
  assumes "in_order updates" "in_order locals" "i \<le> length updates" "j \<le> length locals"
  shows "(let (i', j', info') = diff_loop updates locals i j info
    in info'\<lparr>Add := Add info' @ drop i' updates, Remove := Remove info' @ drop j' locals\<rparr>) =
    append_info info (difference (drop i updates) (drop j locals))"
  using assms
proof (induction updates locals i j info rule: diff_loop.induct)
  case (1 updates locals i j info)
  show ?case
  proof (cases "i < length updates \<and> j < length locals")
    case False
    then have "difference (drop i updates) (drop j locals) = \<lparr>Add = drop i updates, Remove = drop j locals, Update = []\<rparr>"
      using 1 by (auto simp: difference_def)
    then show ?thesis using False by (cases info) (subst diff_loop.simps, auto simp: append_info_def)
  next
    case True
    let ?u = "updates ! i" and ?l = "locals ! j"
    have d: "drop i updates = ?u # drop (i + 1) updates" "drop j locals = ?l # drop (j + 1) locals"
      using True by (simp_all add: Cons_nth_drop_Suc)
    have o: "in_order (?u # drop (i + 1) updates)" "in_order (?l # drop (j + 1) locals)"
      using 1 unfolding d [symmetric] by (simp_all add: sorted_wrt_drop)
    consider "logic ?u = logic ?l" | "logic ?u > logic ?l" | "logic ?u < logic ?l" by (rule linorder_cases)
    then show ?thesis
    proof cases
      case eq: 1
      let ?info = "if \<not> same_node ?u ?l then info\<lparr>Update := Update info @ [?u]\<rparr> else info"
      have "diff_loop updates locals i j info = diff_loop updates locals (i + 1) (j + 1) ?info"
        using True eq by (subst diff_loop.simps) (auto simp: Let_def same_node_def)
      then show ?thesis
        using "1.IH"(1) [OF True refl refl eq] "1.prems" True difference_step(1) [OF o eq]
        by (auto simp: d same_node_def append_info_def Let_def)
    next
      case gt: 2
      then have "diff_loop updates locals i j info = diff_loop updates locals i (j + 1) (info\<lparr>Remove := Remove info @ [?l]\<rparr>)"
        using True by (subst diff_loop.simps) (auto simp: Let_def)
      then show ?thesis
        using "1.IH"(2) [OF True refl refl _ gt] gt "1.prems" True difference_step(2) [OF o gt]
        by (simp add: d append_info_def Let_def)
    next
      case lt: 3
      then have "diff_loop updates locals i j info = diff_loop updates locals (i + 1) j (info\<lparr>Add := Add info @ [?u]\<rparr>)"
        using True by (subst diff_loop.simps) (auto simp: Let_def)
      then show ?thesis
        using "1.IH"(3) [OF True refl refl] lt "1.prems" True difference_step(3) [OF o lt]
        by (simp add: d append_info_def Let_def)
    qed
  qed
qed

lemma diff_difference: "in_order updates \<Longrightarrow> in_order locals \<Longrightarrow> diff updates locals = difference updates locals"
  using diff_loop_difference [of updates locals 0 0 no_change] by (simp add: diff_def append_info_def)

section \<open>The client reports what it is told\<close>

definition shown_nodes :: "Node list \<Rightarrow> members" where
  "shown_nodes ns = map_of (map (\<lambda>n. (logic n, n)) ns)"

lemma shown_nodes_Some:
  assumes "distinct (map logic ns)"
  shows "shown_nodes ns a = Some n \<longleftrightarrow> n \<in> set ns \<and> logic n = a"
proof -
  have "distinct (map fst (map (\<lambda>n. (logic n, n)) ns))" using assms by (simp add: o_def)
  from map_of_eq_Some_iff [OF this] show ?thesis by (auto simp: shown_nodes_def)
qed

lemma shown_nodes_None: "shown_nodes ns a = None \<longleftrightarrow> a \<notin> logic ` set ns"
  by (auto simp: shown_nodes_def map_of_eq_None_iff image_image)

lemma view_put_shown: "distinct (map logic vs) \<Longrightarrow> view_put V vs = V ++ shown_nodes vs"
proof (induction vs arbitrary: V)
  case (Cons v vs)
  then have "shown_nodes vs (logic v) = None" by (simp add: shown_nodes_None)
  then show ?case using Cons by (auto simp: shown_nodes_def map_add_def fun_eq_iff split: option.split)
qed (simp add: shown_nodes_def)

lemma view_del_shown: "view_del V vs a = (if a \<in> logic ` set vs then None else V a)"
  by (induction vs arbitrary: V) auto

lemma changes_ok:
  assumes "distinct (map logic vs)"
  shows "(\<forall>v \<in> set vs. V (logic v) = None) \<Longrightarrow> adds_ok V vs"
    and "(\<forall>v \<in> set vs. known self V v) \<Longrightarrow> removes_ok self V vs"
    and "(\<forall>v \<in> set vs. known self V v) \<Longrightarrow> updates_ok self V vs"
proof -
  have other: "known self (W(logic v := x)) w = known self W w" if "logic w \<noteq> logic v" for W v w x
    using that by (simp add: known_def)
  have apart: "logic w \<noteq> logic v" if "distinct (map logic (v # ws))" "w \<in> set ws" for v w ws
  proof
    assume "logic w = logic v"
    moreover have "logic w \<in> logic ` set ws" using that(2) by (rule imageI)
    ultimately show False using that(1) by simp
  qed
  show "(\<forall>v \<in> set vs. V (logic v) = None) \<Longrightarrow> adds_ok V vs"
    using assms
  proof (induction vs arbitrary: V)
    case (Cons v vs)
    have "\<forall>w \<in> set vs. (V(logic v \<mapsto> v)) (logic w) = None" using Cons.prems(1) apart [OF Cons.prems(2)] by simp
    then show ?case using Cons.IH Cons.prems by simp
  qed simp
  show "(\<forall>v \<in> set vs. known self V v) \<Longrightarrow> removes_ok self V vs"
    using assms
  proof (induction vs arbitrary: V)
    case (Cons v vs)
    have "\<forall>w \<in> set vs. known self (V(logic v := None)) w" using Cons.prems(1) other apart [OF Cons.prems(2)] by simp
    then show ?case using Cons.IH Cons.prems by simp
  qed simp
  show "(\<forall>v \<in> set vs. known self V v) \<Longrightarrow> updates_ok self V vs"
    using assms
  proof (induction vs arbitrary: V)
    case (Cons v vs)
    have "\<forall>w \<in> set vs. known self (V(logic v \<mapsto> v)) w" using Cons.prems(1) other apart [OF Cons.prems(2)] by simp
    then show ?case using Cons.IH Cons.prems by simp
  qed simp
qed

lemma distinct_filter_logic: "distinct (map logic ns) \<Longrightarrow> distinct (map logic (filter P ns))"
  by (induction ns) auto

lemma difference_keys:
  "a \<in> logic ` set (Add (difference us ls)) \<Longrightarrow> a \<notin> logic ` set ls"
  "a \<in> logic ` set (Remove (difference us ls)) \<Longrightarrow> a \<notin> logic ` set us"
  "a \<in> logic ` set (Update (difference us ls)) \<Longrightarrow> a \<in> logic ` set ls \<and> a \<in> logic ` set us"
proof -
  show "a \<notin> logic ` set ls" if k: "a \<in> logic ` set (Add (difference us ls))"
  proof -
    obtain x where "x \<in> set (Add (difference us ls))" "a = logic x" using k by (rule imageE)
    then show ?thesis by (simp add: difference_def)
  qed
  show "a \<notin> logic ` set us" if k: "a \<in> logic ` set (Remove (difference us ls))"
  proof -
    obtain x where "x \<in> set (Remove (difference us ls))" "a = logic x" using k by (rule imageE)
    then show ?thesis by (simp add: difference_def)
  qed
  show "a \<in> logic ` set ls \<and> a \<in> logic ` set us" if k: "a \<in> logic ` set (Update (difference us ls))"
  proof -
    obtain x where x: "x \<in> set (Update (difference us ls))" "a = logic x" using k by (rule imageE)
    then obtain m where "m \<in> set ls" "logic m = a" "x \<in> set us" by (auto simp: difference_def)
    then show ?thesis using x(2) by blast
  qed
qed

lemma same_node_eq:
  assumes "same_node n m" "logic n = logic m" "Export m = Export n"
  shows "n = m"
proof -
  have "netAddr (nAddr n) = netAddr (nAddr m)" using assms(1) by (simp add: same_node_def tcp_addr.expand)
  then have "nAddr n = nAddr m" using assms(2) by simp
  then show ?thesis using assms by (simp add: same_node_def)
qed

lemma difference_update:
  assumes d: "distinct (map logic us)" "distinct (map logic ls)"
    and n: "n \<in> set us" "logic n = a" and m: "m \<in> set ls" "logic m = a"
  shows "shown_nodes (Update (difference us ls)) a = (if same_node n m then None else Some n)"
proof -
  have only: "x = n" if "x \<in> set us" "logic x = a" for x
  proof -
    have "shown_nodes us a = Some x" "shown_nodes us a = Some n" using shown_nodes_Some [OF d(1)] that n by simp_all
    then show ?thesis by simp
  qed
  have only_m: "x = m" if "x \<in> set ls" "logic x = a" for x
  proof -
    have "shown_nodes ls a = Some x" "shown_nodes ls a = Some m" using shown_nodes_Some [OF d(2)] that m by simp_all
    then show ?thesis by simp
  qed
  have df: "distinct (map logic (Update (difference us ls)))" using d by (simp add: difference_def distinct_filter_logic)
  show ?thesis
  proof (cases "same_node n m")
    case True
    have "a \<noteq> logic x" if x: "x \<in> set (Update (difference us ls))" for x
    proof
      assume a: "a = logic x"
      obtain y where "x \<in> set us" "y \<in> set ls" "logic y = a" "\<not> same_node x y" using x a by (auto simp: difference_def)
      then show False using only [of x] only_m [of y] a True by simp
    qed
    then show ?thesis using True by (auto simp: shown_nodes_None)
  next
    case False
    then have "n \<in> set (Update (difference us ls))" using n m by (auto simp: difference_def)
    then show ?thesis using False n(2) shown_nodes_Some [OF df] by simp
  qed
qed

lemma difference_applied:
  assumes d: "distinct (map logic us)" "distinct (map logic ls)"
    and e: "\<And>m n. m \<in> set ls \<Longrightarrow> n \<in> set us \<Longrightarrow> logic m = logic n \<Longrightarrow> Export m = Export n"
  shows "apply_info (shown_nodes ls) (difference us ls) = shown_nodes us"
proof (rule ext)
  fix a
  let ?i = "difference us ls"
  have df: "distinct (map logic (Add ?i))" "distinct (map logic (Update ?i))"
    using d by (simp_all add: difference_def distinct_filter_logic)
  show "apply_info (shown_nodes ls) ?i a = shown_nodes us a"
  proof (cases "shown_nodes us a")
    case None
    then have "a \<notin> logic ` set us" by (simp add: shown_nodes_None)
    then have "a \<notin> logic ` set (Update ?i)" using difference_keys(3) by blast
    moreover have "a \<notin> logic ` set (Add ?i)" using \<open>a \<notin> logic ` set us\<close> by (auto simp: difference_def)
    ultimately have u: "shown_nodes (Update ?i) a = None" "shown_nodes (Add ?i) a = None"
      by (simp_all add: shown_nodes_None)
    have "shown_nodes ls a = None" if "a \<notin> logic ` set (Remove ?i)"
      using that \<open>a \<notin> logic ` set us\<close> by (auto simp: shown_nodes_None difference_def)
    with u None show ?thesis
      by (auto simp: apply_info_def view_put_shown df view_del_shown map_add_def split: option.split)
  next
    case (Some n)
    then have n: "n \<in> set us" "logic n = a" using shown_nodes_Some [OF d(1)] by auto
    have in_us: "a \<in> logic ` set us" using n by blast
    then have r: "a \<notin> logic ` set (Remove ?i)" using difference_keys(2) by blast
    show ?thesis
    proof (cases "shown_nodes ls a")
      case None
      then have "a \<notin> logic ` set ls" by (simp add: shown_nodes_None)
      then have "n \<in> set (Add ?i)" using n by (simp add: difference_def)
      moreover have "a \<notin> logic ` set (Update ?i)" using difference_keys(3) \<open>a \<notin> logic ` set ls\<close> by blast
      ultimately have "shown_nodes (Add ?i) a = Some n" "shown_nodes (Update ?i) a = None"
        using n by (simp_all add: shown_nodes_Some [OF df(1)] shown_nodes_None)
      with r Some show ?thesis by (simp add: apply_info_def view_put_shown df view_del_shown map_add_def)
    next
      case (Some m)
      then have m: "m \<in> set ls" "logic m = a" using shown_nodes_Some [OF d(2)] by auto
      then have "a \<in> logic ` set ls" by blast
      then have "a \<notin> logic ` set (Add ?i)" using difference_keys(1) by blast
      then have "shown_nodes (Add ?i) a = None" by (simp add: shown_nodes_None)
      moreover have "shown_nodes (Update ?i) a = (if same_node n m then None else Some n)"
        by (rule difference_update [OF d n m])
      moreover have "n = m" if "same_node n m" using same_node_eq [OF that] n m e [OF m(1) n(1)] by simp
      ultimately show ?thesis
        using r Some \<open>shown_nodes us a = Some n\<close> by (auto simp: apply_info_def view_put_shown df view_del_shown map_add_def)
    qed
  qed
qed

lemma difference_ok:
  assumes d: "distinct (map logic us)" "distinct (map logic ls)"
    and e: "\<And>m n. m \<in> set ls \<Longrightarrow> n \<in> set us \<Longrightarrow> logic m = logic n \<Longrightarrow> Export m = Export n"
  shows "info_ok self (shown_nodes ls) (difference us ls)"
proof -
  let ?i = "difference us ls" and ?V = "shown_nodes ls"
  have df: "distinct (map logic (Add ?i))" "distinct (map logic (Remove ?i))" "distinct (map logic (Update ?i))"
    using d by (simp_all add: difference_def distinct_filter_logic)
  have put: "view_put ?V (Add ?i) a = ?V a" if "a \<in> logic ` set ls" for a
  proof -
    have "shown_nodes (Add ?i) a = None" using that difference_keys(1) [of a us ls] by (auto simp only: shown_nodes_None)
    then show ?thesis by (simp add: view_put_shown [OF df(1)] map_add_def)
  qed
  have "adds_ok ?V (Add ?i)"
  proof (rule changes_ok(1) [OF df(1)], rule ballI)
    fix v assume "v \<in> set (Add ?i)"
    then have "logic v \<in> logic ` set (Add ?i)" by (rule imageI)
    then show "?V (logic v) = None" using difference_keys(1) by (simp only: shown_nodes_None not_False_eq_True)
  qed
  moreover have "removes_ok self (view_put ?V (Add ?i)) (Remove ?i)"
  proof (rule changes_ok(2) [OF df(2)], rule ballI)
    fix v assume "v \<in> set (Remove ?i)"
    then have v: "v \<in> set ls" by (simp add: difference_def)
    then have "?V (logic v) = Some v" by (simp add: shown_nodes_Some [OF d(2)])
    then show "known self (view_put ?V (Add ?i)) v" using put [of "logic v"] v by (simp add: known_def)
  qed
  moreover have "updates_ok self (view_del (view_put ?V (Add ?i)) (Remove ?i)) (Update ?i)"
  proof (rule changes_ok(3) [OF df(3)], rule ballI)
    fix v assume v: "v \<in> set (Update ?i)"
    then obtain m where m: "m \<in> set ls" "logic m = logic v" "v \<in> set us" by (auto simp: difference_def)
    have "?V (logic v) = Some m" using m by (simp add: shown_nodes_Some [OF d(2)])
    moreover have "logic v \<notin> logic ` set (Remove ?i)" using difference_keys(2) m(3) by blast
    moreover have "logic v \<in> logic ` set ls" using m(1,2) by (metis imageI)
    moreover have "visible self v = visible self m" using m e [OF m(1,3,2)] by (intro visible_fixed) simp_all
    ultimately show "known self (view_del (view_put ?V (Add ?i)) (Remove ?i)) v"
      using put [of "logic v"] by (simp add: known_def view_del_shown)
  qed
  ultimately show ?thesis by (simp add: info_ok_def)
qed

text \<open>
  The client's steps: it handles a packet whose nodes have different addresses and the export
  flags \<open>ex\<close>.
\<close>

inductive ex_step ::
    "(logic_addr \<Rightarrow> bool) \<Rightarrow> (string \<Rightarrow> go_error + tcp_addr) \<Rightarrow> memberShipCli \<Rightarrow> MemberInfo list \<Rightarrow> memberShipCli \<Rightarrow> bool"
    for ex resolve where
  ex_told: "on_nodes resolve (NodeInfo vs) c = Some (infos, c') \<Longrightarrow> distinct (map logic (told_nodes resolve vs)) \<Longrightarrow>
     \<forall>n \<in> set (told_nodes resolve vs). Export n = ex (logic n) \<Longrightarrow> ex_step ex resolve c infos c'"

definition cli_ok :: "(logic_addr \<Rightarrow> bool) \<Rightarrow> memberShipCli \<Rightarrow> bool" where
  "cli_ok ex c \<longleftrightarrow> in_order (cli_nodes c) \<and> (\<forall>n \<in> set (cli_nodes c). Export n = ex (logic n))"

lemma in_order_distinct: "in_order ns \<Longrightarrow> distinct (map logic ns)"
  by (induction ns) auto

lemma told_in_order:
  assumes "distinct (map logic (told_nodes resolve vs))"
  shows "in_order (told_nodes resolve vs)"
proof -
  have "sorted (map logic (told_nodes resolve vs))" by (simp add: told_nodes_def)
  with assms have "sorted_wrt (<) (map logic (told_nodes resolve vs))" by (simp add: strict_sorted_iff)
  then show ?thesis by (simp add: sorted_wrt_map)
qed

interpretation example: provider "ex_step ex resolve" "\<lambda>c. shown_nodes (cli_nodes c)" "cli_ok ex" for ex resolve
proof
  fix c infos c' self
  assume c: "cli_ok ex c" and step: "ex_step ex resolve c infos c'"
  from step obtain vs where vs: "on_nodes resolve (NodeInfo vs) c = Some (infos, c')"
    "distinct (map logic (told_nodes resolve vs))" "\<forall>n \<in> set (told_nodes resolve vs). Export n = ex (logic n)"
    by cases
  let ?us = "told_nodes resolve vs" and ?ls = "cli_nodes c"
  have o: "in_order ?us" "in_order ?ls" using told_in_order [OF vs(2)] c by (simp_all add: cli_ok_def)
  have r: "infos = [difference ?us ?ls]" "cli_nodes c' = ?us" using vs(1) diff_difference [OF o] by (auto simp: on_nodes_def Let_def)
  show "cli_ok ex c'" using o vs(3) r(2) by (simp add: cli_ok_def)
  have e: "Export m = Export n" if "m \<in> set ?ls" "n \<in> set ?us" "logic m = logic n" for m n
    using that c vs(3) by (simp add: cli_ok_def)
  show "reports self (shown_nodes (cli_nodes c)) infos (shown_nodes (cli_nodes c'))"
  proof -
    have "info_ok self (shown_nodes ?ls) (difference ?us ?ls)"
      by (rule difference_ok [OF vs(2) in_order_distinct [OF o(2)]]) (rule e)
    moreover have "apply_info (shown_nodes ?ls) (difference ?us ?ls) = shown_nodes ?us"
      by (rule difference_applied [OF vs(2) in_order_distinct [OF o(2)]]) (rule e)
    ultimately show ?thesis unfolding r by simp
  qed
qed

section \<open>What the server tells\<close>

text \<open>The test in \<open>pub\<close> is the wrong way round: nobody hears of a change until somebody subscribes.\<close>

lemma pub_None: "pub ks cs None svr = []"
  by (simp add: pub_def)

lemma changes_not_published:
  "pk \<noteq> SubscribeReq \<Longrightarrow> fst (on_packet ks cs as pk svr) = []"
  by (cases pk) (simp_all add: on_packet_def pub_None Let_def)

lemma subscribe_tells_everyone:
  "on_packet ks cs as SubscribeReq svr =
    (map (\<lambda>s. (s, NodeInfo (List.map_filter (svr_nodes svr) ks))) cs, svr\<lparr>svr_clients := insert as (svr_clients svr)\<rparr>)"
  by (simp add: on_packet_def pub_def Let_def)

section \<open>Properties\<close>

text \<open>
  C34. The client of the example membership service reports exactly the difference: for any
  packet of nodes with different addresses, its loop over the two sorted lists ends, and the
  reported change has the new nodes, the nodes that are gone and the nodes whose network
  address or availability is another one, each in order of their addresses.
\<close>

theorem example_diff_exact:
  assumes "in_order (cli_nodes c)" "distinct (map logic (told_nodes resolve vs))"
  shows "on_nodes resolve (NodeInfo vs) c =
    Some ([difference (told_nodes resolve vs) (cli_nodes c)], c\<lparr>cli_nodes := told_nodes resolve vs\<rparr>)"
  using diff_difference [OF told_in_order [OF assms(2)] assms(1)] by (simp add: on_nodes_def Let_def)

theorem example_diff_exact_witness:
  "\<exists>c. on_nodes (\<lambda>s. Inr (TCPAddr s)) (NodeInfo [\<lparr>exLogicAddr = ''1.2.3'', exNetAddr = ''h:1'', exExport = False, exAvailable = True\<rparr>])
      (ex_NewClient ''s'') = Some ([\<lparr>Add = [\<lparr>nAddr = \<lparr>logicAddr = 264195, netAddr = TCPAddr ''h:1''\<rparr>, Export = False, Available = True\<rparr>],
        Remove = [], Update = []\<rparr>], c)"
proof -
  let ?v = "\<lparr>exLogicAddr = ''1.2.3'', exNetAddr = ''h:1'', exExport = False, exAvailable = True\<rparr>" and ?r = "\<lambda>s. Inr (TCPAddr s)"
  have "MakeLogicAddr ''1.2.3'' = Inr 264195" by code_simp
  then have t: "told_nodes ?r [?v] = [\<lparr>nAddr = \<lparr>logicAddr = 264195, netAddr = TCPAddr ''h:1''\<rparr>, Export = False, Available = True\<rparr>]"
    by (simp add: told_nodes_def told_node_def MakeAddr_def List.map_filter_simps)
  then show ?thesis
    using example_diff_exact [of "ex_NewClient ''s''" ?r "[?v]"] by (simp add: ex_NewClient_def difference_def)
qed



end
