(* ===== verification/Spec2Isabelle.thy ===== *)
theory Spec2Isabelle
  imports Node_Api Crypto Node_Streams Etcd Natsjet Redis_Sync Example_Members
begin

text \<open>
  Verification of clustergo, a Go library that joins processes to a cluster. A process is a
  node with a 32-bit logical address. Nodes learn of each other from a membership provider,
  connect to each other over TCP when they have something to send, and exchange protobuf
  messages, binary messages, RPC requests and responses. A message for another cluster goes
  through harbor nodes. Paths below are relative to the sources of the library.

  \<^bold>\<open>How the parts interact.\<close> A provider (\<open>membership/etcd\<close>, \<open>membership/natsjet\<close>,
  \<open>membership/redis\<close>, or the one in \<open>example/membership\<close>) reports lists of added, removed and
  changed members. The node cache (\<open>node.go\<close>) applies them. To send, a node looks the target
  up in the cache (\<open>cluster.go\<close>), and gives the message to the connection to the peer
  (\<open>node.go\<close>), which queues it and dials if there is no socket. The dialling node introduces
  itself with an encrypted handshake (\<open>pkg/crypto\<close>). The socket (\<open>socket/socket.go\<close>) encodes
  with the codec (\<open>codec/ss\<close>, on top of \<open>codec/pb\<close>, \<open>codec/buffer\<close> and \<open>rpc/rpc.go\<close>) and
  writes; at the other end it cuts the byte stream into frames and decodes them, and the
  node dispatches, relays, or gives the message to the RPC server or client (\<open>rpc\<close>).

  \<^bold>\<open>Conventions.\<close> A Go function that returns an error is a function into \<open>go_error + 'a\<close> or
  returns a \<open>go_error option\<close>. A panic is \<open>None\<close> of an \<open>option\<close> type. Mutation is state passing over
  records with the fields of the Go structs. Operations with several possible
  outcomes (a \<open>select\<close> with two ready cases, a race) return the list of their outcomes, and
  an empty list means that the operation waits. Integers of a fixed width are words.
  Pointers to nodes are indices into a list. The order in which Go ranges over a map is an argument. Libraries outside the sources
  are arguments: the protobuf runtime, JSON, AES, TCP, the clients of etcd, NATS and Redis,
  the clock and random numbers. What a theorem relies on of them is a named predicate
  (\<open>proto_ok\<close>, \<open>codec_appends\<close>, \<open>json_ok\<close>, \<open>gcm_ok\<close>, ...).

  \<^bold>\<open>Theories.\<close>
  \<^item> \<open>Prelude\<close>: words, bytes, byte orders, decimal numbers, Go errors. \<open>Wire_Reader\<close>: the
    contract of a reader of big-endian data as a locale, interpreted for both readers of the program.
  \<^item> \<open>Addr\<close> (\<open>addr/addr.go\<close>): the bit fields of logical addresses, their text form and its
    round trip.
  \<^item> \<open>Buffer\<close> (\<open>codec/buffer/buffer.go\<close>), \<open>Rpc_Bytes\<close> (\<open>rpc/bytes.go\<close>): readers and writers; what
    is written is read back, and no read leaves its slice.
  \<^item> \<open>Rpc_Msg\<close> (\<open>rpc/rpc.go\<close>), \<open>Pb_Meta\<close> (\<open>codec/pb/pb.go\<close>), \<open>SS_Codec\<close> (\<open>codec/ss\<close>): the messages and
    their encoding; encoder and decoder are inverse, and relaying changes no byte.
  \<^item> \<open>Frame_Reader\<close>, \<open>Socket\<close> (\<open>socket/socket.go\<close>): the receive loop as a refinement of cutting
    frames off a byte stream, for every way the bytes arrive (locale \<open>frame_loop\<close>, also interpreted for
    the codec of the example); the goroutines of a socket as a step relation, with
    order, completeness and closing as invariants.
  \<^item> \<open>Membership\<close> (\<open>membership/membership.go\<close>), \<open>Node_Cache\<close> (\<open>nodeCache\<close> in \<open>node.go\<close>): the cache
    refines the abstract membership, a map from addresses to nodes.
  \<^item> \<open>Node_Conn\<close> (\<open>node\<close> in \<open>node.go\<close>): queue, dialling, accepting and closing as a step relation.
    \<open>Node_Streams\<close>: the sessions for streams. \<open>Handshake\<close>, \<open>Crypto\<close> (\<open>pkg/crypto/aes.go\<close>).
  \<^item> \<open>Routing\<close> (\<open>getNodeByLogicAddr\<close> in \<open>cluster.go\<close>): a network of nodes and the journey of a message.
  \<^item> \<open>Msg_Manager\<close> (handlers and worker pool), \<open>Cluster\<close> (\<open>Node\<close>: sending, receiving, relaying,
    \<open>Start\<close>, \<open>Stop\<close>), both from \<open>cluster.go\<close> and \<open>node.go\<close>.
  \<^item> \<open>Rpc_Server\<close> (\<open>rpc/server.go\<close>, \<open>rpc/wrapper.go\<close>), \<open>Rpc_Client\<close> (\<open>rpc/client.go\<close>): answers and callbacks happen at
    most once, and under which conditions they do happen. \<open>Node_Api\<close> (\<open>rpc.go\<close> and the calls in \<open>cluster.go\<close>): calls of a
    program, through node, channel, connection and client; what they leave behind, when
    they end, and when they do not.
  \<^item> \<open>Provider\<close>: the contract of the providers as the locale \<open>provider\<close>, whose theorem is that the node cache follows
    the provider; interpreted in \<open>Etcd\<close>, \<open>Natsjet\<close>, \<open>Redis\<close> and \<open>Example_Members\<close>.
    \<open>Redis_Scripts\<close> is the part that runs on the Redis server, \<open>Redis_Sync\<close> the protocol as a whole.
    \<open>Example_Codec\<close> and \<open>Example_Members\<close> model \<open>example/membership/membership.go\<close>.
  \<^item> This theory: messages on their way from the encoder of one node to the handler of another.

  \<^bold>\<open>Bounds and fuel.\<close> The receive loops are partial functions in the option monad, where \<open>None\<close> is a read
  that blocks forever; they are shown to return whenever the bytes for a frame, or an error, arrive.
  A route takes a number of hops as fuel; three are shown to be enough. \<open>openStream\<close>
  takes the rounds of its loop as a list; three are shown to be enough. A call takes the rounds
  that its environment gives it. Packets have at most 65536 bytes, as the length
  fields of the encoding assume; the default of \<open>MaxPacketSize\<close> is 4096. The uniqueness of
  sequence numbers is shown for the first \<open>2 ^ 32 - 2\<close> calls of a client.

  \<^bold>\<open>Defects.\<close> Where the code does not do what it should, the theorems say what it does. A full
  queue leaves a connection locked, and a call to that peer never returns (\<open>Node_Conn\<close>,
  \<open>Node_Api\<close>). A refused asynchronous call can cost another call its callback
  (\<open>Rpc_Client\<close>). A failed \<open>Start\<close> can neither be repeated nor stopped, and messages that a full queue
  drops are reported as sent (\<open>Cluster\<close>). Batches of etcd events can leave the cache different from the
  provider (\<open>Etcd\<close>). The Redis subscriber can miss a removal, and a dead node needs two
  heartbeats (\<open>Redis_Sync\<close>). Descriptions of harbors cannot be read back (\<open>Membership\<close>), turning on
  the export of a member panics (\<open>Node_Cache\<close>), a late close callback forgets a new
  connection (\<open>Node_Conn\<close>), and the example service does not publish changes
  (\<open>Example_Members\<close>).

  \<^bold>\<open>Not modelled.\<close> Logging (\<open>logger\<close>), on which no state depends. Code generated by
  protoc. The functions of the root package that forward to a default node. \<open>ListenTCP\<close>, which only accepts
  connections, and the network itself: the bytes a connection delivers and its errors are
  arguments. The goroutine scheduler: steps are atomic where the code holds a lock or does
  one channel operation. Memory reuse of pooled byte buffers. The reflection in \<open>copyValue\<close>. The example programs for RPC
  and streams and the generator \<open>genrpc\<close>, which print, copy between sockets of other
  packages, or fill in text templates.
\<close>

section \<open>From a sender to the handler\<close>

text \<open>
  What a message for this node ends as at the node: the handler registered for it, the RPC
  server or the RPC client.
\<close>

definition reaches ::
    "'m Proto \<Rightarrow> (string \<rightharpoonup> PbMeta) \<Rightarrow> ('v iface \<Rightarrow> go_error + bytes) \<Rightarrow> 'v Codec \<Rightarrow>
     ('m, 'h) registration list \<Rightarrow> ('m, 'v) Message \<Rightarrow> ('m, 'v, 'h) effect \<Rightarrow> bool" where
  "reaches P ns marshal c regs m e \<longleftrightarrow>
     (case payload m of
        PBin b \<Rightarrow> (\<forall>h. RegBinary (cmd m) (Some h) \<in> set regs \<longrightarrow>
          e = Dispatch (dispatched.Handled h) (from' m) (PBin b))
      | PProto x \<Rightarrow> (\<forall>y h. RegProto y (Some h) \<in> set regs \<and> TypeOf P y = TypeOf P x \<and>
          GetCmd P ns Namespace x \<noteq> 0 \<longrightarrow> e = Dispatch (dispatched.Handled h) (from' m) (PProto x))
      | PReq r \<Rightarrow> (\<exists>b. body_of marshal (Arg r) = Inr b \<and>
          e = Serve (from' m) (r\<lparr>Arg := IBytes b, reqCodec := Some c\<rparr>))
      | PResp r \<Rightarrow> (\<exists>b. body_of marshal (Ret r) = Inr b \<and>
          e = Deliver (r\<lparr>Ret := IBytes b, respCodec := Some c\<rparr>))
      | POther \<Rightarrow> False)"

text \<open>A decoder of the node the message is for.\<close>

definition decoder_for :: "logic_addr \<Rightarrow> PbMeta \<Rightarrow> 'v Codec \<Rightarrow> 'v SSCodec \<Rightarrow> bool" where
  "decoder_for self mt c rs \<longleftrightarrow>
     codec_ok rs \<and> selfAddr rs = self \<and> pbMeta rs = Some mt \<and> rpcCodec rs = c"

lemma new_frameReader_fields: "pending (new_frameReader mx) = []" "maxSize (new_frameReader mx) = mx"
  by (simp_all add: new_frameReader_def pending_def)

lemma frame_inj [simp]: "frame p = frame q \<longleftrightarrow> p = q"
proof
  assume "frame p = frame q"
  then have "drop 4 (frame p) = drop 4 (frame q)" by simp
  then show "p = q" by (simp add: frame_def)
qed simp

lemma proto_cmd_sent:
  assumes "codec_appends (rpcCodec ss) marshal" "proto_ok P pm" "meta_ok mt" "pbMeta ss = Some mt"
    and "sendable P mt m" "Encode P mx ss [] (Msg m) = Some (frame p, n)" "0 < n"
    and "decoder_for (to m) mt c rs" "payload m = PProto x" "ns Namespace = Some mt"
    and "Decode P pooled rs p = Some (Inr (Msg m'), rs')"
  shows "cmd m' = ucast (GetCmd P ns Namespace x)"
proof -
  from assms(5,9) obtain pid where pid: "registered mt (TypeOf P x) pid" "unat pid < 65536"
    by (auto simp: sendable_def)
  then obtain b where b: "pm x = Inr b" and
    e: "emit mx [] (ss_header (setMsgType 0 PbMsg) m @ be_bytes 2 (ucast pid :: u16) @ b) = (frame p, n)"
    using assms(6,7) Encode_proto [OF assms(9,4,2) pid(1), of mx "[]"] by (auto split: sum.splits)
  then have p: "p = ss_header (setMsgType 0 PbMsg) m @ be_bytes 2 (ucast pid :: u16) @ b"
    using emit_accepted [OF e assms(7)] by simp
  have "Unmarshal P mt (ucast (ucast pid :: u16)) b = Inr x"
    using pid b assms(2,3) by (simp add: ucast_u16_u32 Unmarshal_registered)
  from Decode_proto [OF _ _ _ _ this, of rs m "setMsgType 0 PbMsg" pooled] assms(8,11) p
  have "cmd m' = ucast pid" by (simp add: decoder_for_def)
  moreover have "GetCmd P ns Namespace x = pid" using pid(1) assms(10) by (simp add: GetCmd_def registered_def)
  ultimately show ?thesis by simp
qed

lemma GetCmd_type: "TypeOf P y = TypeOf P x \<Longrightarrow> GetCmd P ns n y = GetCmd P ns n x"
  by (simp add: GetCmd_def split: option.split)

lemma message_reaches:
  assumes "codec_appends (rpcCodec ss) marshal" "proto_ok P pm" "meta_ok mt" "pbMeta ss = Some mt"
    and "sendable P mt m" "Encode P mx ss [] (Msg m) = Some (frame p, n)" "0 < n" "mx \<le> 65536"
    and "decoder_for (to m) mt c rs" "ns Namespace = Some mt"
    and "register_all P ns regs new_msgManager = Some (handlers s)"
  shows "\<exists>m' rs' e. Decode P pooled rs p = Some (Inr (Msg m'), rs') \<and>
    onMessage mp now done (Msg m') s = [(e, [], s)] \<and> reaches P ns marshal c regs m e"
proof -
  from Encode_carried [OF assms(1-5,8,6,7), of rs] assms(9) have "carried P marshal rs m p"
    by (auto simp: decoder_for_def)
  then obtain m' rs' where d: "Decode P pooled rs p = Some (Inr (Msg m'), rs')" "delivered marshal (rpcCodec rs) m m'"
    unfolding carried_def by blast
  note reg = registered_handler_called [OF assms(11)]
  have c: "rpcCodec rs = c" using assms(9) by (simp add: decoder_for_def)
  show ?thesis
  proof (cases "payload m")
    case (PProto x)
    have m': "payload m' = PProto x" "from' m' = from' m" using d(2) PProto by (simp_all add: delivered_def)
    let ?e = "Dispatch (dispatchProto (handlers s) (cmd m')) (from' m) (PProto x)"
    have e: "onMessage mp now done (Msg m') s = [(?e, [], s)]" using m' by (simp add: onMessage_def)
    have c': "cmd m' = ucast (GetCmd P ns Namespace x)"
      using proto_cmd_sent [OF assms(1-7,9) PProto, of ns pooled m' rs'] assms(10) d(1) by simp
    have "dispatchProto (handlers s) (cmd m') = dispatched.Handled h"
      if "RegProto y (Some h) \<in> set regs" "TypeOf P y = TypeOf P x" "GetCmd P ns Namespace x \<noteq> 0" for y h
      using reg [of y h] that GetCmd_type [OF that(2), of ns Namespace] c' by simp
    then have "reaches P ns marshal c regs m ?e" using PProto by (auto simp: reaches_def)
    with d(1) e show ?thesis by blast
  next
    case (PBin b)
    have m': "payload m' = PBin b" "from' m' = from' m" "cmd m' = cmd m"
      using d(2) PBin by (simp_all add: delivered_def)
    let ?e = "Dispatch (dispatchBinary (handlers s) (cmd m)) (from' m) (PBin b)"
    have e: "onMessage mp now done (Msg m') s = [(?e, [], s)]" using m' by (simp add: onMessage_def)
    have "reaches P ns marshal c regs m ?e" using PBin reg by (auto simp: reaches_def)
    with d(1) e show ?thesis by blast
  qed (use d c in \<open>fastforce simp: delivered_def onMessage_def reaches_def\<close>)+
qed

text \<open>The messages sent one after the other, each encoded on its own.\<close>

definition sent :: "'m Proto \<Rightarrow> nat \<Rightarrow> PbMeta \<Rightarrow> 'v SSCodec \<Rightarrow> logic_addr \<Rightarrow> ('m, 'v) Message \<Rightarrow> bytes \<Rightarrow> bool" where
  "sent P mx mt ss self m w \<longleftrightarrow> to m = self \<and> sendable P mt m \<and>
     (\<exists>n. Encode P mx ss [] (Msg m) = Some (w, n) \<and> 0 < n)"

lemma sent_frame:
  assumes "codec_appends (rpcCodec ss) marshal" "proto_ok P pm" "meta_ok mt" "pbMeta ss = Some mt"
    and "mx \<le> 65536" "sent P mx mt ss self m w"
  shows "\<exists>p. w = frame p \<and> p \<noteq> [] \<and> length (frame p) \<le> mx"
proof -
  let ?rs = "ss\<lparr>selfAddr := to m, reader := NewReader BigEndian []\<rparr>"
  from assms(6) obtain n where n: "sendable P mt m" "Encode P mx ss [] (Msg m) = Some (w, n)" "0 < n"
    by (auto simp: sent_def)
  have "codec_ok ?rs" by (simp add: codec_ok_def NewReader_def)
  from Encode_carried [OF assms(1-4) n(1) assms(5) n(2,3) this] assms(4)
  show ?thesis by (auto simp: carried_def ss_header_def)
qed

lemma sent_frames:
  assumes "codec_appends (rpcCodec ss) marshal" "proto_ok P pm" "meta_ok mt" "pbMeta ss = Some mt"
    and "mx \<le> 65536" "list_all2 (sent P mx mt ss self) ms ws"
  shows "\<exists>ps. ws = map frame ps \<and> (\<forall>p\<in>set ps. p \<noteq> [] \<and> length (frame p) \<le> mx)"
  using assms(6)
proof (induction rule: list_all2_induct)
  case (Cons m ms w ws)
  from sent_frame [OF assms(1-5) Cons(1)] obtain p where p: "w = frame p" "p \<noteq> []" "length (frame p) \<le> mx"
    by blast
  from Cons.IH obtain ps where "ws = map frame ps" "\<forall>p\<in>set ps. p \<noteq> [] \<and> length (frame p) \<le> mx" by blast
  with p show ?case by (intro exI [of _ "p # ps"]) simp
qed simp

text \<open>
  C1. Messages reach their handlers: a node encodes messages for another node one after the
  other, and the bytes reach the other node in pieces of any size. Then the frame reader
  hands out one payload for each message, in order. Whatever state the other node's
  decoder is in, it decodes the payload to a message that \<open>onMessage\<close> gives to the
  handler registered for it, with the sender's address and the same content. A binary
  message goes to the handler of its command, a protobuf message to the handler of its type,
  a request to the RPC server and a response to the RPC client. (Both sides register the
  same protobuf types; the codec and the protobuf runtime are relied on as documented.)
\<close>

theorem messages_reach_handlers:
  assumes "codec_appends (rpcCodec ss) marshal" "proto_ok P pm" "meta_ok mt" "pbMeta ss = Some mt"
    and "mx \<le> 65536" "list_all2 (sent P mx mt ss self) ms ws" "stream bs = concat ws @ rest"
    and "ns Namespace = Some mt" "register_all P ns regs new_msgManager = Some (handlers s)"
  shows "\<exists>ps f' bs'.
    recv_n recv (length ms) (new_frameReader mx) bs = Some (ps, f', bs') \<and>
    pending f' @ stream bs' = rest \<and>
    list_all2 (\<lambda>m p. \<forall>rs pooled. decoder_for self mt c rs \<longrightarrow>
      (\<exists>m' rs' e. Decode P pooled rs p = Some (Inr (Msg m'), rs') \<and>
        onMessage mp now done (Msg m') s = [(e, [], s)] \<and> reaches P ns marshal c regs m e)) ms ps"
proof -
  from sent_frames [OF assms(1-6)] obtain ps where
    ps: "ws = map frame ps" "\<forall>p\<in>set ps. p \<noteq> [] \<and> length (frame p) \<le> mx" by blast
  have "parse_frame mx (frame p @ t) = Got p t" if "p \<in> set ps" for p t
    using ps(2) that assms(5) by (intro parse_frame_frame) (auto simp: frame_def)
  then have "\<exists>f' bs'. recv_n recv (length ps) (new_frameReader mx) bs = Some (ps, f', bs') \<and>
      reader_inv f' \<and> pending f' @ stream bs' = rest \<and> maxSize f' = maxSize (new_frameReader mx)"
    using assms(7) ps(1) by (intro frames.receive_n_frames) (simp_all add: new_frameReader_inv new_frameReader_fields)
  then obtain f' bs' where r: "recv_n recv (length ms) (new_frameReader mx) bs = Some (ps, f', bs')"
    "pending f' @ stream bs' = rest" using list_all2_lengthD [OF assms(6)] ps(1) by auto
  have "list_all2 (\<lambda>m p. sent P mx mt ss self m (frame p)) ms ps"
    using assms(6) ps(1) by (simp add: list_all2_map2)
  then have "list_all2 (\<lambda>m p. \<forall>rs pooled. decoder_for self mt c rs \<longrightarrow>
      (\<exists>m' rs' e. Decode P pooled rs p = Some (Inr (Msg m'), rs') \<and>
        onMessage mp now done (Msg m') s = [(e, [], s)] \<and> reaches P ns marshal c regs m e)) ms ps"
  proof (rule list_all2_mono, intro allI impI)
    fix m p rs pooled
    assume m: "sent P mx mt ss self m (frame p)" and rs: "decoder_for self mt c rs"
    from m obtain n where n: "sendable P mt m" "Encode P mx ss [] (Msg m) = Some (frame p, n)" "0 < n"
      "decoder_for (to m) mt c rs" using rs by (auto simp: sent_def)
    show "\<exists>m' rs' e. Decode P pooled rs p = Some (Inr (Msg m'), rs') \<and>
        onMessage mp now done (Msg m') s = [(e, [], s)] \<and> reaches P ns marshal c regs m e"
      by (rule message_reaches [OF assms(1-4) n(1-3) assms(5) n(4) assms(8,9)])
  qed
  with r show ?thesis by (intro exI conjI) assumption+
qed

definition demo_binary :: "(bytes, bytes) Message" where
  "demo_binary = \<lparr>cmd = 9, to = 5, from' = 6, payload = PBin [1, 2]\<rparr>"

lemma demo_sent: "\<exists>ws. list_all2 (sent echo_proto 4096 echo_meta (echo_codec 6) 5) [demo_binary, echo_message] ws"
proof -
  obtain w n where "Encode echo_proto 4096 (echo_codec 6) [] (Msg echo_message) = Some (w, n)" "0 < n"
    using echo_encoded by blast
  then have "sent echo_proto 4096 echo_meta (echo_codec 6) 5 echo_message w"
    by (simp add: sent_def sendable_def echo_message_def)
  moreover have "sent echo_proto 4096 echo_meta (echo_codec 6) 5 demo_binary
      (frame (ss_header (setMsgType 0 BinMsg) demo_binary @ be_bytes 2 (9 :: u16) @ [1, 2]))"
    using Encode_bin [of demo_binary "[1, 2]" echo_proto 4096 "echo_codec 6" "[]"]
    by (simp add: sent_def sendable_def demo_binary_def emit_def ss_header_def)
  ultimately show ?thesis by blast
qed

theorem messages_reach_handlers_witness:
  "\<exists>ws ps f' bs' s rs m' rs' e. stream (map (\<lambda>b. Data [b]) (concat ws)) = concat ws \<and>
    recv_n recv 2 (new_frameReader 4096) (map (\<lambda>b. Data [b]) (concat ws)) = Some (ps, f', bs') \<and>
    Decode echo_proto [] (echo_codec 5) (ps ! 0) = Some (Inr (Msg m'), rs') \<and>
    onMessage 1024 10 (\<lambda>_. False) (Msg m') (s :: (bytes, bytes, nat) NodeState) =
      [(Dispatch (dispatched.Handled 7) 6 (PBin [1, 2]), [], s)] \<and>
    Decode echo_proto [] (echo_codec 5) (ps ! 1) = Some (Inr (Msg e), rs) \<and>
    (\<exists>r. onMessage 1024 10 (\<lambda>_. False) (Msg e) s = [(Serve 6 r, [], s)] \<and> Seq r = 7)"
proof -
  obtain ws where ws: "list_all2 (sent echo_proto 4096 echo_meta (echo_codec 6) 5) [demo_binary, echo_message] ws"
    using demo_sent by blast
  let ?regs = "[RegBinary 9 (Some 7)] :: (bytes, nat) registration list" and ?ns = "[Namespace \<mapsto> echo_meta]"
  obtain h where h: "register_all echo_proto ?ns ?regs new_msgManager = Some h"
    by (simp add: RegisterBinaryHandler_def registerBinary_def new_msgManager_def)
  define s :: "(bytes, bytes, nat) NodeState" where "s = NewClusterNode\<lparr>handlers := h\<rparr>"
  have str: "stream (map (\<lambda>b. Data [b]) xs) = xs" for xs by (induction xs) simp_all
  have dec: "decoder_for 5 echo_meta byte_codec (echo_codec 5)"
    using echo_codec_ok by (simp add: decoder_for_def) (simp add: echo_codec_def)
  from messages_reach_handlers [OF _ echo_proto_ok echo_meta_ok(1) _ _ ws, of byte_marshal
      "map (\<lambda>b. Data [b]) (concat ws)" "[]" ?ns ?regs s byte_codec 1024 10 "\<lambda>_. False"] h
  obtain ps f' bs' where r: "recv_n recv 2 (new_frameReader 4096) (map (\<lambda>b. Data [b]) (concat ws)) = Some (ps, f', bs')"
    and l: "list_all2 (\<lambda>m p. \<forall>rs pooled. decoder_for 5 echo_meta byte_codec rs \<longrightarrow>
      (\<exists>m' rs' e. Decode echo_proto pooled rs p = Some (Inr (Msg m'), rs') \<and>
        onMessage 1024 10 (\<lambda>_. False) (Msg m') s = [(e, [], s)] \<and>
        reaches echo_proto ?ns byte_marshal byte_codec ?regs m e)) [demo_binary, echo_message] ps"
    by (auto simp: str s_def echo_codec_def byte_codec_appends numeral_2_eq_2)
  have "\<exists>m' rs' e. Decode echo_proto [] (echo_codec 5) (ps ! i) = Some (Inr (Msg m'), rs') \<and>
        onMessage 1024 10 (\<lambda>_. False) (Msg m') s = [(e, [], s)] \<and>
        reaches echo_proto ?ns byte_marshal byte_codec ?regs ([demo_binary, echo_message] ! i) e" if "i < 2" for i
    using list_all2_nthD [OF l, of i] dec that by simp
  from this [of 0] this [of 1] r str show ?thesis
    by (fastforce simp: reaches_def demo_binary_def echo_message_def)
qed

end
